(* ===== verification/Mesos_Prelude.thy ===== *)
theory Mesos_Prelude
  imports Main "HOL-Library.Word" "HOL-Library.Char_ord" "HOL-Library.List_Lexorder"
begin

section \<open>Shared vocabulary\<close>

text \<open>
  Types, result values and generic lemmas that the component theories share.

  \<^item> \<open>u64\<close> is the source's \<open>uint64_t\<close>; arithmetic on it wraps around.
  \<^item> \<open>'a outcome\<close> is the outcome of a C++ function that may fail. \<open>Ok\<close> is a returned value,
    \<open>Error\<close> is stout's \<open>Error\<close> (the left side of \<open>Try\<close> and \<open>Future\<close> failures),
    and \<open>Abort\<close> is a process that stopped because a \<open>CHECK\<close> did not hold.
  \<^item> \<open>interval\<close> and the operator \<open>comma\<close> are the \<open>Interval\<close> and \<open>Bound\<close> classes of
    \<open>3rdparty/stout/include/stout/interval.hpp\<close>. An \<open>IntervalSet<uint64_t>\<close> is the set
    of its elements.
\<close>

type_synonym u64 = "64 word"

datatype 'a outcome = Abort | Error string | Ok 'a

fun bind_outcome :: "'a outcome \<Rightarrow> ('a \<Rightarrow> 'b outcome) \<Rightarrow> 'b outcome" where
  "bind_outcome Abort f = Abort"
| "bind_outcome (Error e) f = Error e"
| "bind_outcome (Ok x) f = f x"

text \<open>The collections that the component proofs pass to the simplifier.\<close>

named_theorems range_simps \<open>ranges of 64-bit values and their denotation\<close>
named_theorems log_simps \<open>records of the replicated log\<close>

subsection \<open>Bounds and intervals\<close>

datatype bound = Open u64 | Closed u64

record interval =
  lower :: u64
  upper :: u64

text \<open>
  An interval is stored right-open. The successor of a bound is taken at the width of the
  type, so a closed upper bound at the largest value gives the empty interval.
\<close>

fun comma :: "bound \<Rightarrow> bound \<Rightarrow> interval" where
  "comma (Open a) (Open b) = \<lparr>lower = a + 1, upper = b\<rparr>"
| "comma (Open a) (Closed b) = \<lparr>lower = a + 1, upper = b + 1\<rparr>"
| "comma (Closed a) (Open b) = \<lparr>lower = a, upper = b\<rparr>"
| "comma (Closed a) (Closed b) = \<lparr>lower = a, upper = b + 1\<rparr>"

definition elems :: "interval \<Rightarrow> u64 set" where
  "elems i = {x. lower i \<le> x \<and> x < upper i}"

lemma elems_iff [simp]: "x \<in> elems i \<longleftrightarrow> lower i \<le> x \<and> x < upper i"
  by (simp add: elems_def)

subsection \<open>Successors at the width of the type\<close>

abbreviation max_u64 :: u64 where
  "max_u64 \<equiv> 18446744073709551615"

lemma u64_le_max [simp]: "(x::u64) \<le> max_u64"
  using word_le_def [of x max_u64] uint_lt2p [of x] by simp

lemma u64_less_max_iff: "(x::u64) < max_u64 \<longleftrightarrow> x \<noteq> max_u64"
  by (metis order_le_less u64_le_max less_irrefl)

lemma u64_succ_le: "(x::u64) < y \<Longrightarrow> x + 1 \<le> y"
  by (simp add: inc_le)

lemma unat_u64_succ: "(x::u64) \<noteq> max_u64 \<Longrightarrow> unat (x + 1) = Suc (unat x)"
proof -
  assume x: "x \<noteq> max_u64"
  have "1 + x \<noteq> 0"
  proof
    assume "1 + x = 0"
    then have "x = 0 - 1"
      by (metis add.commute add_diff_cancel_right')
    with x show False
      by simp
  qed
  then show ?thesis
    by (simp add: unatSuc add.commute)
qed

lemma u64_less_succ_iff: "y \<noteq> max_u64 \<Longrightarrow> (x::u64) < y + 1 \<longleftrightarrow> x \<le> y"
  by (simp add: word_less_nat_alt word_le_nat_alt unat_u64_succ less_Suc_eq_le)

lemma u64_less_succ: "(x::u64) < y \<Longrightarrow> x < x + 1"
  by (metis order_refl u64_le_max leD u64_less_succ_iff)

lemma u64_succ_le_iff: "(x::u64) \<noteq> max_u64 \<Longrightarrow> x + 1 \<le> y \<longleftrightarrow> x < y"
  by (metis leD leI u64_less_succ_iff u64_succ_le)

lemma u64_succ_mono: "(x::u64) < max_u64 \<Longrightarrow> y < max_u64 \<Longrightarrow> x + 1 < y + 1 \<longleftrightarrow> x < y"
  by (metis leD u64_less_max_iff u64_less_succ_iff u64_succ_le_iff linorder_not_le)

lemma u64_succ_max: "max_u64 + 1 = 0"
  by simp

lemma u64_pred_less_iff: "(0::u64) < y \<Longrightarrow> x \<le> y - 1 \<longleftrightarrow> x < y"
proof -
  assume y: "(0::u64) < y"
  have "y - 1 \<noteq> max_u64"
  proof
    assume "y - 1 = max_u64"
    then have "y = max_u64 + 1"
      by (simp add: diff_eq_eq)
    with y show False
      by simp
  qed
  then show ?thesis
    using u64_less_succ_iff [of "y - 1" x] by simp
qed

lemma u64_pred_not_max: "(x::u64) < y \<Longrightarrow> y - 1 \<noteq> max_u64"
  by (metis diff_add_cancel u64_succ_max word_not_simps(1))

end
