(* ===== verification/Values_Ranges.thy ===== *)
theory Values_Ranges
  imports Mesos_Prelude "HOL-Library.Product_Lexorder"
begin

section \<open>Range values\<close>

text \<open>
  \<open>Value::Ranges\<close> of \<open>src/common/values.cpp\<close>: port ranges and the like, held as a list of
  closed intervals of 64-bit numbers. Definitions follow the file: the in-place coalescing
  loop, the subtraction walk over two sorted lists, and the comparison and arithmetic
  operators built on them. \<open>ranges_set\<close> is the set of numbers a list stands for; the lemmas
  show that the operators compute equality, inclusion, union and difference of these sets.
\<close>

subsection \<open>Data and operations\<close>

record Range =
  rstart :: u64
  rend :: u64

type_synonym Ranges = "Range list"

definition sort_ranges :: "Range list \<Rightarrow> Range list" where
  "sort_ranges = sort_key (\<lambda>r. (rstart r, rend r))"

text \<open>
  The single pass of \<open>internal::coalesce\<close>. The loop reads the vector at \<open>i\<close> and overwrites
  it at \<open>count - 1\<close>; \<open>rend current + 1\<close> is taken at 64 bits.
\<close>

fun coalesce_step :: "Range list \<times> nat \<times> Range \<Rightarrow> nat \<Rightarrow> Range list \<times> nat \<times> Range" where
  "coalesce_step (ranges, count, current) i =
     (let rng = ranges ! i in
      if rstart rng = rstart current \<and> rend rng = rend current then (ranges, count, current)
      else if rstart rng = rstart current \<and> rend rng > rend current then
        (ranges, count, current\<lparr>rend := rend rng\<rparr>)
      else if rstart rng > rstart current then
        (if rstart rng \<le> rend current + 1 then
           (ranges, count, current\<lparr>rend := max (rend current) (rend rng)\<rparr>)
         else (ranges[count - 1 := current], count + 1, rng))
      else (ranges, count, current))"

definition coalesce_scan :: "Range list \<Rightarrow> Range list \<times> nat \<times> Range" where
  "coalesce_scan ranges = foldl coalesce_step (ranges, 1, hd ranges) [0..<length ranges]"

text \<open>
  Copying the first \<open>count\<close> ranges into the repeated field of the result, which is shortened
  first and then extended entry by entry.
\<close>

definition copy_range :: "Range list \<Rightarrow> Ranges \<Rightarrow> nat \<Rightarrow> Ranges" where
  "copy_range ranges result i =
     (let result = (if length result \<le> i then result @ [\<lparr>rstart = 0, rend = 0\<rparr>] else result)
      in result[i := ranges ! i])"

definition copy_ranges :: "Ranges \<Rightarrow> Range list \<Rightarrow> nat \<Rightarrow> Ranges" where
  "copy_ranges result ranges count =
     foldl (copy_range ranges) (if count < length result then take count result else result)
       [0..<count]"

definition coalesce_internal :: "Ranges \<Rightarrow> Range list \<Rightarrow> Ranges outcome" where
  "coalesce_internal result ranges =
     (if ranges = [] then Ok []
      else
        (let sorted = sort_ranges ranges;
             (ranges, count, current) = coalesce_scan sorted;
             ranges = ranges[count - 1 := current]
         in if count \<le> length ranges then
              (let result = copy_ranges result ranges count
               in if length result = count then Ok result else Abort)
            else Abort))"

definition coalesce :: "Ranges \<Rightarrow> Ranges list \<Rightarrow> Ranges outcome" where
  "coalesce result addedRanges = coalesce_internal result (result @ concat addedRanges)"

definition coalesce_self :: "Ranges \<Rightarrow> Ranges outcome" where
  "coalesce_self result = coalesce result [[]]"

definition coalesce_range :: "Ranges \<Rightarrow> Range \<Rightarrow> Ranges outcome" where
  "coalesce_range result addedRange = coalesce result [[addedRange]]"

text \<open>
  The walk of \<open>internal::subtract\<close>. The iterators are the two list arguments; the left range
  is shortened in place by putting the shortened range back at the front.
\<close>

fun subtract_walk :: "Range list \<Rightarrow> Range list \<Rightarrow> Ranges" where
  "subtract_walk [] right = []"
| "subtract_walk left [] = left"
| "subtract_walk (l # left) (r # right) =
     (if rend l < rstart r then l # subtract_walk left (r # right)
      else if rstart l > rend r then subtract_walk (l # left) right
      else if rstart l < rstart r then
        \<lparr>rstart = rstart l, rend = rstart r - 1\<rparr> #
        (if rend l \<le> rend r then subtract_walk left (r # right)
         else subtract_walk (l\<lparr>rstart := rend r + 1\<rparr> # left) right)
      else
        (if rend l \<le> rend r then subtract_walk left (r # right)
         else subtract_walk (l\<lparr>rstart := rend r + 1\<rparr> # left) right))"

definition subtract :: "Ranges \<Rightarrow> Ranges \<Rightarrow> Ranges" where
  "subtract left right =
     (if left = [] \<or> right = [] then left
      else subtract_walk (sort_key rstart left) (sort_key rstart right))"

definition ranges_eq :: "Ranges \<Rightarrow> Ranges \<Rightarrow> bool outcome" where
  "ranges_eq left right =
     bind_outcome (coalesce [] [left]) (\<lambda>left.
     bind_outcome (coalesce [] [right]) (\<lambda>right.
     Ok (length left = length right \<and>
         list_all (\<lambda>l. list_ex (\<lambda>r. rstart l = rstart r \<and> rend l = rend r) right) left)))"

definition ranges_le :: "Ranges \<Rightarrow> Ranges \<Rightarrow> bool outcome" where
  "ranges_le left right =
     bind_outcome (coalesce [] [left]) (\<lambda>left.
     bind_outcome (coalesce [] [right]) (\<lambda>right.
     Ok (list_all (\<lambda>l. list_ex (\<lambda>r. rstart l \<ge> rstart r \<and> rend l \<le> rend r) right) left)))"

definition ranges_plus :: "Ranges \<Rightarrow> Ranges \<Rightarrow> Ranges outcome" where
  "ranges_plus left right = coalesce [] [left, right]"

definition ranges_minus :: "Ranges \<Rightarrow> Ranges \<Rightarrow> Ranges" where
  "ranges_minus left right = subtract left right"

definition ranges_plus_assign :: "Ranges \<Rightarrow> Ranges \<Rightarrow> Ranges outcome" where
  "ranges_plus_assign left right = coalesce left [right]"

definition ranges_minus_assign :: "Ranges \<Rightarrow> Ranges \<Rightarrow> Ranges" where
  "ranges_minus_assign left right = subtract left right"

subsection \<open>What a list of ranges stands for\<close>

definition range_set :: "Range \<Rightarrow> u64 set" where
  "range_set r = {rstart r .. rend r}"

definition ranges_set :: "Ranges \<Rightarrow> u64 set" where
  "ranges_set rs = (\<Union>r \<in> set rs. range_set r)"

definition range_ok :: "Range \<Rightarrow> bool" where
  "range_ok r \<longleftrightarrow> rstart r \<le> rend r"

text \<open>Ranges in order that neither overlap nor touch.\<close>

definition separated :: "Range \<Rightarrow> Range \<Rightarrow> bool" where
  "separated a b \<longleftrightarrow> rend a < rstart b \<and> rend a + 1 \<noteq> rstart b"

definition canonical :: "Ranges \<Rightarrow> bool" where
  "canonical rs \<longleftrightarrow> list_all range_ok rs \<and> sorted_wrt separated rs"

lemma in_range_set [range_simps]: "x \<in> range_set r \<longleftrightarrow> rstart r \<le> x \<and> x \<le> rend r"
  by (simp add: range_set_def)

lemma in_ranges_set [range_simps]:
  "x \<in> ranges_set rs \<longleftrightarrow> (\<exists>r \<in> set rs. rstart r \<le> x \<and> x \<le> rend r)"
  by (auto simp: ranges_set_def range_set_def)

lemma Range_eq_iff: "a = b \<longleftrightarrow> rstart a = rstart b \<and> rend a = rend (b :: Range)"
  by (cases a; cases b) simp

lemma ranges_set_Nil [simp]: "ranges_set [] = {}"
  by (simp add: ranges_set_def)

lemma ranges_set_Cons [simp]: "ranges_set (r # rs) = range_set r \<union> ranges_set rs"
  by (simp add: ranges_set_def)

lemma ranges_set_append [simp]: "ranges_set (rs @ ss) = ranges_set rs \<union> ranges_set ss"
  by (simp add: ranges_set_def)

lemma ranges_set_concat: "ranges_set (concat rss) = (\<Union>rs \<in> set rss. ranges_set rs)"
  by (auto simp: ranges_set_def)

subsection \<open>The in-place pass as a function on lists\<close>

fun merge_from :: "Range \<Rightarrow> Range list \<Rightarrow> Range list" where
  "merge_from current [] = [current]"
| "merge_from current (rng # ranges) =
     (if rstart rng = rstart current \<and> rend rng = rend current then
        merge_from current ranges
      else if rstart rng = rstart current \<and> rend rng > rend current then
        merge_from (current\<lparr>rend := rend rng\<rparr>) ranges
      else if rstart rng > rstart current then
        (if rstart rng \<le> rend current + 1 then
           merge_from (current\<lparr>rend := max (rend current) (rend rng)\<rparr>) ranges
         else current # merge_from rng ranges)
      else merge_from current ranges)"

lemma take_update_snoc:
  "0 < n \<Longrightarrow> n \<le> length xs \<Longrightarrow> take n (xs[n - 1 := x]) = take (n - 1) xs @ [x]"
  by (cases n) (simp_all add: take_Suc_conv_app_nth)

lemma coalesce_step_merge:
  assumes "coalesce_step (ranges, n, current) i = (ranges', n', current')"
    and "0 < n" "n \<le> i" "i < length ranges"
  shows "length ranges' = length ranges \<and> 0 < n' \<and> n' \<le> Suc i \<and>
    drop (Suc i) ranges' = drop (Suc i) ranges \<and>
    take (n' - 1) ranges' @ merge_from current' rs =
      take (n - 1) ranges @ merge_from current (ranges ! i # rs)"
  using assms take_update_snoc [of n ranges current]
  by (auto simp: Let_def split: if_splits)

lemma coalesce_foldl_merge:
  assumes "0 < n" and "n \<le> length xs"
    and "foldl coalesce_step (xs, 1, hd xs) [0..<n] = (ranges, count, current)"
  shows "length ranges = length xs \<and> 0 < count \<and> count \<le> n \<and> drop n ranges = drop n xs \<and>
    take (count - 1) ranges @ merge_from current (drop n xs) = merge_from (hd xs) (tl xs)"
  using assms
proof (induction n arbitrary: ranges count current)
  case (Suc n)
  show ?case
  proof (cases n)
    case 0
    with Suc.prems show ?thesis
      by (cases xs) (auto simp: Let_def)
  next
    case (Suc m)
    obtain ranges0 count0 current0 where
      0: "foldl coalesce_step (xs, 1, hd xs) [0..<n] = (ranges0, count0, current0)"
      by (metis prod_cases3)
    with Suc Suc.prems Suc.IH [OF _ _ 0] have IH: "length ranges0 = length xs" "0 < count0"
      "count0 \<le> n" "drop n ranges0 = drop n xs"
      "take (count0 - 1) ranges0 @ merge_from current0 (drop n xs) = merge_from (hd xs) (tl xs)"
      by auto
    have at_n: "drop n xs = ranges0 ! n # drop (Suc n) xs"
      using IH(1,4) Suc.prems(2) by (metis Cons_nth_drop_Suc Suc_le_lessD list.inject)
    have "coalesce_step (ranges0, count0, current0) n = (ranges, count, current)"
      using 0 Suc.prems(3) by simp
    from coalesce_step_merge [OF this IH(2,3), of "drop (Suc n) xs"] IH at_n Suc.prems(2)
    show ?thesis
      by (metis Suc_le_lessD drop_Suc tl_drop)
  qed
qed simp

lemma copy_range_append:
  "i < length ranges \<Longrightarrow> length xs = i \<Longrightarrow>
    copy_range ranges (xs @ ys) i = xs @ ranges ! i # tl ys"
  by (cases ys) (simp_all add: copy_range_def list_update_append)

lemma foldl_copy_range:
  "n \<le> length ranges \<Longrightarrow> 
    foldl (copy_range ranges) ys [0..<n] = take n ranges @ drop n ys"
proof (induction n)
  case (Suc n)
  then show ?case
    by (simp add: copy_range_append take_Suc_conv_app_nth drop_Suc tl_drop)
qed simp

lemma copy_ranges_take: "count \<le> length ranges \<Longrightarrow> copy_ranges result ranges count = take count ranges"
  by (simp add: copy_ranges_def foldl_copy_range)

lemma sort_ranges_eq_Nil [simp]: "sort_ranges ranges = [] \<longleftrightarrow> ranges = []"
  using length_sort [of "\<lambda>r. (rstart r, rend r)" ranges]
  by (cases ranges) (simp_all add: sort_ranges_def)

lemma sort_ranges_Nil [simp]: "sort_ranges [] = []"
  by (simp add: sort_ranges_def)

lemma coalesce_internal_merge:
  "coalesce_internal result ranges =
     Ok (case sort_ranges ranges of [] \<Rightarrow> [] | r # rs \<Rightarrow> merge_from r rs)"
proof (cases "sort_ranges ranges")
  case Nil
  then have "ranges = []"
    by simp
  with Nil show ?thesis
    by (simp add: coalesce_internal_def)
next
  case (Cons r rs)
  then have ne: "ranges \<noteq> []"
    by auto
  obtain ranges' count current where
    scan: "coalesce_scan (r # rs) = (ranges', count, current)"
    by (metis prod_cases3)
  with coalesce_foldl_merge [of "length (r # rs)" "r # rs" ranges' count current]
  have *: "length ranges' = Suc (length rs)" "0 < count" "count \<le> Suc (length rs)"
    "take (count - 1) ranges' @ [current] = merge_from r rs"
    by (simp_all add: coalesce_scan_def del: upt_Suc)
  then have "take count (ranges'[count - 1 := current]) = merge_from r rs"
    using take_update_snoc [of count ranges' current] by simp
  with * ne Cons scan show ?thesis
    by (simp add: coalesce_internal_def Let_def copy_ranges_take)
qed

subsection \<open>Coalescing keeps the set and makes it canonical\<close>

lemma merge_step_cases [case_names same longer touching beyond inside]:
  assumes "rstart current \<le> rstart r"
  obtains "rstart r = rstart current" "rend r = rend current"
    | "rstart r = rstart current" "rend r > rend current" "rend r \<noteq> rend current"
    | "rstart r > rstart current" "rstart r \<noteq> rstart current" "rstart r \<le> rend current + 1"
    | "rstart r > rstart current" "rstart r \<noteq> rstart current"
      "\<not> rstart r \<le> rend current + 1"
    | "rstart r = rstart current" "rend r < rend current" "rend r \<noteq> rend current"
      "\<not> rend r > rend current"
  using assms by force

lemma merge_from_set:
  assumes "range_ok current" "list_all range_ok rs" "sorted (map rstart (current # rs))"
  shows "ranges_set (merge_from current rs) = range_set current \<union> ranges_set rs"
  using assms
proof (induction current rs rule: merge_from.induct)
  case (2 current r rs)
  have le: "rstart current \<le> rstart r" "rstart r \<le> rend r" "rstart current \<le> rend current"
    using "2.prems" by (auto simp: range_ok_def)
  from le(1) show ?case
  proof (cases rule: merge_step_cases)
    case same
    with "2.prems" "2.IH"(1) show ?thesis
      by (auto simp: range_set_def)
  next
    case longer
    with "2.prems" "2.IH"(2) show ?thesis
      by (auto simp: range_set_def range_ok_def)
  next
    case touching
    have "range_set (current\<lparr>rend := max (rend current) (rend r)\<rparr>) = range_set current \<union> range_set r"
    proof -
      have "x \<le> rend current \<or> rstart r \<le> x" for x
        using touching(3) by (meson dual_order.trans leI u64_succ_le)
      then show ?thesis
        using le by (simp add: range_set_def max_def set_eq_iff) (meson order.trans linear)
    qed
    moreover have "range_ok (current\<lparr>rend := max (rend current) (rend r)\<rparr>)"
      using le by (auto simp: range_ok_def max_def)
    ultimately show ?thesis
      using touching "2.prems" "2.IH"(3) by auto
  next
    case beyond
    with "2.prems" "2.IH"(4) show ?thesis
      by auto
  next
    case inside
    with "2.prems" "2.IH"(5) show ?thesis
      by (auto simp: range_set_def)
  qed
qed simp

lemma merge_from_starts:
  "sorted (map rstart (current # rs)) \<Longrightarrow> t \<in> set (merge_from current rs) \<Longrightarrow>
    rstart current \<le> rstart t"
proof (induction current rs rule: merge_from.induct)
  case (2 current r rs)
  then have "rstart current \<le> rstart r"
    by simp
  then show ?case
  proof (cases rule: merge_step_cases)
    case same
    with 2 show ?thesis
      by simp
  next
    case longer
    with 2 show ?thesis
      by simp
  next
    case touching
    with 2 show ?thesis
      by simp
  next
    case beyond
    with 2 show ?thesis
      by (auto intro: order.trans)
  next
    case inside
    with 2 show ?thesis
      by simp
  qed
qed simp

lemma merge_from_canonical:
  assumes "range_ok current" "list_all range_ok rs" "sorted (map rstart (current # rs))"
    and "rend current \<noteq> max_u64" "\<forall>r \<in> set rs. rend r \<noteq> max_u64"
  shows "canonical (merge_from current rs)"
  using assms
proof (induction current rs rule: merge_from.induct)
  case (1 current)
  then show ?case
    by (simp add: canonical_def)
next
  case (2 current r rs)
  have mx: "max (rend current) (rend r) \<noteq> max_u64" "rstart current \<le> max (rend current) (rend r)"
    using "2.prems" by (auto simp: range_ok_def max_def)
  have far: "separated current t"
    if "\<not> rstart r \<le> rend current + 1" "t \<in> set (merge_from r rs)" for t
  proof -
    have "rend current + 1 < rstart t"
      using that merge_from_starts [of r rs t] "2.prems"(3) by auto
    moreover have "rend current < rend current + 1"
      using "2.prems"(4) by (simp add: u64_less_succ_iff)
    ultimately show ?thesis
      by (auto simp: separated_def)
  qed
  have "rstart current \<le> rstart r"
    using "2.prems" by simp
  then show ?case
  proof (cases rule: merge_step_cases)
    case same
    with "2.prems" "2.IH"(1) show ?thesis
      by simp
  next
    case longer
    with "2.prems" "2.IH"(2) show ?thesis
      by (simp add: range_ok_def)
  next
    case touching
    with "2.prems" "2.IH"(3) mx show ?thesis
      by (simp add: range_ok_def)
  next
    case beyond
    with "2.prems" "2.IH"(4) far show ?thesis
      by (simp add: canonical_def)
  next
    case inside
    with "2.prems" "2.IH"(5) show ?thesis
      by simp
  qed
qed

definition bounded :: "Ranges \<Rightarrow> bool" where
  "bounded rs \<longleftrightarrow> (\<forall>r \<in> set rs. rend r \<noteq> max_u64)"

lemma set_sort_ranges [simp]: "set (sort_ranges rs) = set rs"
  by (simp add: sort_ranges_def)

lemma sorted_sort_ranges: "sorted (map rstart (sort_ranges rs))"
proof -
  have "sorted_wrt (\<lambda>a b. (rstart a, rend a) \<le> (rstart b, rend b)) (sort_ranges rs)"
    using sorted_sort_key [of "\<lambda>r. (rstart r, rend r)" rs]
    by (simp add: sort_ranges_def sorted_wrt_map)
  then show ?thesis
    unfolding sorted_wrt_map by (rule sorted_wrt_mono_rel [rotated]) auto
qed

lemma coalesce_internal_correct:
  assumes "list_all range_ok ranges"
  obtains rs where "coalesce_internal result ranges = Ok rs" "ranges_set rs = ranges_set ranges"
    "bounded ranges \<Longrightarrow> canonical rs"
proof (cases "sort_ranges ranges")
  case Nil
  then show ?thesis
    using that [of "[]"] by (simp add: coalesce_internal_merge canonical_def)
next
  case (Cons r rs)
  have set: "set (r # rs) = set ranges"
    using Cons set_sort_ranges by metis
  have sorted: "sorted (map rstart (r # rs))"
    using Cons sorted_sort_ranges by metis
  have ok: "range_ok r" "list_all range_ok rs"
    using assms set by (auto simp: list_all_iff)
  have "ranges_set (merge_from r rs) = ranges_set ranges"
    using merge_from_set [OF ok sorted] set by (metis ranges_set_def list.set_intros(1) ranges_set_Cons)
  moreover have "canonical (merge_from r rs)" if "bounded ranges"
    using merge_from_canonical [OF ok sorted] that set by (auto simp: bounded_def)
  ultimately show ?thesis
    using that [of "merge_from r rs"] Cons by (simp add: coalesce_internal_merge)
qed

lemma coalesce_correct:
  assumes "list_all range_ok (result @ concat added)"
  obtains rs where "coalesce result added = Ok rs"
    "ranges_set rs = ranges_set (result @ concat added)"
    "bounded (result @ concat added) \<Longrightarrow> canonical rs"
  using coalesce_internal_correct [OF assms, of result] unfolding coalesce_def by metis

lemmas ranges_eval = coalesce_def coalesce_internal_merge sort_ranges_def

subsection \<open>Canonical lists are determined by their set\<close>

lemma canonical_Cons:
  "canonical (r # rs) \<longleftrightarrow> range_ok r \<and> canonical rs \<and> (\<forall>s \<in> set rs. separated r s)"
  by (auto simp: canonical_def)

lemma separated_gap:
  assumes "separated r s" "x \<in> range_set s"
  shows "rend r + 1 < x"
proof -
  have "rend r + 1 < rstart s"
    using assms(1) by (auto simp: separated_def u64_succ_le order.strict_iff_order)
  also have "rstart s \<le> x"
    using assms(2) by (simp add: range_set_def)
  finally show ?thesis .
qed

lemma canonical_above:
  assumes "canonical (r # rs)" "x \<in> ranges_set rs"
  shows "rend r < x" "rend r + 1 < x"
proof -
  obtain s where s: "s \<in> set rs" "x \<in> range_set s" "separated r s"
    using assms by (auto simp: ranges_set_def canonical_Cons)
  then show "rend r + 1 < x"
    by (blast intro: separated_gap)
  show "rend r < x"
    using s by (auto simp: separated_def range_set_def)
qed

lemma canonical_tail:
  assumes "canonical (r # rs)"
  shows "ranges_set rs = ranges_set (r # rs) - range_set r"
  using canonical_above(1) [OF assms] by (force simp: range_set_def)

lemma canonical_head_le:
  assumes "canonical (a # as)" "canonical (b # bs)" "ranges_set (a # as) \<subseteq> ranges_set (b # bs)"
  shows "rstart b \<le> rstart a"
proof -
  have "rstart a \<in> ranges_set (b # bs)"
    using assms by (auto simp: canonical_Cons range_ok_def range_set_def)
  then show ?thesis
    using canonical_above(1) [OF assms(2)] assms(2)
    by (force simp: canonical_Cons range_ok_def range_set_def)
qed

lemma range_within_canonical:
  assumes "canonical (b # bs)" "range_ok a" "range_set a \<subseteq> ranges_set (b # bs)"
    "rstart a \<in> range_set b"
  shows "rend a \<le> rend b"
proof (rule ccontr)
  assume "\<not> rend a \<le> rend b"
  then have lt: "rend b < rend a"
    by simp
  then have "rend b + 1 \<in> range_set a"
    using assms(2,4) u64_less_succ [OF lt] u64_succ_le [OF lt] by (auto simp: range_set_def)
  with assms(3) have "rend b + 1 \<in> range_set b \<or> rend b + 1 \<in> ranges_set bs"
    by auto
  then show False
    using canonical_above(2) [OF assms(1)] u64_less_succ [OF lt] by (auto simp: range_set_def)
qed

lemma canonical_unique:
  "canonical as \<Longrightarrow> canonical bs \<Longrightarrow> ranges_set as = ranges_set bs \<Longrightarrow> as = bs"
proof (induction as arbitrary: bs)
  case Nil
  then show ?case
    by (cases bs) (auto simp: canonical_Cons range_ok_def range_set_def)
next
  case (Cons a as)
  then obtain b bs' where bs: "bs = b # bs'"
    by (cases bs) (auto simp: canonical_Cons range_ok_def range_set_def)
  note can = Cons.prems(1) Cons.prems(2) [unfolded bs]
  have start: "rstart a = rstart b"
    using canonical_head_le [OF can] canonical_head_le [OF can(2,1)] Cons.prems(3) bs
    by (metis antisym order_refl)
  have ok: "range_ok a" "range_ok b"
    using can by (auto simp: canonical_Cons)
  have "rend a = rend b"
    using range_within_canonical [OF can(2) ok(1)] range_within_canonical [OF can(1) ok(2)]
      Cons.prems(3) bs start ok by (force simp: range_ok_def range_set_def)
  with start have ab: "a = b"
    by (cases a; cases b) simp
  have "ranges_set as = ranges_set bs'"
    using Cons.prems(3) canonical_tail [OF can(1)] canonical_tail [OF can(2)] bs ab by metis
  with Cons.IH [of bs'] can ab bs show ?case
    by (simp add: canonical_Cons)
qed

lemma canonical_within:
  assumes "canonical rs" "range_ok a" "range_set a \<subseteq> ranges_set rs"
  shows "\<exists>r \<in> set rs. rstart r \<le> rstart a \<and> rend a \<le> rend r"
  using assms
proof (induction rs)
  case Nil
  then show ?case
    by (auto simp: range_ok_def range_set_def)
next
  case (Cons r rs)
  show ?case
  proof (cases "rstart a \<in> range_set r")
    case True
    then have "rend a \<le> rend r"
      by (rule range_within_canonical [OF Cons.prems])
    with True show ?thesis
      by (simp add: range_set_def)
  next
    case False
    have "rstart a \<in> range_set a"
      using Cons.prems(2) by (simp add: range_ok_def range_set_def)
    with False Cons.prems(3) have "rstart a \<in> ranges_set rs"
      by auto
    then have "rend r < rstart a"
      by (rule canonical_above(1) [OF Cons.prems(1)])
    then have "range_set a \<inter> range_set r = {}"
      by (force simp: range_set_def)
    then have "range_set a \<subseteq> ranges_set rs"
      using Cons.prems(3) by auto
    with Cons show ?thesis
      by (simp add: canonical_Cons)
  qed
qed

lemma canonical_distinct: "canonical rs \<Longrightarrow> distinct rs"
proof (induction rs)
  case (Cons r rs)
  have "\<not> separated r r"
    using Cons.prems by (auto simp: canonical_Cons separated_def range_ok_def)
  with Cons show ?case
    by (auto simp: canonical_Cons)
qed simp

lemma canonical_ok: "canonical rs \<Longrightarrow> r \<in> set rs \<Longrightarrow> range_ok r"
  by (auto simp: canonical_def list_all_iff)

subsection \<open>Comparison and addition\<close>

text \<open>
  Property C29. Two lists of valid ranges that end below the largest 64-bit number are equal
  under \<open>operator==\<close> exactly when they stand for the same set of numbers, whatever their
  order, overlaps and splits. The comparison never aborts.
\<close>

theorem ranges_eq_iff:
  assumes "list_all range_ok left" "list_all range_ok right" "bounded left" "bounded right"
  shows "ranges_eq left right = Ok (ranges_set left = ranges_set right)"
proof -
  obtain l where l: "coalesce [] [left] = Ok l" "ranges_set l = ranges_set left" "canonical l"
    using coalesce_correct [of "[]" "[left]"] assms by auto
  obtain r where r: "coalesce [] [right] = Ok r" "ranges_set r = ranges_set right" "canonical r"
    using coalesce_correct [of "[]" "[right]"] assms by auto
  have "length l = length r \<and> set l \<subseteq> set r \<longleftrightarrow> ranges_set l = ranges_set r"
  proof
    assume *: "length l = length r \<and> set l \<subseteq> set r"
    then have "set l = set r"
      using l(3) r(3) by (metis canonical_distinct card_subset_eq distinct_card finite_set)
    then show "ranges_set l = ranges_set r"
      by (simp add: ranges_set_def)
  next
    assume "ranges_set l = ranges_set r"
    then show "length l = length r \<and> set l \<subseteq> set r"
      using canonical_unique [OF l(3) r(3)] by simp
  qed
  moreover have "list_all (\<lambda>a. list_ex (\<lambda>b. rstart a = rstart b \<and> rend a = rend b) r) l \<longleftrightarrow>
      set l \<subseteq> set r"
    by (auto simp: list_all_iff list_ex_iff subset_iff simp flip: Range_eq_iff)
  ultimately show ?thesis
    using l r by (simp add: ranges_eq_def)
qed

theorem ranges_eq_iff_witness:
  "ranges_eq [\<lparr>rstart = 5, rend = 9\<rparr>, \<lparr>rstart = 2, rend = 4\<rparr>] [\<lparr>rstart = 2, rend = 9\<rparr>] = Ok True \<and>
   ranges_set [\<lparr>rstart = 5, rend = 9\<rparr>, \<lparr>rstart = 2, rend = 4\<rparr>] = ranges_set [\<lparr>rstart = 2, rend = 9\<rparr>]"
proof -
  have eval: "ranges_eq [\<lparr>rstart = 5, rend = 9\<rparr>, \<lparr>rstart = 2, rend = 4\<rparr>] [\<lparr>rstart = 2, rend = 9\<rparr>] = Ok True"
    by (simp add: ranges_eq_def ranges_eval)
  with ranges_eq_iff [of "[\<lparr>rstart = 5, rend = 9\<rparr>, \<lparr>rstart = 2, rend = 4\<rparr>]" "[\<lparr>rstart = 2, rend = 9\<rparr>]"]
  show ?thesis
    by (simp add: range_ok_def bounded_def)
qed

text \<open>
  \<open>operator<=\<close> on lists of valid ranges below the largest 64-bit number is
  inclusion of the sets they stand for.
\<close>

theorem ranges_le_iff:
  assumes "list_all range_ok left" "list_all range_ok right" "bounded left" "bounded right"
  shows "ranges_le left right = Ok (ranges_set left \<subseteq> ranges_set right)"
proof -
  obtain l where l: "coalesce [] [left] = Ok l" "ranges_set l = ranges_set left" "canonical l"
    using coalesce_correct [of "[]" "[left]"] assms by auto
  obtain r where r: "coalesce [] [right] = Ok r" "ranges_set r = ranges_set right" "canonical r"
    using coalesce_correct [of "[]" "[right]"] assms by auto
  have "(\<forall>a \<in> set l. \<exists>b \<in> set r. rstart b \<le> rstart a \<and> rend a \<le> rend b) \<longleftrightarrow>
      ranges_set l \<subseteq> ranges_set r" (is "?all \<longleftrightarrow> _")
  proof
    assume ?all
    then show "ranges_set l \<subseteq> ranges_set r"
      by (simp add: subset_iff in_ranges_set) (meson order.trans)
  next
    assume "ranges_set l \<subseteq> ranges_set r"
    then have "range_set a \<subseteq> ranges_set r" if "a \<in> set l" for a
      using that by (auto simp: ranges_set_def)
    then show ?all
      using canonical_within [OF r(3)] canonical_ok [OF l(3)] by blast
  qed
  then show ?thesis
    using l r by (simp add: ranges_le_def list_all_iff list_ex_iff)
qed

theorem ranges_le_iff_witness:
  "ranges_le [\<lparr>rstart = 3, rend = 7\<rparr>] [\<lparr>rstart = 5, rend = 9\<rparr>, \<lparr>rstart = 2, rend = 4\<rparr>] = Ok True \<and>
   ranges_set [\<lparr>rstart = 3, rend = 7\<rparr>] \<subseteq> ranges_set [\<lparr>rstart = 5, rend = 9\<rparr>, \<lparr>rstart = 2, rend = 4\<rparr>]"
proof -
  have eval: "ranges_le [\<lparr>rstart = 3, rend = 7\<rparr>] [\<lparr>rstart = 5, rend = 9\<rparr>, \<lparr>rstart = 2, rend = 4\<rparr>] = Ok True"
    by (simp add: ranges_le_def ranges_eval)
  with ranges_le_iff [of "[\<lparr>rstart = 3, rend = 7\<rparr>]" "[\<lparr>rstart = 5, rend = 9\<rparr>, \<lparr>rstart = 2, rend = 4\<rparr>]"]
  show ?thesis
    by (simp add: range_ok_def bounded_def)
qed



text \<open>
  Property C32. At the largest 64-bit number \<open>current.end + 1\<close> wraps around to zero, so a
  range inside one that ends there is not merged into it, and \<open>operator==\<close> tells two lists
  apart that stand for the same set.
\<close>

theorem ranges_eq_wraps:
  "ranges_eq [\<lparr>rstart = 5, rend = max_u64\<rparr>, \<lparr>rstart = 7, rend = 8\<rparr>] [\<lparr>rstart = 5, rend = max_u64\<rparr>] = Ok False \<and>
   ranges_set [\<lparr>rstart = 5, rend = max_u64\<rparr>, \<lparr>rstart = 7, rend = 8\<rparr>] = ranges_set [\<lparr>rstart = 5, rend = max_u64\<rparr>]"
proof
  show "ranges_eq [\<lparr>rstart = 5, rend = max_u64\<rparr>, \<lparr>rstart = 7, rend = 8\<rparr>] [\<lparr>rstart = 5, rend = max_u64\<rparr>] = Ok False"
    by (simp add: ranges_eq_def ranges_eval)
  have "{7..8} \<subseteq> {5..max_u64}"
    by (simp add: atLeastatMost_subset_iff)
  then show "ranges_set [\<lparr>rstart = 5, rend = max_u64\<rparr>, \<lparr>rstart = 7, rend = 8\<rparr>] = ranges_set [\<lparr>rstart = 5, rend = max_u64\<rparr>]"
    by (simp only: ranges_set_Cons ranges_set_Nil range_set_def Range.simps) blast
qed

subsection \<open>Subtraction\<close>

text \<open>Lists of ranges in order that do not overlap, the form the arithmetic keeps.\<close>

definition disjoint_sorted :: "Ranges \<Rightarrow> bool" where
  "disjoint_sorted rs \<longleftrightarrow> list_all range_ok rs \<and> sorted_wrt (\<lambda>a b. rend a < rstart b) rs"

lemma disjoint_sorted_Cons:
  "disjoint_sorted (r # rs) \<longleftrightarrow> range_ok r \<and> disjoint_sorted rs \<and> (\<forall>s \<in> set rs. rend r < rstart s)"
  by (auto simp: disjoint_sorted_def)

lemma disjoint_sorted_Nil [simp]: "disjoint_sorted []"
  by (simp add: disjoint_sorted_def)

lemma canonical_disjoint_sorted: "canonical rs \<Longrightarrow> disjoint_sorted rs"
  using sorted_wrt_mono_rel [of rs separated "\<lambda>a b. rend a < rstart b"]
  by (simp add: canonical_def disjoint_sorted_def separated_def)

lemma disjoint_sorted_starts: "disjoint_sorted rs \<Longrightarrow> sorted (map rstart rs)"
proof (induction rs)
  case (Cons r rs)
  have "rstart r \<le> rstart s" if "s \<in> set rs" for s
    using Cons.prems that by (meson disjoint_sorted_Cons less_imp_le order.trans range_ok_def)
  with Cons show ?case
    by (simp add: disjoint_sorted_Cons)
qed simp

lemma below_all: "\<forall>s \<in> set rs. y \<le> rstart s \<Longrightarrow> x < y \<Longrightarrow> x \<notin> ranges_set rs"
  by (auto simp: in_ranges_set)

lemma above_cut:
  assumes "rend r < rend l" "rstart l \<le> rend r"
  shows "range_set (l\<lparr>rstart := rend r + 1\<rparr>) = {x \<in> range_set l. rend r < x}"
proof -
  have "rend r \<noteq> max_u64"
    using assms(1) leD [OF u64_le_max [of "rend l"]] by auto
  then have succ: "rend r + 1 \<le> x \<longleftrightarrow> rend r < x" for x
    by (rule u64_succ_le_iff)
  have "rstart l \<le> x" if "rend r < x" for x
    using that assms(2) by (meson less_imp_le order.trans)
  moreover have "range_set (l\<lparr>rstart := rend r + 1\<rparr>) = {rend r + 1..rend l}"
    by (simp add: range_set_def)
  ultimately show ?thesis
    by (simp only: set_eq_iff in_range_set mem_Collect_eq atLeastAtMost_iff succ) blast
qed

lemma below_cut:
  assumes "rstart l < rstart r" "rstart r \<le> rend l"
  shows "range_set \<lparr>rstart = rstart l, rend = rstart r - 1\<rparr> = {x \<in> range_set l. x < rstart r}"
proof -
  have "0 < rstart r"
    using assms(1) by (metis le_less_trans word_zero_le)
  then have pred: "x \<le> rstart r - 1 \<longleftrightarrow> x < rstart r" for x
    by (rule u64_pred_less_iff)
  have "x \<le> rend l" if "x < rstart r" for x
    using that assms(2) by (meson less_imp_le order.trans)
  then show ?thesis
    by (simp only: set_eq_iff in_range_set mem_Collect_eq Range.simps pred) blast
qed

text \<open>What the walk keeps: the difference of the sets, with every result range inside the left list.\<close>

lemma subtract_walk_set:
  assumes "disjoint_sorted left" "list_all range_ok right" "sorted (map rstart right)"
  shows "ranges_set (subtract_walk left right) = ranges_set left - ranges_set right"
  using assms
proof (induction left right rule: subtract_walk.induct)
  case (3 l left r right)
  have left: "x \<in> ranges_set left \<Longrightarrow> rend l < x" for x
    using "3.prems"(1) by (auto simp: disjoint_sorted_Cons in_ranges_set)
  have right: "x \<in> ranges_set right \<Longrightarrow> rstart r \<le> x" for x
    using "3.prems"(3) by (auto simp: in_ranges_set)
  have ok: "rstart l \<le> rend l" "rstart r \<le> rend r"
    using "3.prems" by (auto simp: disjoint_sorted_Cons range_ok_def)
  have tl: "disjoint_sorted left" "list_all range_ok right" "sorted (map rstart right)"
    using "3.prems" by (auto simp: disjoint_sorted_Cons)
  have cut: "disjoint_sorted (l\<lparr>rstart := rend r + 1\<rparr> # left)" if "rend r < rend l"
    using "3.prems"(1) u64_succ_le [OF that] by (auto simp: disjoint_sorted_Cons range_ok_def)
  consider (left) "rend l < rstart r"
    | (right) "\<not> rend l < rstart r" "rstart l > rend r"
    | (front) "\<not> rend l < rstart r" "\<not> rstart l > rend r" "rend l \<le> rend r"
    | (middle) "\<not> rend l < rstart r" "\<not> rstart l > rend r" "\<not> rend l \<le> rend r"
    by force
  then show ?case
  proof cases
    case left
    then have "ranges_set (subtract_walk (l # left) (r # right)) =
        range_set l \<union> (ranges_set left - ranges_set (r # right))"
      using "3.IH"(1) "3.prems" tl by simp
    moreover have "range_set l \<inter> ranges_set (r # right) = {}"
      using left right by (force simp: range_set_def)
    ultimately show ?thesis
      by auto
  next
    case right
    then have "ranges_set (subtract_walk (l # left) (r # right)) =
        ranges_set (l # left) - ranges_set right"
      using "3.IH"(2) "3.prems" tl by simp
    moreover have "range_set r \<inter> ranges_set (l # left) = {}"
      using right ok \<open>\<And>x. x \<in> ranges_set left \<Longrightarrow> rend l < x\<close> by (force simp: range_set_def)
    ultimately show ?thesis
      by auto
  next
    case front
    have eq: "ranges_set (subtract_walk (l # left) (r # right)) =
        {x \<in> range_set l. x < rstart r} \<union> (ranges_set left - ranges_set (r # right))"
    proof (cases "rstart l < rstart r")
      case True
      with front show ?thesis
        using "3.IH"(3) "3.prems" tl below_cut [OF True] by simp
    next
      case False
      then have none: "{x \<in> range_set l. x < rstart r} = {}"
        by (auto simp: range_set_def)
      from False front show ?thesis
        unfolding none using "3.IH"(5) "3.prems" tl by simp
    qed
    have "range_set l - ranges_set (r # right) = {x \<in> range_set l. x < rstart r}"
      using front right by (force simp: range_set_def)
    with eq show ?thesis
      by auto
  next
    case middle
    have eq: "ranges_set (subtract_walk (l # left) (r # right)) =
        {x \<in> range_set l. x < rstart r} \<union>
        ({x \<in> range_set l. rend r < x} \<union> ranges_set left - ranges_set right)"
    proof (cases "rstart l < rstart r")
      case True
      with middle show ?thesis
        using "3.IH"(4) "3.prems" tl cut below_cut [OF True] above_cut [of r l] by simp
    next
      case False
      then have none: "{x \<in> range_set l. x < rstart r} = {}"
        by (auto simp: range_set_def)
      from False middle show ?thesis
        unfolding none using "3.IH"(6) "3.prems" tl cut above_cut [of r l] by simp
    qed
    have "range_set r \<inter> ranges_set left = {}"
      using middle left by (force simp: range_set_def)
    moreover have "{x \<in> range_set l. x < rstart r} \<inter> ranges_set right = {}"
      using right by force
    ultimately show ?thesis
      unfolding eq by (auto simp: range_set_def)
  qed
qed auto

lemma subtract_walk_starts:
  "disjoint_sorted left \<Longrightarrow> s \<in> set (subtract_walk left right) \<Longrightarrow> rstart (hd left) \<le> rstart s"
proof (induction left right rule: subtract_walk.induct)
  case (2 l left)
  then show ?case
    using disjoint_sorted_starts [of "l # left"] by auto
next
  case (3 l left r right)
  have first: "rstart l \<le> rstart s" if "disjoint_sorted left" "left \<noteq> [] \<Longrightarrow> rstart (hd left) \<le> rstart s"
    "left \<noteq> []"
    using that disjoint_sorted_starts [OF "3.prems"(1)] by (cases left) auto
  have nonempty: "left \<noteq> []" if "s \<in> set (subtract_walk left (r # right))"
    using that by auto
  have cut: "disjoint_sorted (l\<lparr>rstart := rend r + 1\<rparr> # left) \<and> rstart l \<le> rend r + 1"
    if "\<not> rend l \<le> rend r" "\<not> rend r < rstart l"
  proof -
    have lt: "rend r < rend l" "rstart l \<le> rend r"
      using that by auto
    then show ?thesis
      using "3.prems"(1) u64_succ_le [OF lt(1)] u64_less_succ [OF lt(1)]
      by (simp add: disjoint_sorted_Cons range_ok_def)
  qed
  show ?case
    using "3.prems" "3.IH" first nonempty cut
    by (simp add: disjoint_sorted_Cons split: if_splits) (auto intro: order.trans)
qed simp

lemma subtract_walk_disjoint_sorted:
  "disjoint_sorted left \<Longrightarrow> list_all range_ok right \<Longrightarrow> disjoint_sorted (subtract_walk left right)"
proof (induction left right rule: subtract_walk.induct)
  case (3 l left r right)
  have tl: "disjoint_sorted left" "range_ok l" "range_ok r" "list_all range_ok right"
    using "3.prems" by (auto simp: disjoint_sorted_Cons)
  have later: "rend l < rstart s" if "s \<in> set (subtract_walk left (r # right))" for s
    using that subtract_walk_starts [OF tl(1) that] "3.prems"(1)
    by (cases left) (auto simp: disjoint_sorted_Cons)
  have cut: "disjoint_sorted (l\<lparr>rstart := rend r + 1\<rparr> # left)" "rend r < rend r + 1"
    if "\<not> rend l \<le> rend r"
    using "3.prems"(1) u64_succ_le [of "rend r" "rend l"] u64_less_succ [of "rend r" "rend l"] that
    by (auto simp: disjoint_sorted_Cons range_ok_def)
  have later_cut: "rend r < rstart s" if "\<not> rend l \<le> rend r"
    "s \<in> set (subtract_walk (l\<lparr>rstart := rend r + 1\<rparr> # left) right)" for s
    using subtract_walk_starts [OF cut(1) [OF that(1)] that(2)] cut(2) [OF that(1)] by auto
  have front: "range_ok \<lparr>rstart = rstart l, rend = rstart r - 1\<rparr>" "rstart r - 1 < rend l"
    "rstart r - 1 < rend r" if "rstart l < rstart r" "\<not> rend l < rstart r"
  proof -
    have pos: "0 < rstart r"
      using that(1) by (metis le_less_trans word_zero_le)
    have "rstart l \<le> rstart r - 1" "rstart r - 1 < rstart r"
      using u64_pred_less_iff [OF pos] that(1) by auto
    moreover have "rstart r \<le> rend l" "rstart r \<le> rend r"
      using that(2) tl(3) by (auto simp: range_ok_def)
    ultimately show "range_ok \<lparr>rstart = rstart l, rend = rstart r - 1\<rparr>" "rstart r - 1 < rend l"
      "rstart r - 1 < rend r"
      by (auto simp: range_ok_def)
  qed
  show ?case
    using "3.prems" "3.IH" tl later cut later_cut front
    by (simp add: disjoint_sorted_Cons split: if_splits) (meson order.strict_trans)
qed simp_all

text \<open>Ranges in any order of which no two overlap.\<close>

definition non_overlapping :: "Ranges \<Rightarrow> bool" where
  "non_overlapping rs \<longleftrightarrow> list_all range_ok rs \<and> distinct rs \<and>
     (\<forall>a \<in> set rs. \<forall>b \<in> set rs. a \<noteq> b \<longrightarrow> range_set a \<inter> range_set b = {})"

lemma non_overlapping_sort:
  assumes "non_overlapping rs"
  shows "disjoint_sorted (sort_key rstart rs)"
proof -
  have before: "rend a < rstart b"
    if "rstart a \<le> rstart b" "a \<noteq> b" "a \<in> set rs" "b \<in> set rs" for a b
  proof (rule ccontr)
    assume "\<not> rend a < rstart b"
    then have "rstart b \<in> range_set a \<inter> range_set b"
      using that assms by (auto simp: range_set_def non_overlapping_def list_all_iff range_ok_def)
    then show False
      using that assms by (auto simp: non_overlapping_def)
  qed
  have "sorted_wrt (\<lambda>a b. rstart a \<le> rstart b) (sort_key rstart rs)"
    using sorted_sort_key [of rstart rs] by (simp add: sorted_wrt_map)
  moreover have "distinct (sort_key rstart rs)"
    using assms by (simp add: non_overlapping_def)
  ultimately have "sorted_wrt (\<lambda>a b. rstart a \<le> rstart b \<and> a \<noteq> b) (sort_key rstart rs)"
    by (simp add: distinct_conv_nth sorted_wrt_iff_nth_less)
  then have "sorted_wrt (\<lambda>a b. rend a < rstart b) (sort_key rstart rs)"
    by (rule sorted_wrt_mono_rel [rotated]) (simp add: before)
  with assms show ?thesis
    by (simp add: disjoint_sorted_def non_overlapping_def list_all_iff)
qed



end
