(* ===== verification/Values_Set.thy ===== *)
theory Values_Set
  imports Mesos_Prelude
begin

section \<open>Set values\<close>

text \<open>
  \<open>Value::Set\<close> of \<open>src/common/values.cpp\<close>: a list of items, with comparison and arithmetic
  written as nested loops over the two lists. The lemmas relate the loops to the operations
  on sets for lists without duplicates, and show where \<open>operator==\<close> differs from equality
  of sets.
\<close>

subsection \<open>Operations\<close>

type_synonym ValueSet = "string list"

text \<open>
  The inner loop of \<open>operator==\<close> runs over \<open>j\<close> but compares \<open>left.item(i)\<close> with
  \<open>right.item(i)\<close>; the sizes are equal when it is reached.
\<close>

definition set_eq :: "ValueSet \<Rightarrow> ValueSet \<Rightarrow> bool" where
  "set_eq left right \<longleftrightarrow>
     length left = length right \<and>
     list_all (\<lambda>i. list_ex (\<lambda>j. left ! i = right ! i) [0..<length right]) [0..<length left]"

definition set_le :: "ValueSet \<Rightarrow> ValueSet \<Rightarrow> bool" where
  "set_le left right \<longleftrightarrow>
     length left \<le> length right \<and>
     list_all (\<lambda>i. list_ex (\<lambda>j. left ! i = right ! j) [0..<length right]) [0..<length left]"

fun add_items :: "ValueSet \<Rightarrow> ValueSet \<Rightarrow> ValueSet" where
  "add_items result [] = result"
| "add_items result (item # items) =
     (if list_ex (\<lambda>x. item = x) result then add_items result items
      else add_items (result @ [item]) items)"

definition set_plus :: "ValueSet \<Rightarrow> ValueSet \<Rightarrow> ValueSet" where
  "set_plus left right = add_items (foldl (\<lambda>result item. result @ [item]) [] left) right"

fun keep_items :: "ValueSet \<Rightarrow> ValueSet \<Rightarrow> ValueSet \<Rightarrow> ValueSet" where
  "keep_items result [] right = result"
| "keep_items result (item # items) right =
     (if list_ex (\<lambda>x. item = x) right then keep_items result items right
      else keep_items (result @ [item]) items right)"

definition set_minus :: "ValueSet \<Rightarrow> ValueSet \<Rightarrow> ValueSet" where
  "set_minus left right = keep_items [] left right"

definition set_plus_assign :: "ValueSet \<Rightarrow> ValueSet \<Rightarrow> ValueSet" where
  "set_plus_assign left right = add_items left right"

text \<open>\<open>DeleteSubrange(j, 1)\<close> at the first match, then the loop over \<open>j\<close> is left.\<close>

fun delete_first :: "string \<Rightarrow> ValueSet \<Rightarrow> ValueSet" where
  "delete_first item [] = []"
| "delete_first item (x # xs) = (if item = x then xs else x # delete_first item xs)"

fun set_minus_assign :: "ValueSet \<Rightarrow> ValueSet \<Rightarrow> ValueSet" where
  "set_minus_assign left [] = left"
| "set_minus_assign left (item # items) = set_minus_assign (delete_first item left) items"

subsection \<open>What the loops compute\<close>

lemma list_ex_eq [simp]: "list_ex (\<lambda>x. item = x) xs \<longleftrightarrow> item \<in> set xs"
  by (auto simp: list_ex_iff)

lemma add_items_filter:
  "distinct right \<Longrightarrow> add_items result right = result @ filter (\<lambda>x. x \<notin> set result) right"
  by (induction result right rule: add_items.induct) (auto intro: filter_cong)

lemma set_add_items: "set (add_items result right) = set result \<union> set right"
  by (induction result right rule: add_items.induct) auto

lemma distinct_add_items: "distinct (add_items result right) \<longleftrightarrow> distinct result"
  by (induction result right rule: add_items.induct) auto

lemma foldl_snoc [simp]: "foldl (\<lambda>result item. result @ [item]) acc xs = acc @ xs"
  by (induction xs arbitrary: acc) auto

lemma keep_items_filter: "keep_items result left right = result @ filter (\<lambda>x. x \<notin> set right) left"
  by (induction result left right rule: keep_items.induct) auto

lemma delete_first_remove1: "delete_first item xs = remove1 item xs"
  by (induction xs) auto

lemma set_minus_assign_filter:
  "distinct left \<Longrightarrow> set_minus_assign left right = filter (\<lambda>x. x \<notin> set right) left"
  by (induction left right rule: set_minus_assign.induct)
    (auto simp: delete_first_remove1 distinct_remove1_removeAll removeAll_filter_not_eq
      intro: filter_cong)

text \<open>
  Adding keeps the left items in place, appends the new right items, and gives
  the union; no item is duplicated unless the left operand already had it twice. The in-place
  operator computes the same list.
\<close>

theorem set_plus_union:
  "set (set_plus left right) = set left \<union> set right \<and>
   (distinct (set_plus left right) \<longleftrightarrow> distinct left) \<and>
   set_plus_assign left right = set_plus left right"
  by (simp add: set_plus_def set_plus_assign_def set_add_items distinct_add_items)

text \<open>
  Subtracting removes every item of the right operand; the in-place operator
  agrees with it on operands without duplicates on the left.
\<close>

theorem set_minus_difference:
  "set (set_minus left right) = set left - set right \<and>
   (distinct left \<longrightarrow> distinct (set_minus left right) \<and> set_minus_assign left right = set_minus left right)"
  by (auto simp: set_minus_def keep_items_filter set_minus_assign_filter)

theorem set_minus_difference_witness:
  "distinct [''a'', ''b''] \<and> set_minus_assign [''a'', ''b''] [''b'', ''c''] = [''a''] \<and>
   set_minus_assign [''a'', ''b''] [''b'', ''c''] = set_minus [''a'', ''b''] [''b'', ''c'']"
  using set_minus_difference [of "[''a'', ''b'']" "[''b'', ''c'']"]
  by (simp add: set_minus_def)

lemma set_le_subset:
  assumes "distinct left"
  shows "set_le left right \<longleftrightarrow> set left \<subseteq> set right"
proof -
  have "list_ex (\<lambda>j. x = right ! j) [0..<length right] \<longleftrightarrow> x \<in> set right" for x
    by (fastforce simp: list_ex_iff in_set_conv_nth)
  then have "list_all (\<lambda>i. list_ex (\<lambda>j. left ! i = right ! j) [0..<length right]) [0..<length left] \<longleftrightarrow>
      (\<forall>i < length left. left ! i \<in> set right)"
    by (simp only: list_all_iff set_upt atLeastLessThan_iff) auto
  also have "\<dots> \<longleftrightarrow> set left \<subseteq> set right"
    by (metis in_set_conv_nth subset_iff)
  finally have "list_all (\<lambda>i. list_ex (\<lambda>j. left ! i = right ! j) [0..<length right]) [0..<length left] \<longleftrightarrow>
      set left \<subseteq> set right" .
  moreover have "length left \<le> length right" if "set left \<subseteq> set right"
  proof -
    have "length left = card (set left)"
      using assms by (simp add: distinct_card)
    also have "\<dots> \<le> card (set right)"
      using that by (simp add: card_mono)
    also have "\<dots> \<le> length right"
      by (rule card_length)
    finally show ?thesis .
  qed
  ultimately show ?thesis
    by (auto simp: set_le_def)
qed

lemma set_eq_list_eq: "set_eq left right \<longleftrightarrow> left = right"
proof (cases "length left = length right")
  case True
  have "list_ex (\<lambda>j. left ! i = right ! i) [0..<length right] \<longleftrightarrow> left ! i = right ! i"
    if "i < length right" for i
    using that by (auto simp: list_ex_iff)
  with True have "set_eq left right \<longleftrightarrow> (\<forall>i < length right. left ! i = right ! i)"
    by (auto simp: set_eq_def Ball_set [symmetric])
  with True show ?thesis
    using nth_equalityI [of left right] by auto
next
  case False
  then show ?thesis
    by (auto simp: set_eq_def)
qed

text \<open>
  For a left operand without duplicates \<open>operator<=\<close> is inclusion.
\<close>

theorem set_le_iff: "distinct left \<Longrightarrow> set_le left right \<longleftrightarrow> set left \<subseteq> set right"
  by (rule set_le_subset)

theorem set_le_iff_witness:
  "distinct [''b'', ''a''] \<and> set_le [''b'', ''a''] [''a'', ''b'', ''c'']"
  using set_le_iff [of "[''b'', ''a'']" "[''a'', ''b'', ''c'']"] by simp

text \<open>
  Property C33. \<open>operator==\<close> is equality of the item lists, position by position: the order
  of the items matters, and two operands can include each other without being equal.
\<close>

theorem set_eq_positional:
  "(set_eq left right \<longleftrightarrow> left = right) \<and>
   \<not> set_eq [''a'', ''b''] [''b'', ''a''] \<and>
   set_le [''a'', ''b''] [''b'', ''a''] \<and> set_le [''b'', ''a''] [''a'', ''b'']"
  by (simp add: set_eq_list_eq set_le_subset)

end
