(* ===== verification/Log_Messages.thy ===== *)
theory Log_Messages
  imports Mesos_Prelude
begin

section \<open>Messages of the replicated log\<close>

text \<open>
  The records of \<open>src/messages/log.proto\<close>. An \<open>optional\<close> field is an option, and \<open>has_f()\<close>
  is \<open>f \<noteq> None\<close>. Reading an unset field gives the default of its type, which the accessors at
  the end write out where the code relies on it.
\<close>

datatype ActionType = NOP | APPEND | TRUNCATE

record Nop =
  tombstone :: "bool option"

record Append =
  bytes :: string
  cksum :: "string option"

record Truncate =
  to :: u64

record Action =
  position :: u64
  promised :: u64
  performed :: "u64 option"
  learned :: "bool option"
  action_type :: "ActionType option"
  action_nop :: "Nop option"
  action_append :: "Append option"
  action_truncate :: "Truncate option"

datatype Status = VOTING | RECOVERING | STARTING | EMPTY

record Metadata =
  meta_status :: Status
  meta_promised :: u64

datatype RecordType = PROMISE | ACTION | METADATA

record Rec =
  rec_type :: RecordType
  rec_promise :: "u64 option"
  rec_action :: "Action option"
  rec_metadata :: "Metadata option"

record PromiseRequest =
  pq_proposal :: u64
  pq_position :: "u64 option"

datatype ResponseType = ACCEPT | REJECT | IGNORED

record PromiseResponse =
  pr_okay :: bool
  pr_type :: "ResponseType option"
  pr_proposal :: u64
  pr_position :: "u64 option"
  pr_action :: "Action option"

record WriteRequest =
  wq_proposal :: u64
  wq_position :: u64
  wq_learned :: "bool option"
  wq_type :: ActionType
  wq_nop :: "Nop option"
  wq_append :: "Append option"
  wq_truncate :: "Truncate option"

record WriteResponse =
  wr_okay :: bool
  wr_type :: "ResponseType option"
  wr_proposal :: u64
  wr_position :: u64

record RecoverResponse =
  rr_status :: Status
  rr_begin :: "u64 option"
  rr_end :: "u64 option"

text \<open>\<open>Action\<close> and the responses with only the required fields set, and a default metadata.\<close>

definition new_action :: "u64 \<Rightarrow> u64 \<Rightarrow> Action" where
  "new_action pos prom =
     \<lparr>position = pos, promised = prom, performed = None, learned = None, action_type = None,
      action_nop = None, action_append = None, action_truncate = None\<rparr>"

definition new_metadata :: Metadata where
  "new_metadata = \<lparr>meta_status = EMPTY, meta_promised = 0\<rparr>"

text \<open>\<open>action.has_learned() && action.learned()\<close>.\<close>

definition is_learned :: "Action \<Rightarrow> bool" where
  "is_learned a \<longleftrightarrow> learned a = Some True"

text \<open>\<open>action.truncate().to()\<close>, which is 0 when the field is unset.\<close>

definition truncate_to :: "Action \<Rightarrow> u64" where
  "truncate_to a = (case action_truncate a of None \<Rightarrow> 0 | Some t \<Rightarrow> to t)"

definition is_truncate :: "Action \<Rightarrow> bool" where
  "is_truncate a \<longleftrightarrow> action_type a = Some TRUNCATE"

text \<open>
  \<open>action.has_type() && action.type() == Action::NOP && action.nop().has_tombstone() &&
  action.nop().tombstone()\<close>.
\<close>

definition is_tombstone :: "Action \<Rightarrow> bool" where
  "is_tombstone a \<longleftrightarrow>
     action_type a = Some NOP \<and>
     (case action_nop a of None \<Rightarrow> False | Some n \<Rightarrow> tombstone n = Some True)"

text \<open>The value of an action: what consensus is about, without the fields of the protocol.\<close>

datatype Val = VNop | VAppend Append | VTruncate Truncate

definition action_value :: "Action \<Rightarrow> Val option" where
  "action_value a =
     (case action_type a of
        None \<Rightarrow> None
      | Some NOP \<Rightarrow> Some VNop
      | Some APPEND \<Rightarrow> map_option VAppend (action_append a)
      | Some TRUNCATE \<Rightarrow> map_option VTruncate (action_truncate a))"

lemma new_action_simps [simp]:
  "position (new_action p q) = p" "promised (new_action p q) = q"
  "performed (new_action p q) = None" "learned (new_action p q) = None"
  "action_type (new_action p q) = None" "action_nop (new_action p q) = None"
  "action_append (new_action p q) = None" "action_truncate (new_action p q) = None"
  by (simp_all add: new_action_def)

lemma is_truncate_not_tombstone [simp]: "is_truncate a \<Longrightarrow> \<not> is_tombstone a"
  by (simp add: is_truncate_def is_tombstone_def)

end
