(* ===== verification/Log_Consensus.thy ===== *)
theory Log_Consensus
  imports Log_Messages "HOL-Library.Sublist"
begin

section \<open>Consensus: promises, writes and fills\<close>

text \<open>
  The processes of \<open>src/log/consensus.cpp\<close>. Each of \<open>ExplicitPromiseProcess\<close>,
  \<open>ImplicitPromiseProcess\<close> and \<open>WriteProcess\<close> broadcasts a request and collects the responses
  until a quorum answered or ignored it; \<open>FillProcess\<close> runs a full round of Paxos for one position.

  A process is the record of its fields. Its handlers are functions on the record; a message that
  arrives after the process has set its promise is dropped, since the process has terminated.
  The network, which delivers responses in any order, is the list of the responses received.
\<close>

datatype 'a future = Pending | Ready 'a | Failed string | Discarded

fun not_ready :: "string \<Rightarrow> 'a future \<Rightarrow> 'b future" where
  "not_ready pre (Failed e) = Failed (pre @ e)"
| "not_ready pre _ = Failed ''Not expecting discarded future''"

definition isRejectedPromise :: "PromiseResponse \<Rightarrow> bool" where
  "isRejectedPromise m = (case pr_type m of Some t \<Rightarrow> t = REJECT | None \<Rightarrow> \<not> pr_okay m)"

definition isRejectedWrite :: "WriteResponse \<Rightarrow> bool" where
  "isRejectedWrite m = (case wr_type m of Some t \<Rightarrow> t = REJECT | None \<Rightarrow> \<not> wr_okay m)"

text \<open>Results of the processes. An unset required field reads as its default.\<close>

definition promise_result :: "ResponseType \<Rightarrow> bool \<Rightarrow> u64 \<Rightarrow> u64 option \<Rightarrow> Action option \<Rightarrow> PromiseResponse"
  where
  "promise_result t ok n p a =
     \<lparr>pr_okay = ok, pr_type = Some t, pr_proposal = n, pr_position = p, pr_action = a\<rparr>"

definition write_result :: "ResponseType \<Rightarrow> bool \<Rightarrow> u64 \<Rightarrow> WriteResponse" where
  "write_result t ok n = \<lparr>wr_okay = ok, wr_type = Some t, wr_proposal = n, wr_position = 0\<rparr>"

text \<open>\<open>if (highest.isNone() || highest.get() < n) highest = n\<close>.\<close>

definition raise_option :: "u64 option \<Rightarrow> u64 \<Rightarrow> u64 option" where
  "raise_option h n = (case h of None \<Rightarrow> Some n | Some x \<Rightarrow> if x < n then Some n else Some x)"

subsection \<open>Explicit promises\<close>

record ExplicitPromiseProcess =
  ep_quorum :: nat
  ep_proposal :: u64
  ep_position :: u64
  ep_responsesReceived :: nat
  ep_ignoresReceived :: nat
  ep_highestNackProposal :: "u64 option"
  ep_highestAckAction :: "Action option"
  ep_promise :: "PromiseResponse future"

definition new_ExplicitPromiseProcess :: "nat \<Rightarrow> u64 \<Rightarrow> u64 \<Rightarrow> ExplicitPromiseProcess" where
  "new_ExplicitPromiseProcess q n p =
     \<lparr>ep_quorum = q, ep_proposal = n, ep_position = p, ep_responsesReceived = 0,
      ep_ignoresReceived = 0, ep_highestNackProposal = None, ep_highestAckAction = None,
      ep_promise = Pending\<rparr>"

definition explicit_watched ::
  "nat future \<Rightarrow> ExplicitPromiseProcess \<Rightarrow> (ExplicitPromiseProcess \<times> PromiseRequest option) outcome"
  where
  "explicit_watched f s =
     (case f of
        Ready k \<Rightarrow>
          if k < ep_quorum s then Abort
          else Ok (s, Some \<lparr>pq_proposal = ep_proposal s, pq_position = Some (ep_position s)\<rparr>)
      | _ \<Rightarrow> Ok (s\<lparr>ep_promise := not_ready '''' f\<rparr>, None))"

definition explicit_ack ::
  "PromiseResponse \<Rightarrow> ExplicitPromiseProcess \<Rightarrow> ExplicitPromiseProcess outcome" where
  "explicit_ack m s =
     (if pr_proposal m \<noteq> ep_proposal s then Abort
      else
        (case pr_action m of
           Some a \<Rightarrow>
             if position a \<noteq> ep_position s then Abort
             else if is_learned a then Ok (s\<lparr>ep_promise := Ready m\<rparr>)
             else
               (case performed a of
                  Some n \<Rightarrow>
                    (case ep_highestAckAction s of
                       None \<Rightarrow> Ok (s\<lparr>ep_highestAckAction := Some a\<rparr>)
                     | Some b \<Rightarrow>
                         if (case performed b of None \<Rightarrow> 0 | Some k \<Rightarrow> k) < n
                         then Ok (s\<lparr>ep_highestAckAction := Some a\<rparr>) else Ok s)
                | None \<Rightarrow> Ok s)
         | None \<Rightarrow>
             if pr_position m \<noteq> Some (ep_position s) then Abort else Ok s))"

definition explicit_finish :: "ExplicitPromiseProcess \<Rightarrow> ExplicitPromiseProcess" where
  "explicit_finish s =
     (if ep_quorum s \<le> ep_responsesReceived s then
        s\<lparr>ep_promise := Ready
          (case ep_highestNackProposal s of
             Some n \<Rightarrow> promise_result REJECT False n None None
           | None \<Rightarrow> promise_result ACCEPT True 0 None (ep_highestAckAction s))\<rparr>
      else s)"

definition explicit_received ::
  "PromiseResponse \<Rightarrow> ExplicitPromiseProcess \<Rightarrow> ExplicitPromiseProcess outcome" where
  "explicit_received m s =
     (if ep_promise s \<noteq> Pending then Ok s
      else if pr_type m = Some IGNORED then
        (let s = s\<lparr>ep_ignoresReceived := ep_ignoresReceived s + 1\<rparr> in
         if ep_quorum s \<le> ep_ignoresReceived s
         then Ok (s\<lparr>ep_promise := Ready (promise_result IGNORED False 0 None None)\<rparr>) else Ok s)
      else
        (let s = s\<lparr>ep_responsesReceived := ep_responsesReceived s + 1\<rparr> in
         if isRejectedPromise m then
           Ok (explicit_finish
             (s\<lparr>ep_highestNackProposal := raise_option (ep_highestNackProposal s) (pr_proposal m)\<rparr>))
         else if ep_highestNackProposal s \<noteq> None then Ok (explicit_finish s)
         else
           bind_outcome (explicit_ack m s) (\<lambda>s.
             if ep_promise s \<noteq> Pending then Ok s else Ok (explicit_finish s))))"

subsection \<open>Implicit promises\<close>

record ImplicitPromiseProcess =
  ip_quorum :: nat
  ip_proposal :: u64
  ip_responsesReceived :: nat
  ip_ignoresReceived :: nat
  ip_highestNackProposal :: "u64 option"
  ip_highestEndPosition :: "u64 option"
  ip_promise :: "PromiseResponse future"

definition new_ImplicitPromiseProcess :: "nat \<Rightarrow> u64 \<Rightarrow> ImplicitPromiseProcess" where
  "new_ImplicitPromiseProcess q n =
     \<lparr>ip_quorum = q, ip_proposal = n, ip_responsesReceived = 0, ip_ignoresReceived = 0,
      ip_highestNackProposal = None, ip_highestEndPosition = None, ip_promise = Pending\<rparr>"

definition implicit_watched ::
  "nat future \<Rightarrow> ImplicitPromiseProcess \<Rightarrow> (ImplicitPromiseProcess \<times> PromiseRequest option) outcome"
  where
  "implicit_watched f s =
     (case f of
        Ready k \<Rightarrow>
          if k < ip_quorum s then Abort
          else Ok (s, Some \<lparr>pq_proposal = ip_proposal s, pq_position = None\<rparr>)
      | _ \<Rightarrow> Ok (s\<lparr>ip_promise := not_ready '''' f\<rparr>, None))"

definition implicit_finish :: "ImplicitPromiseProcess \<Rightarrow> ImplicitPromiseProcess outcome" where
  "implicit_finish s =
     (if ip_quorum s \<le> ip_responsesReceived s then
        (case ip_highestNackProposal s of
           Some n \<Rightarrow> Ok (s\<lparr>ip_promise := Ready (promise_result REJECT False n None None)\<rparr>)
         | None \<Rightarrow>
             (case ip_highestEndPosition s of
                None \<Rightarrow> Abort
              | Some e \<Rightarrow>
                  Ok (s\<lparr>ip_promise := Ready (promise_result ACCEPT True 0 (Some e) None)\<rparr>)))
      else Ok s)"

definition implicit_received ::
  "PromiseResponse \<Rightarrow> ImplicitPromiseProcess \<Rightarrow> ImplicitPromiseProcess outcome" where
  "implicit_received m s =
     (if ip_promise s \<noteq> Pending then Ok s
      else if pr_type m = Some IGNORED then
        (let s = s\<lparr>ip_ignoresReceived := ip_ignoresReceived s + 1\<rparr> in
         if ip_quorum s \<le> ip_ignoresReceived s
         then Ok (s\<lparr>ip_promise := Ready (promise_result IGNORED False 0 None None)\<rparr>) else Ok s)
      else
        (let s = s\<lparr>ip_responsesReceived := ip_responsesReceived s + 1\<rparr> in
         if isRejectedPromise m then
           implicit_finish
             (s\<lparr>ip_highestNackProposal := raise_option (ip_highestNackProposal s) (pr_proposal m)\<rparr>)
         else if ip_highestNackProposal s \<noteq> None then implicit_finish s
         else
           (case pr_position m of
              None \<Rightarrow> Abort
            | Some e \<Rightarrow>
                implicit_finish
                  (s\<lparr>ip_highestEndPosition := raise_option (ip_highestEndPosition s) e\<rparr>))))"

subsection \<open>Writes\<close>

record WriteProcess =
  wp_quorum :: nat
  wp_proposal :: u64
  wp_action :: Action
  wp_responsesReceived :: nat
  wp_ignoresReceived :: nat
  wp_highestNackProposal :: "u64 option"
  wp_promise :: "WriteResponse future"

definition new_WriteProcess :: "nat \<Rightarrow> u64 \<Rightarrow> Action \<Rightarrow> WriteProcess" where
  "new_WriteProcess q n a =
     \<lparr>wp_quorum = q, wp_proposal = n, wp_action = a, wp_responsesReceived = 0,
      wp_ignoresReceived = 0, wp_highestNackProposal = None, wp_promise = Pending\<rparr>"

text \<open>The request of a write. \<open>action.type()\<close> of an action without a type is \<open>NOP\<close>.\<close>

definition write_request :: "u64 \<Rightarrow> Action \<Rightarrow> WriteRequest outcome" where
  "write_request n a =
     (let q = \<lparr>wq_proposal = n, wq_position = position a, wq_learned = None,
               wq_type = (case action_type a of None \<Rightarrow> NOP | Some t \<Rightarrow> t),
               wq_nop = None, wq_append = None, wq_truncate = None\<rparr> in
      case wq_type q of
        NOP \<Rightarrow>
          if action_nop a = None then Abort else Ok (q\<lparr>wq_nop := Some \<lparr>tombstone = None\<rparr>\<rparr>)
      | APPEND \<Rightarrow>
          if action_append a = None then Abort else Ok (q\<lparr>wq_append := action_append a\<rparr>)
      | TRUNCATE \<Rightarrow>
          if action_truncate a = None then Abort else Ok (q\<lparr>wq_truncate := action_truncate a\<rparr>))"

definition write_watched ::
  "nat future \<Rightarrow> WriteProcess \<Rightarrow> (WriteProcess \<times> WriteRequest option) outcome" where
  "write_watched f s =
     (case f of
        Ready k \<Rightarrow>
          if k < wp_quorum s then Abort
          else bind_outcome (write_request (wp_proposal s) (wp_action s)) (\<lambda>q. Ok (s, Some q))
      | _ \<Rightarrow> Ok (s\<lparr>wp_promise := not_ready '''' f\<rparr>, None))"

definition write_finish :: "WriteProcess \<Rightarrow> WriteProcess" where
  "write_finish s =
     (if wp_quorum s \<le> wp_responsesReceived s then
        s\<lparr>wp_promise := Ready
          (case wp_highestNackProposal s of
             Some n \<Rightarrow> write_result REJECT False n
           | None \<Rightarrow> write_result ACCEPT True 0)\<rparr>
      else s)"

definition write_received :: "WriteResponse \<Rightarrow> WriteProcess \<Rightarrow> WriteProcess outcome" where
  "write_received m s =
     (if wp_promise s \<noteq> Pending then Ok s
      else if wr_position m \<noteq> position (wp_action s) then Abort
      else if wr_type m = Some IGNORED then
        (let s = s\<lparr>wp_ignoresReceived := wp_ignoresReceived s + 1\<rparr> in
         if wp_quorum s \<le> wp_ignoresReceived s
         then Ok (s\<lparr>wp_promise := Ready (write_result IGNORED False 0)\<rparr>) else Ok s)
      else
        (let s = s\<lparr>wp_responsesReceived := wp_responsesReceived s + 1\<rparr> in
         if isRejectedWrite m then
           Ok (write_finish
             (s\<lparr>wp_highestNackProposal := raise_option (wp_highestNackProposal s) (wr_proposal m)\<rparr>))
         else Ok (write_finish s)))"

text \<open>The three handlers of a failed broadcast, and a run of a handler over received responses.\<close>

definition explicit_broadcasted :: "'a future \<Rightarrow> ExplicitPromiseProcess \<Rightarrow> ExplicitPromiseProcess" where
  "explicit_broadcasted f s =
     (case f of Ready _ \<Rightarrow> s
      | _ \<Rightarrow> s\<lparr>ep_promise := not_ready ''Failed to broadcast explicit promise request: '' f\<rparr>)"

definition implicit_broadcasted :: "'a future \<Rightarrow> ImplicitPromiseProcess \<Rightarrow> ImplicitPromiseProcess" where
  "implicit_broadcasted f s =
     (case f of Ready _ \<Rightarrow> s
      | _ \<Rightarrow> s\<lparr>ip_promise := not_ready ''Failed to broadcast implicit promise request: '' f\<rparr>)"

definition write_broadcasted :: "'a future \<Rightarrow> WriteProcess \<Rightarrow> WriteProcess" where
  "write_broadcasted f s =
     (case f of Ready _ \<Rightarrow> s
      | _ \<Rightarrow> s\<lparr>wp_promise := not_ready ''Failed to broadcast the write request: '' f\<rparr>)"

fun run_received :: "('m \<Rightarrow> 's \<Rightarrow> 's outcome) \<Rightarrow> 'm list \<Rightarrow> 's \<Rightarrow> 's outcome" where
  "run_received h [] s = Ok s"
| "run_received h (m # ms) s = bind_outcome (h m s) (run_received h ms)"

text \<open>\<open>log::learn\<close>: the message that is broadcast.\<close>

definition learn :: "Action \<Rightarrow> Action" where
  "learn a = (if is_learned a then a else a\<lparr>learned := Some True\<rparr>)"

subsection \<open>Filling a position\<close>

datatype FillPhase = Promising | Writing Action | Learning Action | Waiting | Finished

record FillProcess =
  fp_quorum :: nat
  fp_position :: u64
  fp_proposal :: u64
  fp_phase :: FillPhase
  fp_promise :: "Action future"

text \<open>The phase is the future the process waits for; \<open>Waiting\<close> is the back-off of \<open>retry\<close>.\<close>

definition new_FillProcess :: "nat \<Rightarrow> u64 \<Rightarrow> u64 \<Rightarrow> FillProcess" where
  "new_FillProcess q n p =
     \<lparr>fp_quorum = q, fp_position = p, fp_proposal = n, fp_phase = Promising, fp_promise = Pending\<rparr>"

definition runPromisePhase :: "FillProcess \<Rightarrow> FillProcess" where
  "runPromisePhase s = s\<lparr>fp_phase := Promising\<rparr>"

definition runWritePhase :: "Action \<Rightarrow> FillProcess \<Rightarrow> FillProcess outcome" where
  "runWritePhase a s = (if is_learned a then Abort else Ok (s\<lparr>fp_phase := Writing a\<rparr>))"

definition runLearnPhase :: "Action \<Rightarrow> FillProcess \<Rightarrow> FillProcess outcome" where
  "runLearnPhase a s = (if \<not> is_learned a then Abort else Ok (s\<lparr>fp_phase := Learning a\<rparr>))"

definition retry :: "u64 \<Rightarrow> FillProcess \<Rightarrow> FillProcess outcome" where
  "retry highestNackProposal s =
     (if highestNackProposal < fp_proposal s then Abort
      else Ok (s\<lparr>fp_proposal := highestNackProposal + 1, fp_phase := Waiting\<rparr>))"

definition fill_fail :: "string \<Rightarrow> FillProcess \<Rightarrow> FillProcess" where
  "fill_fail e s = s\<lparr>fp_promise := Failed e, fp_phase := Finished\<rparr>"

definition nop_action :: "u64 \<Rightarrow> u64 \<Rightarrow> Action" where
  "nop_action p n =
     (new_action p n)\<lparr>performed := Some n, action_type := Some NOP,
       action_nop := Some \<lparr>tombstone = None\<rparr>\<rparr>"

definition checkPromisePhase :: "PromiseResponse future \<Rightarrow> FillProcess \<Rightarrow> FillProcess outcome" where
  "checkPromisePhase f s =
     (case f of
        Discarded \<Rightarrow> Abort
      | Failed e \<Rightarrow> Ok (fill_fail (''Explicit promise phase failed: '' @ e) s)
      | Pending \<Rightarrow> Ok s
      | Ready m \<Rightarrow>
          if \<not> pr_okay m then retry (pr_proposal m) s
          else
            (case pr_action m of
               Some a \<Rightarrow>
                 if position a \<noteq> fp_position s \<or> action_type a = None then Abort
                 else
                   (let a = a\<lparr>promised := fp_proposal s, performed := Some (fp_proposal s)\<rparr> in
                    if is_learned a then runLearnPhase a s else runWritePhase a s)
             | None \<Rightarrow> runWritePhase (nop_action (fp_position s) (fp_proposal s)) s))"

definition checkWritePhase :: "WriteResponse future \<Rightarrow> Action \<Rightarrow> FillProcess \<Rightarrow> FillProcess outcome" where
  "checkWritePhase f a s =
     (case f of
        Discarded \<Rightarrow> Abort
      | Failed e \<Rightarrow> Ok (fill_fail (''Write phase failed: '' @ e) s)
      | Pending \<Rightarrow> Ok s
      | Ready m \<Rightarrow>
          if \<not> wr_okay m then retry (wr_proposal m) s
          else runLearnPhase (a\<lparr>learned := Some True\<rparr>) s)"

definition checkLearnPhase :: "unit future \<Rightarrow> Action \<Rightarrow> FillProcess \<Rightarrow> FillProcess" where
  "checkLearnPhase f a s =
     (case f of
        Ready _ \<Rightarrow> s\<lparr>fp_promise := Ready a, fp_phase := Finished\<rparr>
      | _ \<Rightarrow> s\<lparr>fp_promise := not_ready ''Write phase failed: '' f, fp_phase := Finished\<rparr>)"

subsection \<open>Collecting a quorum\<close>

text \<open>
  What the three processes have in common: a response raises one of two counters, and the promise
  is set at the latest when one of them reaches the quorum.
\<close>

locale quorum_collector =
  fixes received :: "'m \<Rightarrow> 's \<Rightarrow> 's outcome"
    and pending :: "'s \<Rightarrow> bool"
    and quorum :: "'s \<Rightarrow> nat"
    and answers :: "'s \<Rightarrow> nat"
    and ignores :: "'s \<Rightarrow> nat"
    and is_ignored :: "'m \<Rightarrow> bool"
    and expected :: "'s \<Rightarrow> 'm \<Rightarrow> bool"
    and counted :: "'s \<Rightarrow> bool"
  assumes dropped: "\<not> pending s \<Longrightarrow> received m s = Ok s"
    and step: "pending s \<Longrightarrow> counted s \<Longrightarrow> expected s m \<Longrightarrow>
      \<exists>s'. received m s = Ok s' \<and> quorum s' = quorum s \<and> expected s' = expected s \<and> counted s' \<and>
        (pending s' \<longrightarrow>
           answers s' = answers s + (if is_ignored m then 0 else 1) \<and>
           ignores s' = ignores s + (if is_ignored m then 1 else 0) \<and>
           (is_ignored m \<longrightarrow> ignores s' < quorum s) \<and> (\<not> is_ignored m \<longrightarrow> answers s' < quorum s))"
begin

lemma run_counts:
  assumes "\<And>m. m \<in> set ms \<Longrightarrow> expected s m" and "counted s"
  shows "\<exists>s'. run_received received ms s = Ok s' \<and> quorum s' = quorum s \<and>
    (pending s' \<longrightarrow> pending s \<and>
       answers s' = answers s + length (filter (\<lambda>m. \<not> is_ignored m) ms) \<and>
       ignores s' = ignores s + length (filter is_ignored ms) \<and>
       (filter (\<lambda>m. \<not> is_ignored m) ms \<noteq> [] \<longrightarrow> answers s' < quorum s) \<and>
       (filter is_ignored ms \<noteq> [] \<longrightarrow> ignores s' < quorum s))"
  using assms
proof (induction ms arbitrary: s)
  case (Cons m ms)
  show ?case
  proof (cases "pending s")
    case False
    then have run: "run_received received (m # ms) s = run_received received ms s"
      using dropped by simp
    have "\<And>k. k \<in> set ms \<Longrightarrow> expected s k"
      using Cons.prems by simp
    from Cons.IH [OF this Cons.prems(2)] False show ?thesis
      unfolding run by blast
  next
    case True
    then obtain s1 where s1: "received m s = Ok s1" "quorum s1 = quorum s" "expected s1 = expected s"
        "counted s1"
      and count: "pending s1 \<Longrightarrow>
           answers s1 = answers s + (if is_ignored m then 0 else 1) \<and>
           ignores s1 = ignores s + (if is_ignored m then 1 else 0) \<and>
           (is_ignored m \<longrightarrow> ignores s1 < quorum s) \<and> (\<not> is_ignored m \<longrightarrow> answers s1 < quorum s)"
      using step [OF True, of m] Cons.prems by auto
    have "\<And>k. k \<in> set ms \<Longrightarrow> expected s1 k"
      using Cons.prems s1 by simp
    from Cons.IH [OF this s1(4)] obtain s' where s': "run_received received ms s1 = Ok s'"
      "quorum s' = quorum s1"
      and IH: "pending s' \<Longrightarrow> pending s1 \<and>
         answers s' = answers s1 + length (filter (\<lambda>m. \<not> is_ignored m) ms) \<and>
         ignores s' = ignores s1 + length (filter is_ignored ms) \<and>
         (filter (\<lambda>m. \<not> is_ignored m) ms \<noteq> [] \<longrightarrow> answers s' < quorum s1) \<and>
         (filter is_ignored ms \<noteq> [] \<longrightarrow> ignores s' < quorum s1)"
      by blast
    have "pending s' \<Longrightarrow> pending s \<and>
         answers s' = answers s + length (filter (\<lambda>m. \<not> is_ignored m) (m # ms)) \<and>
         ignores s' = ignores s + length (filter is_ignored (m # ms)) \<and>
         (filter (\<lambda>m. \<not> is_ignored m) (m # ms) \<noteq> [] \<longrightarrow> answers s' < quorum s) \<and>
         (filter is_ignored (m # ms) \<noteq> [] \<longrightarrow> ignores s' < quorum s)"
      using IH count True s1(2) by (cases "filter (\<lambda>m. \<not> is_ignored m) ms"; cases "filter is_ignored ms") auto
    then show ?thesis
      using s1 s' by auto
  qed
qed simp

text \<open>Once a quorum of responses of one kind is in, the promise is set.\<close>

lemma run_completes:
  assumes "\<And>m. m \<in> set ms \<Longrightarrow> expected s m" and "counted s"
    and "quorum s \<le> answers s + length (filter (\<lambda>m. \<not> is_ignored m) ms) \<and>
           answers s < quorum s \<or>
         quorum s \<le> ignores s + length (filter is_ignored ms) \<and> ignores s < quorum s"
  shows "\<exists>s'. run_received received ms s = Ok s' \<and> \<not> pending s'"
proof -
  obtain s' where s': "run_received received ms s = Ok s'"
    and c: "pending s' \<Longrightarrow>
       answers s' = answers s + length (filter (\<lambda>m. \<not> is_ignored m) ms) \<and>
       ignores s' = ignores s + length (filter is_ignored ms) \<and>
       (filter (\<lambda>m. \<not> is_ignored m) ms \<noteq> [] \<longrightarrow> answers s' < quorum s) \<and>
       (filter is_ignored ms \<noteq> [] \<longrightarrow> ignores s' < quorum s)"
    using run_counts [of ms s] assms(1,2) by blast
  have "\<not> pending s'"
  proof
    assume "pending s'"
    with c assms(3) show False
      by (cases "filter (\<lambda>m. \<not> is_ignored m) ms"; cases "filter is_ignored ms") auto
  qed
  with s' show ?thesis
    by blast
qed

end

text \<open>The responses that replicas send to a request, as the handlers expect them.\<close>

definition explicit_expected :: "ExplicitPromiseProcess \<Rightarrow> PromiseResponse \<Rightarrow> bool" where
  "explicit_expected s m \<longleftrightarrow>
     pr_type m = Some IGNORED \<or> isRejectedPromise m \<or>
     pr_proposal m = ep_proposal s \<and>
     (case pr_action m of
        Some a \<Rightarrow> position a = ep_position s
      | None \<Rightarrow> pr_position m = Some (ep_position s))"

definition implicit_expected :: "ImplicitPromiseProcess \<Rightarrow> PromiseResponse \<Rightarrow> bool" where
  "implicit_expected s m \<longleftrightarrow>
     pr_type m = Some IGNORED \<or> isRejectedPromise m \<or> pr_position m \<noteq> None"

definition write_expected :: "WriteProcess \<Rightarrow> WriteResponse \<Rightarrow> bool" where
  "write_expected s m \<longleftrightarrow> wr_position m = position (wp_action s)"

lemma explicit_ack_ok:
  assumes "explicit_expected s m" and "pr_type m \<noteq> Some IGNORED" and "\<not> isRejectedPromise m"
  shows "\<exists>s'. explicit_ack m s = Ok s' \<and> ep_quorum s' = ep_quorum s \<and> ep_proposal s' = ep_proposal s \<and>
    ep_position s' = ep_position s \<and> ep_responsesReceived s' = ep_responsesReceived s \<and>
    ep_ignoresReceived s' = ep_ignoresReceived s"
  using assms by (auto simp: explicit_ack_def explicit_expected_def split: option.splits)

lemma explicit_expected_cong:
  "ep_proposal s' = ep_proposal s \<Longrightarrow> ep_position s' = ep_position s \<Longrightarrow>
   explicit_expected s' = explicit_expected s"
  by (auto simp: explicit_expected_def fun_eq_iff split: option.splits)

lemma explicit_finish_simps:
  "ep_quorum (explicit_finish s) = ep_quorum s" "ep_proposal (explicit_finish s) = ep_proposal s"
  "ep_position (explicit_finish s) = ep_position s"
  "ep_responsesReceived (explicit_finish s) = ep_responsesReceived s"
  "ep_ignoresReceived (explicit_finish s) = ep_ignoresReceived s"
  "ep_promise (explicit_finish s) = Pending \<longleftrightarrow>
     ep_promise s = Pending \<and> ep_responsesReceived s < ep_quorum s"
  by (simp_all add: explicit_finish_def)

lemma explicit_received_answer:
  assumes p: "ep_promise s = Pending" and e: "explicit_expected s m" and i: "pr_type m \<noteq> Some IGNORED"
  shows "\<exists>s'. explicit_received m s = Ok s' \<and> ep_quorum s' = ep_quorum s \<and>
      ep_proposal s' = ep_proposal s \<and> ep_position s' = ep_position s \<and>
      (ep_promise s' = Pending \<longrightarrow>
         ep_responsesReceived s' = Suc (ep_responsesReceived s) \<and>
         ep_ignoresReceived s' = ep_ignoresReceived s \<and> ep_responsesReceived s' < ep_quorum s)"
proof -
  define s1 where "s1 = s\<lparr>ep_responsesReceived := Suc (ep_responsesReceived s)\<rparr>"
  have e1: "explicit_expected s1 m"
    using e explicit_expected_cong [of s1 s] by (simp add: s1_def)
  consider "isRejectedPromise m" | "\<not> isRejectedPromise m" "ep_highestNackProposal s \<noteq> None"
    | "\<not> isRejectedPromise m" "ep_highestNackProposal s = None"
    by blast
  then show ?thesis
  proof cases
    case 3
    obtain s2 where "explicit_ack m s1 = Ok s2" "ep_quorum s2 = ep_quorum s"
      "ep_proposal s2 = ep_proposal s" "ep_position s2 = ep_position s"
      "ep_responsesReceived s2 = Suc (ep_responsesReceived s)"
      "ep_ignoresReceived s2 = ep_ignoresReceived s"
      using explicit_ack_ok [OF e1 i 3(1)] by (auto simp: s1_def)
    then show ?thesis
      using 3 p i by (cases "ep_promise s2 = Pending")
        (simp_all add: explicit_received_def s1_def explicit_finish_simps)
  qed (use p i in \<open>simp_all add: explicit_received_def explicit_finish_simps Let_def\<close>)
qed

interpretation ep: quorum_collector explicit_received "\<lambda>s. ep_promise s = Pending" ep_quorum
  ep_responsesReceived ep_ignoresReceived "\<lambda>m. pr_type m = Some IGNORED" explicit_expected "\<lambda>_. True"
proof
  fix s :: ExplicitPromiseProcess and m
  assume p: "ep_promise s = Pending" and e: "explicit_expected s m"
  show "\<exists>s'. explicit_received m s = Ok s' \<and> ep_quorum s' = ep_quorum s \<and>
      explicit_expected s' = explicit_expected s \<and> True \<and>
      (ep_promise s' = Pending \<longrightarrow>
         ep_responsesReceived s' = ep_responsesReceived s + (if pr_type m = Some IGNORED then 0 else 1) \<and>
         ep_ignoresReceived s' = ep_ignoresReceived s + (if pr_type m = Some IGNORED then 1 else 0) \<and>
         (pr_type m = Some IGNORED \<longrightarrow> ep_ignoresReceived s' < ep_quorum s) \<and>
         (pr_type m \<noteq> Some IGNORED \<longrightarrow> ep_responsesReceived s' < ep_quorum s))"
  proof (cases "pr_type m = Some IGNORED")
    case True
    have "explicit_expected (s\<lparr>ep_ignoresReceived := k\<rparr>) = explicit_expected s"
      "explicit_expected (s\<lparr>ep_ignoresReceived := k, ep_promise := r\<rparr>) = explicit_expected s" for k r
      by (rule explicit_expected_cong; simp)+
    with True p show ?thesis
      by (cases "ep_quorum s \<le> Suc (ep_ignoresReceived s)")
        (simp_all add: explicit_received_def Let_def)
  next
    case False
    from explicit_received_answer [OF p e this] obtain s' where s': "explicit_received m s = Ok s'"
      "ep_quorum s' = ep_quorum s" "ep_proposal s' = ep_proposal s" "ep_position s' = ep_position s"
      and c: "ep_promise s' = Pending \<Longrightarrow> ep_responsesReceived s' = Suc (ep_responsesReceived s) \<and>
         ep_ignoresReceived s' = ep_ignoresReceived s \<and> ep_responsesReceived s' < ep_quorum s"
      by blast
    have "explicit_expected s' = explicit_expected s"
      by (rule explicit_expected_cong [OF s'(3,4)])
    with s' c False show ?thesis
      by auto
  qed
qed (simp add: explicit_received_def)

interpretation wp: quorum_collector write_received "\<lambda>s. wp_promise s = Pending" wp_quorum
  wp_responsesReceived wp_ignoresReceived "\<lambda>m. wr_type m = Some IGNORED" write_expected "\<lambda>_. True"
proof
  fix s :: WriteProcess and m
  assume "wp_promise s = Pending" and "write_expected s m"
  then show "\<exists>s'. write_received m s = Ok s' \<and> wp_quorum s' = wp_quorum s \<and>
      write_expected s' = write_expected s \<and> True \<and>
      (wp_promise s' = Pending \<longrightarrow>
         wp_responsesReceived s' = wp_responsesReceived s + (if wr_type m = Some IGNORED then 0 else 1) \<and>
         wp_ignoresReceived s' = wp_ignoresReceived s + (if wr_type m = Some IGNORED then 1 else 0) \<and>
         (wr_type m = Some IGNORED \<longrightarrow> wp_ignoresReceived s' < wp_quorum s) \<and>
         (wr_type m \<noteq> Some IGNORED \<longrightarrow> wp_responsesReceived s' < wp_quorum s))"
    by (cases "wr_type m = Some IGNORED"; cases "isRejectedWrite m";
        cases "wp_quorum s \<le> Suc (wp_ignoresReceived s)"; cases "wp_quorum s \<le> Suc (wp_responsesReceived s)")
      (simp_all add: write_received_def write_expected_def [abs_def] write_finish_def Let_def)
qed (simp add: write_received_def)

text \<open>
  The collector of implicit promises checks that it has seen an end position; it has whenever a
  response was counted that is no rejection.
\<close>

definition implicit_counted :: "ImplicitPromiseProcess \<Rightarrow> bool" where
  "implicit_counted s \<longleftrightarrow>
     ip_responsesReceived s = 0 \<or> ip_highestNackProposal s \<noteq> None \<or> ip_highestEndPosition s \<noteq> None"

lemma raise_option_Some: "\<exists>y. raise_option h n = Some y"
  by (auto simp: raise_option_def split: option.splits)

lemma implicit_finish_ok:
  assumes "ip_promise s = Pending"
    and "ip_highestNackProposal s \<noteq> None \<or> ip_highestEndPosition s \<noteq> None"
  shows "\<exists>s'. implicit_finish s = Ok s' \<and> ip_quorum s' = ip_quorum s \<and> implicit_counted s' \<and>
      (ip_promise s' = Pending \<longrightarrow> s' = s \<and> ip_responsesReceived s < ip_quorum s)"
  using assms
  by (cases "ip_quorum s \<le> ip_responsesReceived s"; cases "ip_highestNackProposal s"; cases "ip_highestEndPosition s")
    (simp_all add: implicit_finish_def implicit_counted_def)

interpretation ip: quorum_collector implicit_received "\<lambda>s. ip_promise s = Pending" ip_quorum
  ip_responsesReceived ip_ignoresReceived "\<lambda>m. pr_type m = Some IGNORED" implicit_expected implicit_counted
proof
  fix s :: ImplicitPromiseProcess and m
  assume p: "ip_promise s = Pending" and c: "implicit_counted s" and e: "implicit_expected s m"
  show "\<exists>s'. implicit_received m s = Ok s' \<and> ip_quorum s' = ip_quorum s \<and>
      implicit_expected s' = implicit_expected s \<and> implicit_counted s' \<and>
      (ip_promise s' = Pending \<longrightarrow>
         ip_responsesReceived s' = ip_responsesReceived s + (if pr_type m = Some IGNORED then 0 else 1) \<and>
         ip_ignoresReceived s' = ip_ignoresReceived s + (if pr_type m = Some IGNORED then 1 else 0) \<and>
         (pr_type m = Some IGNORED \<longrightarrow> ip_ignoresReceived s' < ip_quorum s) \<and>
         (pr_type m \<noteq> Some IGNORED \<longrightarrow> ip_responsesReceived s' < ip_quorum s))"
  proof (cases "pr_type m = Some IGNORED")
    case True
    with p c show ?thesis
      by (cases "ip_quorum s \<le> Suc (ip_ignoresReceived s)")
        (simp_all add: implicit_received_def implicit_counted_def Let_def implicit_expected_def [abs_def])
  next
    case False
    define s1 where "s1 = (let s = s\<lparr>ip_responsesReceived := ip_responsesReceived s + 1\<rparr> in
      if isRejectedPromise m then s\<lparr>ip_highestNackProposal := raise_option (ip_highestNackProposal s) (pr_proposal m)\<rparr>
      else if ip_highestNackProposal s \<noteq> None then s
      else s\<lparr>ip_highestEndPosition := raise_option (ip_highestEndPosition s) (the (pr_position m))\<rparr>)"
    have run: "implicit_received m s = implicit_finish s1"
      using False p e by (auto simp: implicit_received_def s1_def Let_def implicit_expected_def)
    have s1: "ip_quorum s1 = ip_quorum s" "ip_ignoresReceived s1 = ip_ignoresReceived s"
      "ip_responsesReceived s1 = Suc (ip_responsesReceived s)" "ip_promise s1 = Pending"
      using p by (simp_all add: s1_def Let_def)
    have "ip_highestNackProposal s1 \<noteq> None \<or> ip_highestEndPosition s1 \<noteq> None"
      using raise_option_Some by (simp add: s1_def Let_def)
    from implicit_finish_ok [OF s1(4) this] show ?thesis
      using False s1 unfolding run by (auto simp: implicit_expected_def [abs_def])
  qed
qed (simp add: implicit_received_def)

subsection \<open>What a successful explicit promise means\<close>

definition answered :: "PromiseResponse list \<Rightarrow> PromiseResponse list" where
  "answered ms = filter (\<lambda>m. pr_type m \<noteq> Some IGNORED) ms"

text \<open>
  The answers \<open>A\<close> grant proposal \<open>n\<close> at position \<open>p\<close>, none with a learned action, and \<open>ao\<close> is the
  action with the highest performed proposal among them, if an action was performed at all.
\<close>

definition granted_by :: "u64 \<Rightarrow> u64 \<Rightarrow> PromiseResponse set \<Rightarrow> Action option \<Rightarrow> bool" where
  "granted_by n p A ao \<longleftrightarrow>
     (\<forall>m\<in>A. \<not> isRejectedPromise m \<and> pr_proposal m = n \<and>
        (\<forall>a. pr_action m = Some a \<longrightarrow> position a = p \<and> \<not> is_learned a)) \<and>
     (case ao of
        None \<Rightarrow> \<forall>m\<in>A. \<forall>a. pr_action m = Some a \<longrightarrow> performed a = None
      | Some a \<Rightarrow>
          (\<exists>m\<in>A. pr_action m = Some a) \<and> performed a \<noteq> None \<and>
          (\<forall>m\<in>A. \<forall>b. pr_action m = Some b \<longrightarrow> performed b \<noteq> None \<longrightarrow>
             the (performed b) \<le> the (performed a)))"

definition explicit_inv :: "nat \<Rightarrow> u64 \<Rightarrow> u64 \<Rightarrow> PromiseResponse list \<Rightarrow> ExplicitPromiseProcess \<Rightarrow> bool" where
  "explicit_inv q n p ms s \<longleftrightarrow>
     ep_quorum s = q \<and> ep_proposal s = n \<and> ep_position s = p \<and> ep_promise s = Pending \<and>
     ep_responsesReceived s = length (answered ms) \<and>
     (ep_highestNackProposal s = None \<longrightarrow> granted_by n p (set (answered ms)) (ep_highestAckAction s))"

definition explicit_result :: "nat \<Rightarrow> u64 \<Rightarrow> u64 \<Rightarrow> PromiseResponse list \<Rightarrow> PromiseResponse \<Rightarrow> bool" where
  "explicit_result q n p ms res \<longleftrightarrow>
     res \<in> set ms \<and> pr_proposal res = n \<and>
       (\<exists>a. pr_action res = Some a \<and> is_learned a \<and> position a = p) \<or>
     (\<exists>ms'. prefix ms' ms \<and> q \<le> length (answered ms') \<and>
        granted_by n p (set (answered ms')) (pr_action res))"

lemma answered_snoc [simp]:
  "answered [] = []"
  "answered (ms @ [m]) = (if pr_type m = Some IGNORED then answered ms else answered ms @ [m])"
  by (simp_all add: answered_def)

lemma explicit_result_extend: "explicit_result q n p ms res \<Longrightarrow> explicit_result q n p (ms @ [m]) res"
  by (auto simp: explicit_result_def)

lemma run_received_snoc:
  "run_received h (ms @ [m]) s = bind_outcome (run_received h ms s) (h m)"
proof (induction ms arbitrary: s)
  case Nil
  show ?case
    by (cases "h m s") simp_all
next
  case (Cons k ms)
  then show ?case
    by (cases "h k s") auto
qed

lemma granted_by_ack:
  assumes ack: "explicit_ack m s = Ok s'" and n: "ep_proposal s = n" "ep_position s = p"
    and m: "\<not> isRejectedPromise m" and A: "granted_by n p A (ep_highestAckAction s)"
    and pend: "ep_promise s = Pending" "ep_promise s' = Pending"
  shows "granted_by n p (insert m A) (ep_highestAckAction s')"
proof (cases "pr_action m")
  case None
  then have "s' = s" "pr_proposal m = n"
    using ack n by (auto simp: explicit_ack_def split: if_splits)
  then show ?thesis
    using A m None by (auto simp: granted_by_def split: option.splits)
next
  case (Some a)
  then have a: "position a = p" "\<not> is_learned a" "pr_proposal m = n"
    using ack n pend by (auto simp: explicit_ack_def split: if_splits)
  show ?thesis
  proof (cases "performed a")
    case None
    then have "s' = s"
      using ack Some a n by (auto simp: explicit_ack_def split: if_splits)
    then show ?thesis
      using A m a Some None by (auto simp: granted_by_def split: option.splits)
  next
    case perf: (Some k)
    show ?thesis
    proof (cases "ep_highestAckAction s")
      case None
      then have "ep_highestAckAction s' = Some a"
        using ack Some a n perf by (auto simp: explicit_ack_def split: if_splits)
      then show ?thesis
        using A m a Some perf None by (auto simp: granted_by_def)
    next
      case (Some b)
      then obtain j where j: "performed b = Some j"
        using A by (auto simp: granted_by_def)
      have s': "ep_highestAckAction s' = (if j < k then Some a else Some b)"
        using ack \<open>pr_action m = Some a\<close> a n perf Some j by (auto simp: explicit_ack_def split: if_splits)
      have bA: "\<exists>x\<in>A. pr_action x = Some b"
        and le: "\<forall>x\<in>A. \<forall>c. pr_action x = Some c \<longrightarrow> performed c \<noteq> None \<longrightarrow>
          the (performed c) \<le> the (performed b)"
        and ok: "\<forall>x\<in>A. \<not> isRejectedPromise x \<and> pr_proposal x = n \<and>
          (\<forall>a. pr_action x = Some a \<longrightarrow> position a = p \<and> \<not> is_learned a)"
        using A unfolding Some granted_by_def option.case by blast+
      have ok': "\<forall>x\<in>insert m A. \<not> isRejectedPromise x \<and> pr_proposal x = n \<and>
          (\<forall>a. pr_action x = Some a \<longrightarrow> position a = p \<and> \<not> is_learned a)"
        using ok m a \<open>pr_action m = Some a\<close> by simp
      have bound: "the (performed c) \<le> z"
        if "x \<in> insert m A" "pr_action x = Some c" "performed c \<noteq> None" "j \<le> z" "k \<le> z" for x c z
      proof (cases "x = m")
        case True
        then show ?thesis
          using that \<open>pr_action m = Some a\<close> perf by simp
      next
        case False
        then have "the (performed c) \<le> j"
          using that le j by (metis insertE option.sel)
        then show ?thesis
          using that(4) by (rule order_trans)
      qed
      show ?thesis
      proof (cases "j < k")
        case True
        have "the (performed c) \<le> k" if "x \<in> insert m A" "pr_action x = Some c" "performed c \<noteq> None" for x c
          using bound [OF that less_imp_le [OF True] order_refl] .
        then show ?thesis
          using True ok' \<open>pr_action m = Some a\<close> perf unfolding granted_by_def s' by simp
      next
        case False
        then have "the (performed c) \<le> j" if "x \<in> insert m A" "pr_action x = Some c" "performed c \<noteq> None" for x c
          using bound [OF that order_refl] by (simp add: not_less)
        then show ?thesis
          using False ok' bA j unfolding granted_by_def s' by simp
      qed
    qed
  qed
qed

lemma explicit_ack_same:
  assumes "explicit_ack m s = Ok s'"
  shows "ep_quorum s' = ep_quorum s \<and> ep_proposal s' = ep_proposal s \<and> ep_position s' = ep_position s \<and>
    ep_responsesReceived s' = ep_responsesReceived s \<and>
    ep_highestNackProposal s' = ep_highestNackProposal s \<and>
    (ep_promise s' \<noteq> ep_promise s \<longrightarrow> ep_promise s' = Ready m \<and> pr_proposal m = ep_proposal s \<and>
       (\<exists>a. pr_action m = Some a \<and> is_learned a \<and> position a = ep_position s))"
  using assms by (auto simp: explicit_ack_def split: if_splits option.splits)

lemma explicit_finish_cases:
  assumes "ep_promise s = Pending"
  shows "ep_promise (explicit_finish s) = Pending \<and> explicit_finish s = s \<or>
    (\<exists>res. ep_promise (explicit_finish s) = Ready res \<and> ep_quorum s \<le> ep_responsesReceived s \<and>
       (pr_okay res \<longrightarrow> ep_highestNackProposal s = None \<and> pr_action res = ep_highestAckAction s))"
  using assms by (auto simp: explicit_finish_def promise_result_def split: option.splits)

definition explicit_run :: "nat \<Rightarrow> u64 \<Rightarrow> u64 \<Rightarrow> PromiseResponse list \<Rightarrow> ExplicitPromiseProcess \<Rightarrow> bool" where
  "explicit_run q n p ms s \<longleftrightarrow>
     explicit_inv q n p ms s \<or>
     (\<exists>res. ep_promise s = Ready res \<and> (pr_okay res \<longrightarrow> explicit_result q n p ms res))"

lemma explicit_run_finish:
  assumes "ep_promise s = Pending" "ep_quorum s = q" "ep_proposal s = n" "ep_position s = p"
    and "ep_responsesReceived s = length (answered ms)"
    and "ep_highestNackProposal s = None \<Longrightarrow> granted_by n p (set (answered ms)) (ep_highestAckAction s)"
  shows "explicit_run q n p ms (explicit_finish s)"
proof -
  have "explicit_inv q n p ms s"
    using assms by (simp add: explicit_inv_def)
  moreover have "explicit_result q n p ms res"
    if "ep_quorum s \<le> ep_responsesReceived s" "ep_highestNackProposal s = None"
      "pr_action res = ep_highestAckAction s" for res
    using assms that by (auto simp: explicit_result_def)
  ultimately show ?thesis
    using explicit_finish_cases [OF assms(1)] unfolding explicit_run_def by metis
qed

lemma explicit_received_step:
  assumes inv: "explicit_inv q n p ms s" and rec: "explicit_received m s = Ok s'"
  shows "explicit_run q n p (ms @ [m]) s'"
proof (cases "pr_type m = Some IGNORED")
  case True
  then show ?thesis
    using inv rec
    by (auto simp: explicit_received_def explicit_run_def explicit_inv_def Let_def promise_result_def
        split: if_splits)
next
  case False
  define s1 where "s1 = s\<lparr>ep_responsesReceived := ep_responsesReceived s + 1\<rparr>"
  have s1: "ep_promise s1 = Pending" "ep_quorum s1 = q" "ep_proposal s1 = n" "ep_position s1 = p"
    "ep_responsesReceived s1 = length (answered (ms @ [m]))"
    "ep_highestNackProposal s1 = ep_highestNackProposal s" "ep_highestAckAction s1 = ep_highestAckAction s"
    using inv False by (simp_all add: explicit_inv_def s1_def)
  consider (nack) "isRejectedPromise m" | (skip) "\<not> isRejectedPromise m" "ep_highestNackProposal s \<noteq> None"
    | (ack) "\<not> isRejectedPromise m" "ep_highestNackProposal s = None"
    by blast
  then show ?thesis
  proof cases
    case nack
    obtain k where k: "raise_option (ep_highestNackProposal s1) (pr_proposal m) = Some k"
      using raise_option_Some by blast
    have "s' = explicit_finish (s1\<lparr>ep_highestNackProposal := Some k\<rparr>)"
      using nack rec False inv k by (simp add: explicit_received_def explicit_inv_def s1_def Let_def)
    moreover have "explicit_run q n p (ms @ [m]) (explicit_finish (s1\<lparr>ep_highestNackProposal := Some k\<rparr>))"
      by (rule explicit_run_finish) (use s1 in simp_all)
    ultimately show ?thesis
      by simp
  next
    case skip
    then have "s' = explicit_finish s1"
      using rec False inv by (simp add: explicit_received_def explicit_inv_def s1_def Let_def)
    then show ?thesis
      using explicit_run_finish [OF s1(1-5)] s1(6) skip by simp
  next
    case ack
    then obtain s2 where s2: "explicit_ack m s1 = Ok s2"
      and s': "s' = (if ep_promise s2 \<noteq> Pending then s2 else explicit_finish s2)"
      using rec False inv
      by (cases "explicit_ack m s1")
        (auto simp: explicit_received_def explicit_inv_def s1_def Let_def split: if_splits)
    note same = explicit_ack_same [OF s2]
    show ?thesis
    proof (cases "ep_promise s2 = Pending")
      case True
      have "granted_by n p (set (answered ms)) (ep_highestAckAction s1)"
        using inv ack by (simp add: explicit_inv_def s1)
      from granted_by_ack [OF s2 s1(3,4) ack(1) this s1(1) True]
      have g: "granted_by n p (set (answered (ms @ [m]))) (ep_highestAckAction s2)"
        using False by (simp add: insert_commute)
      have "explicit_run q n p (ms @ [m]) (explicit_finish s2)"
        by (rule explicit_run_finish) (use True same s1 g in simp_all)
      then show ?thesis
        using s' True by simp
    next
      case fin: False
      then have "ep_promise s' = Ready m" "explicit_result q n p (ms @ [m]) m"
        using s' same s1 by (auto simp: explicit_result_def)
      then show ?thesis
        by (simp add: explicit_run_def)
    qed
  qed
qed

lemma explicit_run_all:
  assumes "run_received explicit_received ms (new_ExplicitPromiseProcess q n p) = Ok s"
  shows "explicit_run q n p ms s"
  using assms
proof (induction ms arbitrary: s rule: rev_induct)
  case Nil
  then have "explicit_inv q n p [] s"
    by (auto simp: new_ExplicitPromiseProcess_def explicit_inv_def granted_by_def)
  then show ?case
    by (simp add: explicit_run_def)
next
  case (snoc m ms)
  then obtain s1 where s1: "run_received explicit_received ms (new_ExplicitPromiseProcess q n p) = Ok s1"
    and m: "explicit_received m s1 = Ok s"
    by (cases "run_received explicit_received ms (new_ExplicitPromiseProcess q n p)")
      (auto simp: run_received_snoc)
  from snoc.IH [OF s1] show ?case
    unfolding explicit_run_def [of _ _ _ _ s1]
  proof (elim disjE exE conjE)
    assume "explicit_inv q n p ms s1"
    then show ?thesis
      using m by (rule explicit_received_step)
  next
    fix res
    assume "ep_promise s1 = Ready res" "pr_okay res \<longrightarrow> explicit_result q n p ms res"
    then show ?thesis
      using m explicit_result_extend by (auto simp: explicit_run_def explicit_received_def)
  qed
qed

subsection \<open>What successful implicit promises and writes mean\<close>

definition implicit_inv :: "nat \<Rightarrow> PromiseResponse list \<Rightarrow> ImplicitPromiseProcess \<Rightarrow> bool" where
  "implicit_inv q ms s \<longleftrightarrow>
     ip_quorum s = q \<and> ip_promise s = Pending \<and> ip_responsesReceived s = length (answered ms) \<and>
     (ip_highestNackProposal s = None \<longrightarrow>
        (\<forall>m\<in>set (answered ms). \<not> isRejectedPromise m \<and>
           (\<exists>e h. pr_position m = Some e \<and> ip_highestEndPosition s = Some h \<and> e \<le> h)) \<and>
        (\<forall>h. ip_highestEndPosition s = Some h \<longrightarrow> (\<exists>m\<in>set (answered ms). pr_position m = Some h)))"

definition implicit_result :: "nat \<Rightarrow> PromiseResponse list \<Rightarrow> PromiseResponse \<Rightarrow> bool" where
  "implicit_result q ms res \<longleftrightarrow>
     (\<exists>ms' h. prefix ms' ms \<and> q \<le> length (answered ms') \<and> pr_position res = Some h \<and>
        (\<exists>m\<in>set (answered ms'). pr_position m = Some h) \<and>
        (\<forall>m\<in>set (answered ms'). \<not> isRejectedPromise m \<and> (\<exists>e. pr_position m = Some e \<and> e \<le> h)))"

definition implicit_run :: "nat \<Rightarrow> PromiseResponse list \<Rightarrow> ImplicitPromiseProcess \<Rightarrow> bool" where
  "implicit_run q ms s \<longleftrightarrow>
     implicit_inv q ms s \<or>
     (\<exists>res. ip_promise s = Ready res \<and> (pr_okay res \<longrightarrow> implicit_result q ms res))"

lemma raise_option_upper:
  "raise_option h n = Some y \<Longrightarrow> n \<le> y" "raise_option (Some x) n = Some y \<Longrightarrow> x \<le> y"
  "raise_option h n = Some y \<Longrightarrow> y = n \<or> h = Some y"
  by (auto simp: raise_option_def not_less split: option.splits if_splits)

lemma implicit_run_finish:
  assumes "implicit_inv q ms s" and "implicit_finish s = Ok s'"
  shows "implicit_run q ms s'"
proof (cases "ip_quorum s \<le> ip_responsesReceived s")
  case False
  then show ?thesis
    using assms by (simp add: implicit_finish_def implicit_run_def)
next
  case True
  then have q: "q \<le> length (answered ms)"
    using assms(1) by (simp add: implicit_inv_def)
  show ?thesis
  proof (cases "ip_highestNackProposal s")
    case None
    then obtain h where h: "ip_highestEndPosition s = Some h"
      and s': "s' = s\<lparr>ip_promise := Ready (promise_result ACCEPT True 0 (Some h) None)\<rparr>"
      using assms(2) True by (auto simp: implicit_finish_def split: option.splits)
    have "(\<exists>m\<in>set (answered ms). pr_position m = Some h) \<and>
        (\<forall>m\<in>set (answered ms). \<not> isRejectedPromise m \<and> (\<exists>e. pr_position m = Some e \<and> e \<le> h))"
      using assms(1) None h by (simp add: implicit_inv_def)
    then have "implicit_result q ms (promise_result ACCEPT True 0 (Some h) None)"
      unfolding implicit_result_def promise_result_def using q prefix_order.order_refl by fastforce
    then show ?thesis
      by (simp add: implicit_run_def s')
  next
    case (Some k)
    then show ?thesis
      using assms(2) True by (auto simp: implicit_finish_def implicit_run_def promise_result_def)
  qed
qed

lemma implicit_received_step:
  assumes inv: "implicit_inv q ms s" and rec: "implicit_received m s = Ok s'"
  shows "implicit_run q (ms @ [m]) s'"
proof (cases "pr_type m = Some IGNORED")
  case True
  then show ?thesis
    using inv rec
    by (auto simp: implicit_received_def implicit_run_def implicit_inv_def Let_def promise_result_def
        split: if_splits)
next
  case False
  consider (nack) "isRejectedPromise m" | (skip) "\<not> isRejectedPromise m" "ip_highestNackProposal s \<noteq> None"
    | (ack) "\<not> isRejectedPromise m" "ip_highestNackProposal s = None"
    by blast
  then show ?thesis
  proof cases
    case nack
    obtain k where k: "raise_option (ip_highestNackProposal s) (pr_proposal m) = Some k"
      using raise_option_Some by blast
    have "implicit_inv q (ms @ [m])
        (s\<lparr>ip_responsesReceived := ip_responsesReceived s + 1, ip_highestNackProposal := Some k\<rparr>)"
      using inv False by (simp add: implicit_inv_def)
    then show ?thesis
      by (rule implicit_run_finish) (use rec nack False inv k in \<open>simp add: implicit_received_def implicit_inv_def\<close>)
  next
    case skip
    have "implicit_inv q (ms @ [m]) (s\<lparr>ip_responsesReceived := ip_responsesReceived s + 1\<rparr>)"
      using inv False skip by (auto simp: implicit_inv_def)
    then show ?thesis
      by (rule implicit_run_finish) (use rec skip False inv in \<open>simp add: implicit_received_def implicit_inv_def\<close>)
  next
    case ack
    then obtain e where e: "pr_position m = Some e"
      using rec False inv by (cases "pr_position m") (simp_all add: implicit_received_def implicit_inv_def)
    obtain h where h: "raise_option (ip_highestEndPosition s) e = Some h"
      using raise_option_Some by blast
    have old: "\<not> isRejectedPromise x \<and> (\<exists>e g. pr_position x = Some e \<and> ip_highestEndPosition s = Some g \<and> e \<le> g)"
      if "x \<in> set (answered ms)" for x
      using inv ack(2) that by (simp add: implicit_inv_def)
    have old': "\<exists>m\<in>set (answered ms). pr_position m = Some g" if "ip_highestEndPosition s = Some g" for g
      using inv ack(2) that by (simp add: implicit_inv_def)
    have new: "\<not> isRejectedPromise x \<and> (\<exists>e. pr_position x = Some e \<and> e \<le> h)" if "x \<in> set (answered ms)" for x
    proof -
      note x = that
      obtain e' g where g: "\<not> isRejectedPromise x" "pr_position x = Some e'" "e' \<le> g"
        "ip_highestEndPosition s = Some g"
        using old [OF x] by blast
      then have "g \<le> h"
        using h raise_option_upper(2) by simp
      with g show ?thesis
        using order_trans by blast
    qed
    have "\<exists>x\<in>insert m (set (answered ms)). pr_position x = Some h"
      using raise_option_upper(3) [OF h] old' e by auto
    then have "implicit_inv q (ms @ [m])
        (s\<lparr>ip_responsesReceived := ip_responsesReceived s + 1, ip_highestEndPosition := Some h\<rparr>)"
      using inv False ack e new raise_option_upper(1) [OF h] by (simp add: implicit_inv_def)
    then show ?thesis
      by (rule implicit_run_finish) (use rec ack False inv e h in \<open>simp add: implicit_received_def implicit_inv_def\<close>)
  qed
qed

lemma implicit_run_all:
  assumes "run_received implicit_received ms (new_ImplicitPromiseProcess q n) = Ok s"
  shows "implicit_run q ms s"
  using assms
proof (induction ms arbitrary: s rule: rev_induct)
  case Nil
  then show ?case
    by (auto simp: new_ImplicitPromiseProcess_def implicit_run_def implicit_inv_def)
next
  case (snoc m ms)
  then obtain s1 where s1: "run_received implicit_received ms (new_ImplicitPromiseProcess q n) = Ok s1"
    and m: "implicit_received m s1 = Ok s"
    by (cases "run_received implicit_received ms (new_ImplicitPromiseProcess q n)")
      (auto simp: run_received_snoc)
  have extend: "implicit_result q ms res \<Longrightarrow> implicit_result q (ms @ [m]) res" for res
    unfolding implicit_result_def by (meson prefix_order.order_trans prefixI)
  from snoc.IH [OF s1] show ?case
    unfolding implicit_run_def [of _ _ s1]
  proof (elim disjE exE conjE)
    assume "implicit_inv q ms s1"
    then show ?thesis
      using m by (rule implicit_received_step)
  next
    fix res
    assume "ip_promise s1 = Ready res" "pr_okay res \<longrightarrow> implicit_result q ms res"
    then show ?thesis
      using m extend by (auto simp: implicit_run_def implicit_received_def)
  qed
qed

definition write_inv :: "nat \<Rightarrow> WriteResponse list \<Rightarrow> WriteProcess \<Rightarrow> bool" where
  "write_inv q ms s \<longleftrightarrow>
     wp_quorum s = q \<and> wp_promise s = Pending \<and>
     wp_responsesReceived s = length (filter (\<lambda>m. wr_type m \<noteq> Some IGNORED) ms) \<and>
     (wp_highestNackProposal s = None \<longrightarrow>
        (\<forall>m\<in>set ms. wr_type m \<noteq> Some IGNORED \<longrightarrow> \<not> isRejectedWrite m))"

definition write_quorum :: "nat \<Rightarrow> WriteResponse list \<Rightarrow> bool" where
  "write_quorum q ms \<longleftrightarrow>
     (\<exists>ms'. prefix ms' ms \<and> q \<le> length (filter (\<lambda>m. wr_type m \<noteq> Some IGNORED) ms') \<and>
        (\<forall>m\<in>set ms'. wr_type m \<noteq> Some IGNORED \<longrightarrow> \<not> isRejectedWrite m))"

definition write_run :: "nat \<Rightarrow> WriteResponse list \<Rightarrow> WriteProcess \<Rightarrow> bool" where
  "write_run q ms s \<longleftrightarrow>
     write_inv q ms s \<or> (\<exists>res. wp_promise s = Ready res \<and> (wr_okay res \<longrightarrow> write_quorum q ms))"

lemma write_quorum_extend: "write_quorum q ms \<Longrightarrow> write_quorum q (ms @ [m])"
  unfolding write_quorum_def by (meson prefix_order.order_trans prefixI)

lemma write_run_finish:
  assumes "write_inv q ms s"
  shows "write_run q ms (write_finish s)"
proof (cases "wp_quorum s \<le> wp_responsesReceived s")
  case True
  show ?thesis
  proof (cases "wp_highestNackProposal s")
    case None
    then have "write_quorum q ms"
      using assms True unfolding write_inv_def write_quorum_def by (intro exI [of _ ms]) simp
    then show ?thesis
      using True None by (simp add: write_run_def write_finish_def)
  qed (use True in \<open>simp add: write_run_def write_finish_def write_result_def\<close>)
qed (use assms in \<open>simp add: write_run_def write_finish_def\<close>)

lemma write_received_step:
  assumes inv: "write_inv q ms s" and rec: "write_received m s = Ok s'"
  shows "write_run q (ms @ [m]) s'"
proof -
  consider (ignored) "wr_type m = Some IGNORED" | (nack) "wr_type m \<noteq> Some IGNORED" "isRejectedWrite m"
    | (ack) "wr_type m \<noteq> Some IGNORED" "\<not> isRejectedWrite m"
    by blast
  then show ?thesis
  proof cases
    case ignored
    then show ?thesis
      using inv rec
      by (auto simp: write_received_def write_run_def write_inv_def Let_def write_result_def split: if_splits)
  next
    case nack
    obtain k where k: "raise_option (wp_highestNackProposal s) (wr_proposal m) = Some k"
      using raise_option_Some by blast
    have "write_inv q (ms @ [m])
        (s\<lparr>wp_responsesReceived := wp_responsesReceived s + 1, wp_highestNackProposal := Some k\<rparr>)"
      using inv nack by (simp add: write_inv_def)
    from write_run_finish [OF this] show ?thesis
      using rec nack inv k by (simp add: write_received_def write_inv_def split: if_splits)
  next
    case ack
    have "write_inv q (ms @ [m]) (s\<lparr>wp_responsesReceived := wp_responsesReceived s + 1\<rparr>)"
      using inv ack by (auto simp: write_inv_def)
    from write_run_finish [OF this] show ?thesis
      using rec ack inv by (simp add: write_received_def write_inv_def split: if_splits)
  qed
qed

lemma write_run_all:
  assumes "run_received write_received ms (new_WriteProcess q n a) = Ok s"
  shows "write_run q ms s"
  using assms
proof (induction ms arbitrary: s rule: rev_induct)
  case Nil
  then show ?case
    by (auto simp: new_WriteProcess_def write_run_def write_inv_def)
next
  case (snoc m ms)
  then obtain s1 where s1: "run_received write_received ms (new_WriteProcess q n a) = Ok s1"
    and m: "write_received m s1 = Ok s"
    by (cases "run_received write_received ms (new_WriteProcess q n a)") (auto simp: run_received_snoc)
  from snoc.IH [OF s1] show ?case
    unfolding write_run_def [of _ _ s1]
  proof (elim disjE exE conjE)
    assume "write_inv q ms s1"
    then show ?thesis
      using m by (rule write_received_step)
  next
    fix res
    assume "wp_promise s1 = Ready res" "wr_okay res \<longrightarrow> write_quorum q ms"
    then show ?thesis
      using m write_quorum_extend by (auto simp: write_run_def write_received_def)
  qed
qed

lemma write_ignored_run:
  assumes "wp_promise s = Pending \<or> wp_promise s = Ready (write_result IGNORED False 0)"
    and "\<And>m. m \<in> set ms \<Longrightarrow> wr_type m = Some IGNORED"
    and "run_received write_received ms s = Ok s'"
  shows "wp_promise s' = Pending \<or> wp_promise s' = Ready (write_result IGNORED False 0)"
  using assms
proof (induction ms arbitrary: s)
  case (Cons m ms)
  obtain s1 where s1: "write_received m s = Ok s1" "run_received write_received ms s1 = Ok s'"
    using Cons.prems(3) by (cases "write_received m s") auto
  moreover have "wp_promise s1 = Pending \<or> wp_promise s1 = Ready (write_result IGNORED False 0)"
    using Cons.prems(1,2) s1(1) by (auto simp: write_received_def Let_def split: if_splits)
  ultimately show ?case
    using Cons by auto
qed auto

subsection \<open>Properties\<close>

text \<open>
  Property C12. An explicit promise phase that succeeds returns a learned action of a response, or a
  quorum answered, every answer granted the proposal, and the action returned is the one performed
  with the highest proposal among them (none, if no answer carries a performed action).
\<close>

theorem explicit_promise_result:
  assumes "run_received explicit_received ms (new_ExplicitPromiseProcess q n p) = Ok s"
    and "ep_promise s = Ready res" and "pr_okay res"
  shows "explicit_result q n p ms res"
  using explicit_run_all [OF assms(1)] assms(2,3) by (auto simp: explicit_run_def explicit_inv_def)

definition sample_vote :: "u64 \<Rightarrow> u64 \<Rightarrow> Action" where
  "sample_vote n k =
     (new_action 7 n)\<lparr>performed := Some k, action_type := Some NOP, action_nop := Some \<lparr>tombstone = None\<rparr>\<rparr>"

definition sample_promises :: "PromiseResponse list" where
  "sample_promises =
     [promise_result ACCEPT True 5 None (Some (sample_vote 2 2)),
      promise_result IGNORED False 5 None None,
      promise_result ACCEPT True 5 None (Some (sample_vote 3 3))]"

lemma sample_promises_run:
  "\<exists>s. run_received explicit_received sample_promises (new_ExplicitPromiseProcess 2 5 7) = Ok s \<and>
     ep_promise s = Ready (promise_result ACCEPT True 0 None (Some (sample_vote 3 3)))"
  by (simp add: sample_promises_def new_ExplicitPromiseProcess_def explicit_received_def explicit_ack_def
      explicit_finish_def promise_result_def isRejectedPromise_def sample_vote_def is_learned_def Let_def
      word_less_nat_alt)

theorem explicit_promise_result_witness:
  "explicit_result 2 5 7 sample_promises (promise_result ACCEPT True 0 None (Some (sample_vote 3 3)))"
proof -
  obtain s where "run_received explicit_received sample_promises (new_ExplicitPromiseProcess 2 5 7) = Ok s"
    "ep_promise s = Ready (promise_result ACCEPT True 0 None (Some (sample_vote 3 3)))"
    using sample_promises_run by blast
  from explicit_promise_result [OF this] show ?thesis
    by (simp add: promise_result_def)
qed

text \<open>
  An implicit promise phase that succeeds has a quorum of answers, none a rejection, and
  returns the largest end position among them.
\<close>

theorem implicit_promise_result:
  assumes "run_received implicit_received ms (new_ImplicitPromiseProcess q n) = Ok s"
    and "ip_promise s = Ready res" and "pr_okay res"
  shows "implicit_result q ms res"
  using implicit_run_all [OF assms(1)] assms(2,3) by (auto simp: implicit_run_def implicit_inv_def)

definition sample_ends :: "PromiseResponse list" where
  "sample_ends =
     [promise_result ACCEPT True 5 (Some 3) None, promise_result ACCEPT True 5 (Some 9) None]"

theorem implicit_promise_result_witness:
  "implicit_result 2 sample_ends (promise_result ACCEPT True 0 (Some 9) None)"
proof -
  obtain s where "run_received implicit_received sample_ends (new_ImplicitPromiseProcess 2 5) = Ok s"
    "ip_promise s = Ready (promise_result ACCEPT True 0 (Some 9) None)"
    by (simp add: sample_ends_def new_ImplicitPromiseProcess_def implicit_received_def raise_option_def
        implicit_finish_def promise_result_def isRejectedPromise_def Let_def word_less_nat_alt)
  from implicit_promise_result [OF this] show ?thesis
    by (simp add: promise_result_def)
qed

text \<open>
  A write phase that succeeds was answered by a quorum, and none of those answers is a
  rejection.
\<close>

theorem write_result_quorum:
  assumes "run_received write_received ms (new_WriteProcess q n a) = Ok s"
    and "wp_promise s = Ready res" and "wr_okay res"
  shows "write_quorum q ms"
  using write_run_all [OF assms(1)] assms(2,3) by (auto simp: write_run_def write_inv_def)

definition sample_acks :: "WriteResponse list" where
  "sample_acks =
     [\<lparr>wr_okay = True, wr_type = Some ACCEPT, wr_proposal = 5, wr_position = 7\<rparr>,
      \<lparr>wr_okay = True, wr_type = Some ACCEPT, wr_proposal = 5, wr_position = 7\<rparr>]"

theorem write_result_quorum_witness: "write_quorum 2 sample_acks"
proof -
  obtain s where "run_received write_received sample_acks (new_WriteProcess 2 5 (sample_vote 2 2)) = Ok s"
    "wp_promise s = Ready (write_result ACCEPT True 0)"
    by (simp add: sample_acks_def new_WriteProcess_def write_received_def write_finish_def sample_vote_def
        isRejectedWrite_def Let_def)
  from write_result_quorum [OF this] show ?thesis
    by (simp add: write_result_def)
qed

text \<open>
  The phases do not hang and do not abort: once a quorum of well-formed responses has
  answered, or has ignored the request, the explicit promise phase has its result.
\<close>

theorem explicit_promise_completes:
  assumes "\<And>m. m \<in> set ms \<Longrightarrow> explicit_expected (new_ExplicitPromiseProcess q n p) m" and "0 < q"
    and "q \<le> length (answered ms) \<or> q \<le> length (filter (\<lambda>m. pr_type m = Some IGNORED) ms)"
  shows "\<exists>s. run_received explicit_received ms (new_ExplicitPromiseProcess q n p) = Ok s \<and>
    ep_promise s \<noteq> Pending"
  using assms
  by (intro ep.run_completes) (auto simp: new_ExplicitPromiseProcess_def answered_def)

theorem explicit_promise_completes_witness:
  "\<exists>s. run_received explicit_received sample_promises (new_ExplicitPromiseProcess 2 5 7) = Ok s \<and>
     ep_promise s \<noteq> Pending"
  by (rule explicit_promise_completes)
    (auto simp: sample_promises_def explicit_expected_def promise_result_def new_ExplicitPromiseProcess_def
      sample_vote_def answered_def)

text \<open>
  Property C13. The value of a fill is safe: after a successful promise phase that returned an action
  that was not learned, the fill writes that action's value; when none was performed it writes a
  no-op; a learned action is learned again, with its value. Proposal and position are the fill's own.
\<close>

theorem fill_writes_highest:
  assumes "pr_okay m"
    and "\<And>a. pr_action m = Some a \<Longrightarrow> position a = fp_position s \<and> action_type a \<noteq> None"
  shows "\<exists>s' b. checkPromisePhase (Ready m) s = Ok s' \<and>
    fp_phase s' = (if is_learned b then Learning b else Writing b) \<and>
    fp_proposal s' = fp_proposal s \<and>
    position b = fp_position s \<and> promised b = fp_proposal s \<and> performed b = Some (fp_proposal s) \<and>
    (case pr_action m of
       None \<Rightarrow> action_value b = Some VNop \<and> \<not> is_learned b
     | Some a \<Rightarrow> action_value b = action_value a \<and> is_learned b = is_learned a)"
proof (cases "pr_action m")
  case None
  then show ?thesis
    using assms
    by (intro exI [of _ "s\<lparr>fp_phase := Writing (nop_action (fp_position s) (fp_proposal s))\<rparr>"]
        exI [of _ "nop_action (fp_position s) (fp_proposal s)"])
      (simp add: checkPromisePhase_def runWritePhase_def nop_action_def is_learned_def action_value_def)
next
  case (Some a)
  define b where "b = a\<lparr>promised := fp_proposal s, performed := Some (fp_proposal s)\<rparr>"
  have b: "action_value b = action_value a" "is_learned b = is_learned a" "position b = position a"
    "promised b = fp_proposal s" "performed b = Some (fp_proposal s)"
    by (simp_all add: b_def action_value_def is_learned_def split: option.splits ActionType.splits)
  have "checkPromisePhase (Ready m) s =
      Ok (s\<lparr>fp_phase := (if is_learned b then Learning b else Writing b)\<rparr>)"
    using Some assms b(2)
    by (simp add: checkPromisePhase_def runWritePhase_def runLearnPhase_def b_def [symmetric])
  then show ?thesis
    using Some assms b
    by (intro exI [of _ "s\<lparr>fp_phase := (if is_learned b then Learning b else Writing b)\<rparr>"] exI [of _ b])
      simp
qed

theorem fill_writes_highest_witness:
  "\<exists>s'. checkPromisePhase (Ready (promise_result ACCEPT True 0 None (Some (sample_vote 3 3))))
     (new_FillProcess 2 5 7) = Ok s' \<and> fp_proposal s' = 5"
  using fill_writes_highest [of "promise_result ACCEPT True 0 None (Some (sample_vote 3 3))"
      "new_FillProcess 2 5 7"]
  by (auto simp: promise_result_def sample_vote_def new_FillProcess_def)

lemma explicit_ignored_run:
  assumes "ep_promise s = Pending" and "\<And>m. m \<in> set ms \<Longrightarrow> pr_type m = Some IGNORED"
    and "run_received explicit_received ms s = Ok s'"
  shows "ep_promise s' = Pending \<or> ep_promise s' = Ready (promise_result IGNORED False 0 None None)"
proof -
  have "run_received explicit_received ms s = Ok s' \<Longrightarrow>
      ep_promise s = Pending \<or> ep_promise s = Ready (promise_result IGNORED False 0 None None) \<Longrightarrow>
      ep_promise s' = Pending \<or> ep_promise s' = Ready (promise_result IGNORED False 0 None None)"
    using assms(2)
  proof (induction ms arbitrary: s)
    case (Cons m ms)
    have "\<exists>s1. explicit_received m s = Ok s1 \<and>
        (ep_promise s1 = Pending \<or> ep_promise s1 = Ready (promise_result IGNORED False 0 None None))"
      using Cons.prems(2,3) by (auto simp: explicit_received_def Let_def)
    then show ?case
      using Cons by auto
  qed auto
  then show ?thesis
    using assms(1,3) by blast
qed



end
