(* ===== verification/Log_Coordinator.thy ===== *)
theory Log_Coordinator
  imports Log_Consensus
begin

section \<open>The coordinator\<close>

text \<open>
  \<open>CoordinatorProcess\<close> of \<open>src/log/coordinator.cpp\<close>: the proposer that is elected once and then
  appends to the log. The chains of futures that \<open>elect\<close> and \<open>write\<close> build are a state machine: the
  field \<open>stage\<close> is the future that the chain waits for, and each continuation of the chain is a
  definition. \<open>coord_step\<close> runs the continuations in the order of the chains; a result that the
  chain does not wait for does not reach it.
\<close>

datatype CoordState = INITIAL | ELECTING | ELECTED | WRITING

datatype Stage =
    Idle
  | LastProposal
  | PromisePhase
  | CatchUp
  | WritePhase Action
  | LearnPhase Action

record Coordinator =
  co_quorum :: nat
  co_state :: CoordState
  co_proposal :: u64
  co_index :: u64
  co_stage :: Stage

text \<open>
  What a call returns: a position or none at once, a failure, or the future of the chain.
\<close>

datatype reply = Now "u64 option" | Failure string | Later

definition new_Coordinator :: "nat \<Rightarrow> Coordinator" where
  "new_Coordinator q =
     \<lparr>co_quorum = q, co_state = INITIAL, co_proposal = 0, co_index = 0, co_stage = Idle\<rparr>"

subsection \<open>Election\<close>

definition elect :: "Coordinator \<Rightarrow> Coordinator \<times> reply" where
  "elect c =
     (case co_state c of
        ELECTING \<Rightarrow> (c, Later)
      | ELECTED \<Rightarrow> (c, Now (Some (co_index c - 1)))
      | WRITING \<Rightarrow> (c, Failure ''Coordinator already elected, and is currently writing'')
      | INITIAL \<Rightarrow> (c\<lparr>co_state := ELECTING, co_stage := LastProposal\<rparr>, Later))"

definition updateProposal :: "u64 \<Rightarrow> Coordinator \<Rightarrow> Coordinator" where
  "updateProposal n c = c\<lparr>co_proposal := max (co_proposal c) n + 1\<rparr>"

definition electingFinished :: "u64 option \<Rightarrow> Coordinator \<Rightarrow> Coordinator outcome" where
  "electingFinished p c =
     (if co_state c \<noteq> ELECTING then Abort
      else Ok (c\<lparr>co_state := (case p of None \<Rightarrow> INITIAL | Some _ \<Rightarrow> ELECTED), co_stage := Idle\<rparr>))"

definition electingFailed :: "Coordinator \<Rightarrow> Coordinator outcome" where
  "electingFailed c =
     (if co_state c \<noteq> ELECTING then Abort else Ok (c\<lparr>co_state := INITIAL, co_stage := Idle\<rparr>))"

definition electingAborted :: "Coordinator \<Rightarrow> Coordinator outcome" where
  "electingAborted c =
     (if co_state c \<noteq> ELECTING then Abort else Ok (c\<lparr>co_state := INITIAL, co_stage := Idle\<rparr>))"

text \<open>\<open>checkPromisePhase\<close>, with the end of the chain where it returns none at once.\<close>

definition checkElectionPhase :: "PromiseResponse \<Rightarrow> Coordinator \<Rightarrow> Coordinator outcome" where
  "checkElectionPhase m c =
     (case pr_type m of
        None \<Rightarrow> Abort
      | Some IGNORED \<Rightarrow> electingFinished None c
      | Some REJECT \<Rightarrow>
          if pr_proposal m < co_proposal c then Abort
          else electingFinished None (c\<lparr>co_proposal := pr_proposal m\<rparr>)
      | Some ACCEPT \<Rightarrow>
          (case pr_position m of
             None \<Rightarrow> Abort
           | Some p \<Rightarrow> Ok (c\<lparr>co_index := p, co_stage := CatchUp\<rparr>)))"

text \<open>The positions that are caught up, as arguments of \<open>missing\<close>, and the proposal used.\<close>

definition getMissingPositions :: "Coordinator \<Rightarrow> u64 \<times> u64" where
  "getMissingPositions c = (0, co_index c)"

definition catchupMissingPositions :: "Coordinator \<Rightarrow> u64" where
  "catchupMissingPositions c = co_proposal c + 1"

definition updateIndexAfterElected :: "Coordinator \<Rightarrow> Coordinator outcome" where
  "updateIndexAfterElected c =
     electingFinished (Some (co_index c)) (c\<lparr>co_index := co_index c + 1\<rparr>)"

definition demote :: "Coordinator \<Rightarrow> Coordinator \<times> reply" where
  "demote c =
     (case co_state c of
        INITIAL \<Rightarrow> (c, Failure ''Coordinator is not elected'')
      | ELECTING \<Rightarrow> (c, Failure ''Coordinator is being elected'')
      | WRITING \<Rightarrow> (c, Failure ''Coordinator is currently writing'')
      | ELECTED \<Rightarrow> (c\<lparr>co_state := INITIAL\<rparr>, Now (Some (co_index c - 1))))"

subsection \<open>Writing\<close>

definition coordinator_write :: "Action \<Rightarrow> Coordinator \<Rightarrow> (Coordinator \<times> reply) outcome" where
  "coordinator_write a c =
     (if co_state c \<noteq> ELECTED then Abort
      else if performed a = None \<or> action_type a = None then Abort
      else Ok (c\<lparr>co_state := WRITING, co_stage := WritePhase a\<rparr>, Later))"

definition append_action :: "Coordinator \<Rightarrow> string \<Rightarrow> Action" where
  "append_action c bs =
     (new_action (co_index c) (co_proposal c))\<lparr>performed := Some (co_proposal c),
       action_type := Some APPEND, action_append := Some \<lparr>bytes = bs, cksum = None\<rparr>\<rparr>"

definition truncate_action :: "Coordinator \<Rightarrow> u64 \<Rightarrow> Action" where
  "truncate_action c t =
     (new_action (co_index c) (co_proposal c))\<lparr>performed := Some (co_proposal c),
       action_type := Some TRUNCATE, action_truncate := Some \<lparr>to = t\<rparr>\<rparr>"

definition coordinator_append :: "string \<Rightarrow> Coordinator \<Rightarrow> (Coordinator \<times> reply) outcome" where
  "coordinator_append bs c =
     (if co_state c = INITIAL \<or> co_state c = ELECTING then Ok (c, Now None)
      else if co_state c = WRITING then Ok (c, Failure ''Coordinator is currently writing'')
      else coordinator_write (append_action c bs) c)"

definition coordinator_truncate :: "u64 \<Rightarrow> Coordinator \<Rightarrow> (Coordinator \<times> reply) outcome" where
  "coordinator_truncate t c =
     (if co_state c = INITIAL \<or> co_state c = ELECTING then Ok (c, Now None)
      else if co_state c = WRITING then Ok (c, Failure ''Coordinator is currently writing'')
      else coordinator_write (truncate_action c t) c)"

definition writingFinished :: "Coordinator \<Rightarrow> Coordinator outcome" where
  "writingFinished c =
     (if co_state c \<noteq> WRITING then Abort else Ok (c\<lparr>co_state := ELECTED, co_stage := Idle\<rparr>))"

definition writingFailed :: "Coordinator \<Rightarrow> Coordinator outcome" where
  "writingFailed c =
     (if co_state c \<noteq> WRITING then Abort else Ok (c\<lparr>co_state := INITIAL, co_stage := Idle\<rparr>))"

definition writingAborted :: "Coordinator \<Rightarrow> Coordinator outcome" where
  "writingAborted c =
     (if co_state c \<noteq> WRITING then Abort else Ok (c\<lparr>co_state := INITIAL, co_stage := Idle\<rparr>))"

text \<open>\<open>checkWritePhase\<close>, with the end of the chain where it returns none at once.\<close>

definition checkWriteResponse :: "Action \<Rightarrow> WriteResponse \<Rightarrow> Coordinator \<Rightarrow> Coordinator outcome" where
  "checkWriteResponse a m c =
     (if \<not> wr_okay m then
        (if wr_proposal m < co_proposal c then Abort
         else writingFinished (c\<lparr>co_proposal := wr_proposal m\<rparr>))
      else Ok (c\<lparr>co_stage := LearnPhase a\<rparr>))"

definition updateIndexAfterWritten :: "bool \<Rightarrow> Coordinator \<Rightarrow> Coordinator outcome" where
  "updateIndexAfterWritten is_missing c =
     (if is_missing then Abort else writingFinished (c\<lparr>co_index := co_index c + 1\<rparr>))"

subsection \<open>The state machine\<close>

text \<open>
  The steps of a coordinator. The label is the action whose write phase the step starts, if it
  starts one. Two guards are not conditions of the code: a rejected write names a higher proposal
  (replicas only reject below a promise), and proposals and positions stay below the largest 64-bit
  number (the storage refuses that position).
\<close>

inductive coord_step :: "Coordinator \<Rightarrow> Action option \<Rightarrow> Coordinator \<Rightarrow> bool" where
  Elect: "elect c = (c', r) \<Longrightarrow> coord_step c None c'"
| GotLastProposal:
    "co_stage c = LastProposal \<Longrightarrow> max (co_proposal c) n \<noteq> max_u64 \<Longrightarrow>
     coord_step c None ((updateProposal n c)\<lparr>co_stage := PromisePhase\<rparr>)"
| GotPromise:
    "co_stage c = PromisePhase \<Longrightarrow> checkElectionPhase m c = Ok c' \<Longrightarrow> coord_step c None c'"
| CaughtUp:
    "co_stage c = CatchUp \<Longrightarrow> co_index c \<noteq> max_u64 \<Longrightarrow> updateIndexAfterElected c = Ok c' \<Longrightarrow> coord_step c None c'"
| ElectionFailed:
    "co_stage c \<in> {LastProposal, PromisePhase, CatchUp} \<Longrightarrow>
     electingFailed c = Ok c' \<or> electingAborted c = Ok c' \<Longrightarrow> coord_step c None c'"
| Demote: "demote c = (c', r) \<Longrightarrow> coord_step c None c'"
| Append_start:
    "coordinator_append bs c = Ok (c', Later) \<Longrightarrow> coord_step c (Some (append_action c bs)) c'"
| Append_refused: "coordinator_append bs c = Ok (c', r) \<Longrightarrow> r \<noteq> Later \<Longrightarrow> coord_step c None c'"
| Truncate_start:
    "coordinator_truncate t c = Ok (c', Later) \<Longrightarrow> coord_step c (Some (truncate_action c t)) c'"
| Truncate_refused: "coordinator_truncate t c = Ok (c', r) \<Longrightarrow> r \<noteq> Later \<Longrightarrow> coord_step c None c'"
| GotWrite:
    "co_stage c = WritePhase a \<Longrightarrow> checkWriteResponse a m c = Ok c' \<Longrightarrow>
     (\<not> wr_okay m \<longrightarrow> co_proposal c < wr_proposal m) \<Longrightarrow> coord_step c None c'"
| Learned:
    "co_stage c = LearnPhase a \<Longrightarrow> co_index c \<noteq> max_u64 \<Longrightarrow> updateIndexAfterWritten b c = Ok c' \<Longrightarrow> coord_step c None c'"
| WritingFailed:
    "co_stage c = WritePhase a \<or> co_stage c = LearnPhase a \<Longrightarrow>
     writingFailed c = Ok c' \<or> writingAborted c = Ok c' \<Longrightarrow> coord_step c None c'"

text \<open>Executions, with the proposals and positions of the writes they started, newest first.\<close>

inductive coord_exec :: "nat \<Rightarrow> (u64 \<times> u64) list \<Rightarrow> Coordinator \<Rightarrow> bool" for q where
  Start: "coord_exec q [] (new_Coordinator q)"
| Silent: "coord_exec q ws c \<Longrightarrow> coord_step c None c' \<Longrightarrow> coord_exec q ws c'"
| Started:
    "coord_exec q ws c \<Longrightarrow> coord_step c (Some a) c' \<Longrightarrow>
     coord_exec q ((the (performed a), position a) # ws) c'"

subsection \<open>Invariants\<close>

definition stage_ok :: "Coordinator \<Rightarrow> bool" where
  "stage_ok c \<longleftrightarrow>
     (case co_stage c of
        Idle \<Rightarrow> co_state c = INITIAL \<or> co_state c = ELECTED
      | WritePhase a \<Rightarrow> co_state c = WRITING \<and> position a = co_index c \<and> performed a = Some (co_proposal c)
      | LearnPhase a \<Rightarrow> co_state c = WRITING \<and> position a = co_index c \<and> performed a = Some (co_proposal c)
      | _ \<Rightarrow> co_state c = ELECTING)"

text \<open>A write that the coordinator will not start again.\<close>

definition settled :: "Coordinator \<Rightarrow> u64 \<times> u64 \<Rightarrow> bool" where
  "settled c w \<longleftrightarrow>
     fst w < co_proposal c \<or>
     fst w = co_proposal c \<and>
     (case co_stage c of
        Idle \<Rightarrow> co_state c = INITIAL \<or> snd w < co_index c
      | LastProposal \<Rightarrow> True
      | PromisePhase \<Rightarrow> False
      | CatchUp \<Rightarrow> False
      | _ \<Rightarrow> snd w \<le> co_index c)"

lemmas coord_defs = elect_def updateProposal_def electingFinished_def electingFailed_def
  electingAborted_def checkElectionPhase_def updateIndexAfterElected_def demote_def
  coordinator_write_def coordinator_append_def coordinator_truncate_def writingFinished_def
  writingFailed_def writingAborted_def checkWriteResponse_def updateIndexAfterWritten_def

lemma step_stage_ok: "coord_step c l c' \<Longrightarrow> stage_ok c \<Longrightarrow> stage_ok c'"
  by (induction rule: coord_step.induct)
    (auto simp: coord_defs stage_ok_def append_action_def truncate_action_def
      split: CoordState.splits Stage.splits if_splits option.splits ResponseType.splits)

lemma settled_silent:
  assumes "coord_step c None c'" and "stage_ok c" and "settled c w"
  shows "settled c' w"
proof -
  have up: "settled c' w" if "co_proposal c < co_proposal c'"
    using assms(3) that unfolding settled_def by (auto intro: less_trans)
  have succ: "co_index c \<noteq> max_u64 \<Longrightarrow> snd w \<le> co_index c \<Longrightarrow> snd w < co_index c + 1"
    by (simp add: u64_less_succ_iff)
  from assms(1) show ?thesis
  proof (cases rule: coord_step.cases)
    case (GotLastProposal n)
    then have "max (co_proposal c) n < max (co_proposal c) n + 1"
      using u64_less_succ [of "max (co_proposal c) n" max_u64] u64_less_max_iff by blast
    then have "co_proposal c < co_proposal c'"
      using GotLastProposal by (simp add: updateProposal_def)
    then show ?thesis
      by (rule up)
  next
    case (GotPromise m)
    then show ?thesis
      using assms(2,3) up
      by (auto simp: coord_defs settled_def split: option.splits ResponseType.splits if_splits)
  next
    case (GotWrite a m)
    then show ?thesis
      using assms(2,3) up
      by (auto simp: coord_defs settled_def split: if_splits)
  next
    case (Learned a b)
    then show ?thesis
      using assms(2,3) succ
      by (auto simp: coord_defs settled_def split: if_splits)
  qed (use assms(2,3) in \<open>auto simp: coord_defs settled_def stage_ok_def
      split: CoordState.splits if_splits Stage.splits\<close>)
qed

inductive_cases coord_startE: "coord_step c (Some a) c'"

lemma step_starts:
  assumes "coord_step c (Some a) c'"
  shows "co_state c = ELECTED" "position a = co_index c" "performed a = Some (co_proposal c)"
    "c' = c\<lparr>co_state := WRITING, co_stage := WritePhase a\<rparr>"
  using assms
  by (auto elim!: coord_startE simp: coord_defs append_action_def truncate_action_def split: if_splits)

lemma exec_inv:
  assumes "coord_exec q ws c"
  shows "stage_ok c \<and> distinct ws \<and> (\<forall>w\<in>set ws. settled c w)"
  using assms
proof (induction rule: coord_exec.induct)
  case Start
  show ?case
    by (simp add: stage_ok_def new_Coordinator_def)
next
  case (Silent ws c c')
  then show ?case
    using step_stage_ok settled_silent by blast
next
  case (Started ws c a c')
  note a = step_starts [OF Started.hyps(2)]
  have idle: "co_stage c = Idle"
    using Started.IH a(1) by (auto simp: stage_ok_def split: Stage.splits)
  then have old: "fst w < co_proposal c \<or> fst w = co_proposal c \<and> snd w < co_index c" if "w \<in> set ws" for w
    using Started.IH that a(1) by (auto simp: settled_def)
  then have "(co_proposal c, co_index c) \<notin> set ws"
    by fastforce
  moreover have "settled c' w" if "w \<in> set ws" for w
    using old [OF that] a(4) by (auto simp: settled_def order.strict_implies_order)
  ultimately show ?case
    using Started step_stage_ok [OF Started.hyps(2)] a by (auto simp: settled_def)
qed

subsection \<open>Properties\<close>

text \<open>
  Property C14. A coordinator never starts two writes with the same proposal at the same position,
  over any number of elections, failures, rejected writes and discarded writes: what it proposed is
  not proposed again with another value.
\<close>

theorem coordinator_never_rewrites:
  assumes "coord_exec q ws c"
  shows "distinct ws"
  using exec_inv [OF assms] by blast

definition sample_elected :: Coordinator where
  "sample_elected =
     \<lparr>co_quorum = 2, co_state = ELECTED, co_proposal = 4, co_index = 8, co_stage = Idle\<rparr>"

lemma sample_elected_exec: "coord_exec 2 [] sample_elected"
proof -
  let ?c1 = "(new_Coordinator 2)\<lparr>co_state := ELECTING, co_stage := LastProposal\<rparr>"
  let ?c2 = "?c1\<lparr>co_proposal := 4, co_stage := PromisePhase\<rparr>"
  let ?c3 = "?c2\<lparr>co_index := 7, co_stage := CatchUp\<rparr>"
  have s1: "coord_step (new_Coordinator 2) None ?c1"
    by (rule Elect) (simp add: elect_def new_Coordinator_def)
  have "max (0::u64) 3 = 3"
    by (simp add: max_def)
  then have s2: "coord_step ?c1 None ?c2"
    using GotLastProposal [of ?c1 3] by (simp add: updateProposal_def new_Coordinator_def)
  have s3: "coord_step ?c2 None ?c3"
    by (rule GotPromise [of _ "promise_result ACCEPT True 0 (Some 7) None"])
      (simp_all add: checkElectionPhase_def promise_result_def)
  have s4: "coord_step ?c3 None sample_elected"
    by (rule CaughtUp)
      (simp_all add: updateIndexAfterElected_def electingFinished_def sample_elected_def new_Coordinator_def)
  show ?thesis
    by (rule Silent [OF Silent [OF Silent [OF Silent [OF Start s1] s2] s3] s4])
qed

theorem coordinator_never_rewrites_witness:
  "\<exists>c. coord_exec 2 [(4, 8)] c \<and> distinct [(4::u64, 8::u64)]"
proof -
  have "coord_step sample_elected (Some (append_action sample_elected ''x''))
      (sample_elected\<lparr>co_state := WRITING, co_stage := WritePhase (append_action sample_elected ''x'')\<rparr>)"
    by (rule Append_start)
      (simp add: coordinator_append_def coordinator_write_def sample_elected_def append_action_def)
  from Started [OF sample_elected_exec this] obtain c where "coord_exec 2 [(4, 8)] c"
    by (auto simp: append_action_def sample_elected_def)
  with coordinator_never_rewrites [OF this] show ?thesis
    by blast
qed

text \<open>
  The state checks of the continuations never fail: in every reachable state the
  coordinator is \<open>ELECTING\<close> exactly while an election chain runs and \<open>WRITING\<close> exactly while a write
  chain runs, so finishing, failing and aborting a chain does not stop the process.
\<close>

theorem coordinator_checks_hold:
  assumes "coord_exec q ws c"
  shows "(co_stage c \<in> {LastProposal, PromisePhase, CatchUp} \<longrightarrow>
           (\<exists>c'. electingFinished p c = Ok c') \<and> (\<exists>c'. electingFailed c = Ok c') \<and>
           (\<exists>c'. electingAborted c = Ok c')) \<and>
         (\<forall>a. co_stage c = WritePhase a \<or> co_stage c = LearnPhase a \<longrightarrow>
           (\<exists>c'. writingFinished c = Ok c') \<and> (\<exists>c'. writingFailed c = Ok c') \<and>
           (\<exists>c'. writingAborted c = Ok c')) \<and>
         (co_stage c = Idle \<longrightarrow> (\<exists>r. coordinator_append bs c = Ok r) \<and> (\<exists>r. coordinator_truncate t c = Ok r))"
  using exec_inv [OF assms]
  by (auto simp: stage_ok_def coord_defs append_action_def truncate_action_def split: Stage.splits)

theorem coordinator_checks_hold_witness:
  "\<exists>r. coordinator_append ''x'' sample_elected = Ok r"
  using coordinator_checks_hold [OF sample_elected_exec] by (simp add: sample_elected_def)

text \<open>
  Property C35. A coordinator whose write is rejected returns none but is not demoted: it stays
  elected, takes over the proposal of the coordinator that got ahead of it, and its next append is
  written with that proposal.
\<close>

theorem rejected_write_stays_elected:
  assumes "co_state c = WRITING" and "\<not> wr_okay m" and "co_proposal c \<le> wr_proposal m"
  shows "\<exists>c' c''. checkWriteResponse a m c = Ok c' \<and> co_state c' = ELECTED \<and>
    coordinator_append bs c' = Ok (c'', Later) \<and>
    co_stage c'' = WritePhase (append_action c' bs) \<and>
    performed (append_action c' bs) = Some (wr_proposal m)"
  using assms by (simp add: coord_defs append_action_def not_less leD)

theorem rejected_write_stays_elected_witness:
  "\<exists>c' c''. checkWriteResponse (append_action sample_elected ''x'') (write_result REJECT False 9)
       (sample_elected\<lparr>co_state := WRITING\<rparr>) = Ok c' \<and> co_state c' = ELECTED \<and>
     coordinator_append ''y'' c' = Ok (c'', Later) \<and>
     co_stage c'' = WritePhase (append_action c' ''y'') \<and> performed (append_action c' ''y'') = Some 9"
proof -
  have "co_proposal (sample_elected\<lparr>co_state := WRITING\<rparr>) \<le> wr_proposal (write_result REJECT False 9)"
    by (simp add: sample_elected_def write_result_def word_le_nat_alt)
  from rejected_write_stays_elected [OF _ _ this] show ?thesis
    by (simp add: write_result_def)
qed

text \<open>
  A write that a quorum of replicas ignored stops the process of an elected coordinator:
  the result carries no proposal, and the coordinator checks that its own is not above it.
\<close>

theorem ignored_write_aborts:
  assumes "0 < q" and "q \<le> length ms"
    and "\<And>m. m \<in> set ms \<Longrightarrow> wr_type m = Some IGNORED \<and> wr_position m = position a"
    and "0 < co_proposal c"
  shows "\<exists>s res. run_received write_received ms (new_WriteProcess q n a) = Ok s \<and>
    wp_promise s = Ready res \<and> checkWriteResponse a res c = Abort"
proof -
  have "filter (\<lambda>m. wr_type m = Some IGNORED) ms = ms"
    using assms(3) by (simp add: filter_id_conv)
  then obtain s where s: "run_received write_received ms (new_WriteProcess q n a) = Ok s"
    and "wp_promise s \<noteq> Pending"
    using wp.run_completes [of ms "new_WriteProcess q n a"] assms
    by (auto simp: write_expected_def new_WriteProcess_def)
  moreover have "wp_promise s = Pending \<or> wp_promise s = Ready (write_result IGNORED False 0)"
    by (rule write_ignored_run [OF _ _ s]) (use assms(3) in \<open>simp_all add: new_WriteProcess_def\<close>)
  ultimately show ?thesis
    using assms(4) by (auto simp: checkWriteResponse_def write_result_def)
qed

theorem ignored_write_aborts_witness:
  "\<exists>s res. run_received write_received [\<lparr>wr_okay = False, wr_type = Some IGNORED, wr_proposal = 4, wr_position = 8\<rparr>]
       (new_WriteProcess 1 4 (append_action sample_elected ''x'')) = Ok s \<and> wp_promise s = Ready res \<and>
     checkWriteResponse (append_action sample_elected ''x'') res sample_elected = Abort"
  by (rule ignored_write_aborts) (simp_all add: sample_elected_def append_action_def)

end
