(* ===== verification/Log_Encoding.thy ===== *)
theory Log_Encoding
  imports Mesos_Prelude "HOL-Library.Char_ord" "HOL-Library.List_Lexorder"
begin

section \<open>Keys of the log's database\<close>

text \<open>
  \<open>encode\<close> of \<open>src/log/leveldb.cpp\<close> turns a position into the key of its record. The log
  relies on the keys being in the byte order of the positions. Positions up to
  \<open>9999999999\<close> are written with ten digits, larger ones with the letter \<open>A\<close> and twenty digits.
\<close>

fun decimal :: "nat \<Rightarrow> string" where
  "decimal n =
     (if n < 10 then [char_of (48 + n)] else decimal (n div 10) @ [char_of (48 + n mod 10)])"

declare decimal.simps [simp del]

text \<open>The conversion \<open>%.*llu\<close>: at least \<open>precision\<close> digits, padded with zeros on the left.\<close>

definition format_llu :: "nat \<Rightarrow> nat \<Rightarrow> string" where
  "format_llu precision n =
     replicate (precision - length (decimal n)) (CHR ''0'') @ decimal n"

definition encode :: "u64 \<Rightarrow> bool \<Rightarrow> string outcome" where
  "encode pos adjust =
     (if adjust \<and> \<not> pos < max_u64 then Abort
      else
        (let pos = (if adjust then pos + 1 else pos) in
         if pos \<le> 9999999999 then Ok (format_llu 10 (unat pos))
         else Ok (CHR ''A'' # format_llu 20 (unat pos))))"

subsection \<open>Digits of a fixed width\<close>

fun digits :: "nat \<Rightarrow> nat \<Rightarrow> string" where
  "digits 0 n = []"
| "digits (Suc w) n = digits w (n div 10) @ [char_of (48 + n mod 10)]"

lemma length_digits [simp]: "length (digits w n) = w"
  by (induction w arbitrary: n) auto

lemma digits_zero: "digits w 0 = replicate w (CHR ''0'')"
proof (induction w)
  case (Suc w)
  have "(char_of (48::nat) :: char) = CHR ''0''"
    by code_simp
  with Suc show ?case
    by (simp add: replicate_append_same)
qed simp

lemma format_llu_digits:
  "0 < w \<Longrightarrow> n < 10 ^ w \<Longrightarrow> format_llu w n = digits w n \<and> length (decimal n) \<le> w"
proof (induction w arbitrary: n)
  case (Suc w)
  show ?case
  proof (cases "n < 10")
    case True
    then show ?thesis
      using Suc.prems by (simp add: format_llu_def decimal.simps [of n] digits_zero)
  next
    case False
    then have "n div 10 < 10 ^ w" "0 < w"
      using Suc.prems by (cases w; auto)+
    then have IH: "format_llu w (n div 10) = digits w (n div 10)" "length (decimal (n div 10)) \<le> w"
      using Suc.IH by blast+
    from False have "decimal n = decimal (n div 10) @ [char_of (48 + n mod 10)]"
      by (simp add: decimal.simps [of n])
    with IH show ?thesis
      by (simp add: format_llu_def)
  qed
qed simp

lemma char_of_digit_less:
  "a < 10 \<Longrightarrow> b < 10 \<Longrightarrow> (char_of (48 + a) :: char) < char_of (48 + b) \<longleftrightarrow> (a::nat) < b"
  by (simp add: less_char_def)

lemma snoc_less_iff:
  fixes xs ys :: "'a::linorder list"
  shows "length xs = length ys \<Longrightarrow> xs @ [a] < ys @ [b] \<longleftrightarrow> xs < ys \<or> xs = ys \<and> a < b"
  by (induction xs ys rule: list_induct2) auto

lemma last_digit_less_iff:
  fixes a b r s :: nat
  shows "r < 10 \<Longrightarrow> s < 10 \<Longrightarrow> 10 * a + r < 10 * b + s \<longleftrightarrow> a < b \<or> a = b \<and> r < s"
  by linarith

lemma digits_less_iff: "m < 10 ^ w \<Longrightarrow> n < 10 ^ w \<Longrightarrow> digits w m < digits w n \<longleftrightarrow> m < n"
proof (induction w arbitrary: m n)
  case (Suc w)
  then have "m div 10 < 10 ^ w" "n div 10 < 10 ^ w"
    by auto
  note lt = Suc.IH [OF this] and gt = Suc.IH [OF this(2,1)]
  have eq: "digits w (m div 10) = digits w (n div 10) \<longleftrightarrow> m div 10 = n div 10"
    using lt gt by (metis linorder_neq_iff)
  have "m < n \<longleftrightarrow> m div 10 < n div 10 \<or> m div 10 = n div 10 \<and> m mod 10 < n mod 10"
    using last_digit_less_iff [of "m mod 10" "n mod 10" "m div 10" "n div 10"] by simp
  moreover have "(char_of (48 + m mod 10) :: char) < char_of (48 + n mod 10) \<longleftrightarrow> m mod 10 < n mod 10"
    by (rule char_of_digit_less) simp_all
  ultimately show ?case
    unfolding digits.simps using lt eq by (simp only: snoc_less_iff length_digits)
qed simp

text \<open>Every key of ten digits is below every key that starts with the letter \<open>A\<close>.\<close>

lemma digits_less_A: "digits w n < CHR ''A'' # k"
proof (cases "digits w n")
  case (Cons c cs)
  have "\<forall>c \<in> set (digits w n). c < CHR ''A''"
    by (induction w arbitrary: n) (auto simp: less_char_def)
  with Cons show ?thesis
    by simp
qed simp

lemma unat_small_iff: "(p :: u64) \<le> 9999999999 \<longleftrightarrow> unat p < 10 ^ 10"
  by (simp add: word_le_nat_alt) linarith

lemma unat_u64_digits: "unat (p :: u64) < 10 ^ 20"
  by (rule less_trans [OF unsigned_less]) simp

text \<open>The key of an adjusted position, without the check.\<close>

definition key :: "u64 \<Rightarrow> string" where
  "key pos =
     (if pos \<le> 9999999999 then digits 10 (unat pos) else CHR ''A'' # digits 20 (unat pos))"

lemma encode_key:
  "encode pos adjust =
     (if adjust \<and> \<not> pos < max_u64 then Abort else Ok (key (if adjust then pos + 1 else pos)))"
  using unat_u64_digits
  by (simp add: encode_def key_def unat_small_iff Let_def format_llu_digits [THEN conjunct1])

lemma key_less_iff: "key p < key q \<longleftrightarrow> p < q"
proof -
  have "p < q \<longleftrightarrow> unat p < unat q"
    by (simp add: word_less_nat_alt)
  moreover have "\<not> CHR ''A'' # k < digits 10 n" for k n
    using digits_less_A less_asym by blast
  ultimately show ?thesis
    using digits_less_iff [of "unat p" 10 "unat q"] digits_less_iff [of "unat p" 20 "unat q"]
      digits_less_A unat_u64_digits [of p] unat_u64_digits [of q]
    unfolding key_def unat_small_iff by (cases "unat p < 10 ^ 10"; cases "unat q < 10 ^ 10") simp_all
qed

lemma key_eq_iff [simp]: "key p = key q \<longleftrightarrow> p = q"
  using key_less_iff by (metis linorder_neq_iff)

text \<open>The key of the record of a position.\<close>

definition akey :: "u64 \<Rightarrow> string" where
  "akey pos = key (pos + 1)"

lemma akey_eq_iff [simp]: "akey p = akey q \<longleftrightarrow> p = q"
  by (simp add: akey_def)

lemma akey_not_key0 [simp]: "p \<noteq> max_u64 \<Longrightarrow> akey p \<noteq> key 0"
  unfolding akey_def key_eq_iff by (metis u64_less_max_iff u64_less_succ word_not_simps(1))

lemma key0_not_akey [simp]: "p \<noteq> max_u64 \<Longrightarrow> key 0 \<noteq> akey p"
  using akey_not_key0 by metis

lemma encode_True: "encode p True = (if p = max_u64 then Abort else Ok (akey p))"
  unfolding encode_key akey_def u64_less_max_iff by simp

lemma encode_False: "encode p False = Ok (key p)"
  by (simp add: encode_key)

text \<open>
  Keys are strictly increasing in the position: whenever two positions are encoded
  with the same adjustment, the byte order of the keys is the order of the positions. So the
  database iterates over the records in the order of the log.
\<close>

theorem encode_monotone:
  assumes "encode p adjust = Ok k" and "encode q adjust = Ok l"
  shows "k < l \<longleftrightarrow> p < q"
proof -
  have "adjust \<Longrightarrow> p < max_u64 \<and> q < max_u64"
    using assms by (auto simp: encode_key split: if_splits)
  then show ?thesis
    using assms by (auto simp: encode_key key_less_iff u64_succ_mono split: if_splits)
qed

theorem encode_monotone_witness:
  "\<exists>k l. encode 9999999998 True = Ok k \<and> encode 9999999999 True = Ok l \<and> k < l"
proof -
  have "encode 9999999998 True = Ok (akey 9999999998)" "encode 9999999999 True = Ok (akey 9999999999)"
    by (simp_all add: encode_True)
  moreover from encode_monotone [OF this] have "akey 9999999998 < akey 9999999999"
    by (simp add: word_less_nat_alt)
  ultimately show ?thesis
    by blast
qed

end
