(* ===== verification/Log_Catchup.thy ===== *)
theory Log_Catchup
  imports Log_Consensus Log_Encoding
begin

section \<open>Catching up positions\<close>

text \<open>
  The processes of \<open>src/log/catchup.cpp\<close>. \<open>CatchUpProcess\<close> fills one position until the local
  replica has learned it, \<open>BulkCatchUpProcess\<close> does so for an interval, \<open>CatchupMissingProcess\<close>
  finds the interval with the recover protocol. The answers of the local replica and of the fills
  are arguments of the handlers.
\<close>

subsection \<open>One position\<close>

datatype CatchUpStage = CheckingPosition | FillingPosition | CatchUpOver

record CatchUpProcess =
  cu_position :: u64
  cu_proposal :: u64
  cu_stage :: CatchUpStage
  cu_promise :: "u64 future"

definition new_CatchUpProcess :: "u64 \<Rightarrow> u64 \<Rightarrow> CatchUpProcess" where
  "new_CatchUpProcess n p =
     \<lparr>cu_position = p, cu_proposal = n, cu_stage = CheckingPosition, cu_promise = Pending\<rparr>"

definition checked :: "bool future \<Rightarrow> CatchUpProcess \<Rightarrow> CatchUpProcess outcome" where
  "checked f s =
     (case f of
        Discarded \<Rightarrow> Abort
      | Pending \<Rightarrow> Ok s
      | Failed e \<Rightarrow>
          Ok (s\<lparr>cu_promise := Failed (''Failed to get missing positions: '' @ e), cu_stage := CatchUpOver\<rparr>)
      | Ready is_missing \<Rightarrow>
          if \<not> is_missing then Ok (s\<lparr>cu_promise := Ready (cu_proposal s), cu_stage := CatchUpOver\<rparr>)
          else Ok (s\<lparr>cu_stage := FillingPosition\<rparr>))"

definition filled :: "Action future \<Rightarrow> CatchUpProcess \<Rightarrow> CatchUpProcess outcome" where
  "filled f s =
     (case f of
        Discarded \<Rightarrow> Abort
      | Pending \<Rightarrow> Ok s
      | Failed e \<Rightarrow>
          Ok (s\<lparr>cu_promise := Failed (''Failed to fill missing position: '' @ e), cu_stage := CatchUpOver\<rparr>)
      | Ready a \<Rightarrow>
          if promised a < cu_proposal s then Abort
          else Ok (s\<lparr>cu_proposal := promised a, cu_stage := CheckingPosition\<rparr>))"

text \<open>
  A step of the process: the local replica answers a check, or a fill ends.
\<close>

inductive catchup_step :: "CatchUpProcess \<Rightarrow> CatchUpProcess \<Rightarrow> bool" where
  Check: "cu_stage s = CheckingPosition \<Longrightarrow> checked f s = Ok s' \<Longrightarrow> catchup_step s s'"
| Fill: "cu_stage s = FillingPosition \<Longrightarrow> filled f s = Ok s' \<Longrightarrow> catchup_step s s'"

subsection \<open>An interval\<close>

record BulkCatchUpProcess =
  bu_positions :: interval
  bu_proposal :: u64
  bu_current :: u64
  bu_promise :: "unit future"

text \<open>\<open>catchup()\<close>: stop at the end of the interval, otherwise wait for the current position.\<close>

definition bulk_catchup :: "BulkCatchUpProcess \<Rightarrow> BulkCatchUpProcess" where
  "bulk_catchup s =
     (if upper (bu_positions s) \<le> bu_current s then s\<lparr>bu_promise := Ready ()\<rparr> else s)"

definition new_BulkCatchUpProcess :: "u64 option \<Rightarrow> interval \<Rightarrow> BulkCatchUpProcess" where
  "new_BulkCatchUpProcess n i =
     bulk_catchup
       \<lparr>bu_positions = i, bu_proposal = (case n of None \<Rightarrow> 0 | Some k \<Rightarrow> k), bu_current = lower i,
        bu_promise = Pending\<rparr>"

definition bulk_discarded :: "BulkCatchUpProcess \<Rightarrow> BulkCatchUpProcess" where
  "bulk_discarded s = bulk_catchup s"

definition bulk_failed :: "string \<Rightarrow> BulkCatchUpProcess \<Rightarrow> BulkCatchUpProcess" where
  "bulk_failed e s =
     s\<lparr>bu_promise :=
         Failed (''Failed to catch-up position '' @ decimal (unat (bu_current s)) @ '': '' @ e)\<rparr>"

definition bulk_succeeded :: "u64 \<Rightarrow> BulkCatchUpProcess \<Rightarrow> BulkCatchUpProcess" where
  "bulk_succeeded n s =
     bulk_catchup (s\<lparr>bu_current := bu_current s + 1, bu_proposal := n\<rparr>)"

text \<open>
  A run of the process over the results of the catch-ups of its positions (a timed-out catch-up is
  discarded), with the positions that succeeded, in order.
\<close>

fun bulk_run :: "u64 future list \<Rightarrow> BulkCatchUpProcess \<Rightarrow> u64 list \<times> BulkCatchUpProcess" where
  "bulk_run [] s = ([], s)"
| "bulk_run (r # rs) s =
     (if bu_promise s \<noteq> Pending then ([], s)
      else
        (case r of
           Ready n \<Rightarrow>
             (let (ps, s') = bulk_run rs (bulk_succeeded n s) in (bu_current s # ps, s'))
         | Discarded \<Rightarrow> bulk_run rs (bulk_discarded s)
         | Failed e \<Rightarrow> ([], bulk_failed e s)
         | Pending \<Rightarrow> bulk_run rs s))"

subsection \<open>The missing positions\<close>

text \<open>
  \<open>CatchupMissingProcess\<close>. The member \<open>end\<close> has no initialiser: \<open>None\<close> is its indeterminate value.
  What \<open>_recover\<close> returns is a failure, or the first and last position to catch up.
\<close>

record CatchupMissingProcess =
  cm_end :: "u64 option"
  cm_promise :: "u64 option future"

definition new_CatchupMissingProcess :: CatchupMissingProcess where
  "new_CatchupMissingProcess = \<lparr>cm_end = None, cm_promise = Pending\<rparr>"

text \<open>\<open>recover(status)\<close>: whether the protocol is run.\<close>

definition missing_recover :: "Status \<Rightarrow> bool" where
  "missing_recover st \<longleftrightarrow> st = VOTING"

definition missing_recovered ::
  "RecoverResponse option \<Rightarrow> u64 \<Rightarrow> CatchupMissingProcess \<Rightarrow>
   (CatchupMissingProcess \<times> (u64 \<times> u64)) outcome" where
  "missing_recovered resp replica_begin s =
     (case resp of
        None \<Rightarrow> Error ''Failed to recover begin and end positions of the log''
      | Some m \<Rightarrow>
          if rr_status m \<noteq> RECOVERING then
            Error ''Unexpected status returned from the recover protocol''
          else
            (case (rr_begin m, rr_end m) of
               (Some b, Some e) \<Rightarrow>
                 if b = e then Error ''Recovered only 1 position, cannot catch-up''
                 else
                   (let b' = min replica_begin b in
                    if e - 1 < b' then Abort else Ok (s\<lparr>cm_end := Some (e - 1)\<rparr>, (b', e - 1)))
             | _ \<Rightarrow> Abort))"

definition missing_finished :: "unit future \<Rightarrow> CatchupMissingProcess \<Rightarrow> CatchupMissingProcess" where
  "missing_finished f s =
     (case f of
        Discarded \<Rightarrow> s\<lparr>cm_promise := Discarded\<rparr>
      | Failed e \<Rightarrow> s\<lparr>cm_promise := Failed e\<rparr>
      | Pending \<Rightarrow> s
      | Ready _ \<Rightarrow> s\<lparr>cm_promise := Ready (cm_end s)\<rparr>)"

subsection \<open>Lemmas\<close>

text \<open>
  Interval arithmetic: the positions from the lower to the upper end, in order.
\<close>

lemma bulk_catchup_simps [simp]:
  "bu_positions (bulk_catchup s) = bu_positions s" "bu_current (bulk_catchup s) = bu_current s"
  "bu_proposal (bulk_catchup s) = bu_proposal s"
  by (simp_all add: bulk_catchup_def)

definition bulk_ok :: "BulkCatchUpProcess \<Rightarrow> bool" where
  "bulk_ok s \<longleftrightarrow>
     lower (bu_positions s) \<le> bu_current s \<and>
     (bu_promise s = Pending \<longrightarrow> bu_current s < upper (bu_positions s)) \<and>
     (bu_promise s = Ready () \<longrightarrow> upper (bu_positions s) \<le> bu_current s)"

lemma bulk_ok_catchup:
  "bu_promise s = Pending \<Longrightarrow> lower (bu_positions s) \<le> bu_current s \<Longrightarrow> bulk_ok (bulk_catchup s)"
  by (auto simp: bulk_ok_def bulk_catchup_def not_le)

lemma bulk_ok_succeeded: "bulk_ok s \<Longrightarrow> bu_promise s = Pending \<Longrightarrow> bulk_ok (bulk_succeeded n s)"
proof -
  assume "bulk_ok s" "bu_promise s = Pending"
  then have c: "lower (bu_positions s) \<le> bu_current s" "bu_current s < upper (bu_positions s)"
    by (simp_all add: bulk_ok_def)
  then have "bu_current s < bu_current s + 1"
    by (intro u64_less_succ)
  then have "lower (bu_positions s) \<le> bu_current s + 1"
    using c(1) by (meson order_less_imp_le order_trans)
  then show ?thesis
    unfolding bulk_succeeded_def using \<open>bu_promise s = Pending\<close> by (intro bulk_ok_catchup) simp_all
qed

lemma below_succ_split:
  assumes "(c::u64) < u"
  shows "{p. c \<le> p \<and> p < u} = insert c {p. c + 1 \<le> p \<and> p < u}"
proof -
  have "c \<noteq> max_u64"
    using assms leD [OF u64_le_max] by metis
  then have "c + 1 \<le> p \<longleftrightarrow> c < p" for p
    by (rule u64_succ_le_iff)
  then show ?thesis
    using assms by (auto simp only: order_le_less)
qed

lemma bulk_run_covers:
  assumes "bulk_ok s" and "bulk_run rs s = (ps, s')" and "bu_promise s' = Ready ()"
    and "bu_promise s = Pending"
  shows "set ps = {p. bu_current s \<le> p \<and> p < upper (bu_positions s)} \<and> sorted_wrt (<) ps"
  using assms
proof (induction rs s arbitrary: ps rule: bulk_run.induct)
  case (2 r rs s)
  have cur: "bu_current s < upper (bu_positions s)"
    using "2.prems" by (simp add: bulk_ok_def)
  show ?case
  proof (cases r)
    case (Ready n)
    obtain qs where qs: "bulk_run rs (bulk_succeeded n s) = (qs, s')" "ps = bu_current s # qs"
      using "2.prems" Ready by (auto split: prod.splits)
    have pos: "bu_positions (bulk_succeeded n s) = bu_positions s"
      "bu_current (bulk_succeeded n s) = bu_current s + 1"
      by (simp_all add: bulk_succeeded_def)
    have ok: "bulk_ok (bulk_succeeded n s)"
      using "2.prems" by (intro bulk_ok_succeeded) auto
    have set_qs: "set qs = {p. bu_current s + 1 \<le> p \<and> p < upper (bu_positions s)} \<and> sorted_wrt (<) qs"
    proof (cases "bu_promise (bulk_succeeded n s) = Pending")
      case True
      have np: "\<not> bu_promise s \<noteq> Pending"
        using "2.prems"(4) by simp
      show ?thesis
        using "2.IH"(2) [OF np Ready ok qs(1) "2.prems"(3) True] unfolding pos .
    next
      case False
      then have run: "qs = []" "s' = bulk_succeeded n s"
        using qs(1) by (cases rs; simp)+
      then have "upper (bu_positions s) \<le> bu_current s + 1"
        using ok "2.prems"(3) unfolding bulk_ok_def pos by simp
      then have "{p. bu_current s + 1 \<le> p \<and> p < upper (bu_positions s)} = {}"
        using leD order_trans by blast
      then show ?thesis
        unfolding run by simp
    qed
    have "bu_current s < p" if "p \<in> set qs" for p
      using set_qs that u64_less_succ [OF cur] order_less_le_trans by blast
    then show ?thesis
      unfolding qs(2) below_succ_split [OF cur] using set_qs by simp
  next
    case Discarded
    have "bulk_ok (bulk_discarded s)" "bu_promise (bulk_discarded s) = Pending"
      "bu_positions (bulk_discarded s) = bu_positions s" "bu_current (bulk_discarded s) = bu_current s"
      using "2.prems" cur bulk_ok_catchup [of s]
      by (auto simp: bulk_discarded_def bulk_ok_def bulk_catchup_def not_le)
    then show ?thesis
      using "2.IH"(3) "2.prems" Discarded by simp
  next
    case (Failed e)
    then show ?thesis
      using "2.prems" by (auto simp: bulk_failed_def)
  next
    case Pending
    then show ?thesis
      using "2.IH"(1) "2.prems" by simp
  qed
qed simp

lemma new_bulk_ok: "bulk_ok (new_BulkCatchUpProcess n i)"
  by (simp add: new_BulkCatchUpProcess_def bulk_ok_catchup)

lemma catchup_step_proposal:
  assumes "catchup_step s s'"
  shows "cu_proposal s \<le> cu_proposal s' \<and> cu_position s' = cu_position s"
  using assms
  by (cases rule: catchup_step.cases) (auto simp: checked_def filled_def not_less split: future.splits if_splits)

lemma catchup_steps_proposal:
  assumes "catchup_step\<^sup>*\<^sup>* s s'"
  shows "cu_proposal s \<le> cu_proposal s' \<and> cu_position s' = cu_position s"
  using assms
proof (induction rule: rtranclp_induct)
  case (step y z)
  then show ?case
    using catchup_step_proposal [OF step.hyps(2)] by auto
qed simp

subsection \<open>Properties\<close>

text \<open>
  Property C25. A bulk catch-up that succeeds has caught up every position of its interval, each of
  them once, in increasing order, whatever catch-ups timed out and were retried on the way.
\<close>

theorem bulk_catchup_complete:
  assumes "bulk_run rs (new_BulkCatchUpProcess n i) = (ps, s)" and "bu_promise s = Ready ()"
  shows "set ps = elems i \<and> sorted_wrt (<) ps"
proof (cases "bu_promise (new_BulkCatchUpProcess n i) = Pending")
  case True
  from bulk_run_covers [OF new_bulk_ok assms True] show ?thesis
    by (simp add: elems_def new_BulkCatchUpProcess_def)
next
  case False
  have "upper i \<le> lower i"
  proof (rule ccontr)
    assume "\<not> upper i \<le> lower i"
    then have "bu_promise (new_BulkCatchUpProcess n i) = Pending"
      by (simp only: new_BulkCatchUpProcess_def bulk_catchup_def) simp
    with False show False ..
  qed
  then have "elems i = {}"
    unfolding elems_def using leD order_trans by blast
  moreover have "ps = []"
    using False assms(1) by (cases rs) simp_all
  ultimately show ?thesis
    by simp
qed

definition sample_interval :: interval where
  "sample_interval = \<lparr>lower = 4, upper = 6\<rparr>"

theorem bulk_catchup_complete_witness:
  "set [4, 5] = elems sample_interval \<and> sorted_wrt (<) [4 :: u64, 5]"
proof -
  have "bulk_run [Ready 2, Discarded, Ready 3] (new_BulkCatchUpProcess None sample_interval) =
      ([4, 5], \<lparr>bu_positions = sample_interval, bu_proposal = 3, bu_current = 6, bu_promise = Ready ()\<rparr>)"
    by (simp add: new_BulkCatchUpProcess_def sample_interval_def bulk_catchup_def bulk_succeeded_def
        bulk_discarded_def word_le_nat_alt)
  from bulk_catchup_complete [OF this] show ?thesis
    by simp
qed

text \<open>
  A catch-up ends with the proposal it used only after the local replica reported the
  position as learned; on the way its proposal never decreases.
\<close>

theorem catchup_ends_learned:
  assumes "catchup_step\<^sup>*\<^sup>* (new_CatchUpProcess n p) s" and "catchup_step s s'"
    and "cu_promise s' = Ready k" and "cu_promise s = Pending"
  shows "cu_stage s = CheckingPosition \<and> checked (Ready False) s = Ok s' \<and> n \<le> k \<and> cu_position s' = p"
proof -
  have "n \<le> cu_proposal s \<and> cu_position s = p"
    using catchup_steps_proposal [OF assms(1)] by (simp add: new_CatchUpProcess_def)
  with assms(2-4) show ?thesis
    by (cases rule: catchup_step.cases) (auto simp: checked_def filled_def split: future.splits if_splits)
qed

theorem catchup_ends_learned_witness:
  "checked (Ready False) (new_CatchUpProcess 3 9) = Ok ((new_CatchUpProcess 3 9)\<lparr>cu_promise := Ready 3,
     cu_stage := CatchUpOver\<rparr>)"
proof -
  have "catchup_step (new_CatchUpProcess 3 9)
      ((new_CatchUpProcess 3 9)\<lparr>cu_promise := Ready 3, cu_stage := CatchUpOver\<rparr>)"
    by (rule Check [of _ "Ready False"]) (simp_all add: new_CatchUpProcess_def checked_def)
  from catchup_ends_learned [OF rtranclp.rtrancl_refl this] show ?thesis
    by (simp add: new_CatchUpProcess_def)
qed

text \<open>
  The catch-up of a replica that does not vote reports success with an indeterminate
  position: the chain ends at once and its end is never set.
\<close>

theorem catchup_missing_uninitialised:
  assumes "st \<noteq> VOTING"
  shows "\<not> missing_recover st \<and>
    cm_promise (missing_finished (Ready ()) new_CatchupMissingProcess) = Ready None"
  using assms by (simp add: missing_recover_def missing_finished_def new_CatchupMissingProcess_def)

theorem catchup_missing_uninitialised_witness:
  "\<not> missing_recover EMPTY \<and>
   cm_promise (missing_finished (Ready ()) new_CatchupMissingProcess) = Ready None"
  by (rule catchup_missing_uninitialised) simp

end
