(* ===== verification/Log_Storage.thy ===== *)
theory Log_Storage
  imports Log_Messages Log_Encoding
begin

section \<open>Storage of the replicated log\<close>

text \<open>
  \<open>src/log/storage.hpp\<close>, the interface a replica stores its records through, and
  \<open>LevelDBStorage\<close> of \<open>src/log/leveldb.cpp\<close>, its implementation.

  LevelDB and the protobuf runtime are not part of the repository. The record \<open>leveldb\<close> holds the
  calls the code makes to them, \<open>leveldb_ok\<close> the documented behaviour it relies on. A status is
  \<open>None\<close> when it is \<open>ok()\<close> and carries \<open>ToString()\<close> otherwise.

  The locale \<open>log_storage\<close> is the contract of the interface; it is interpreted on
  \<open>LevelDBStorage\<close> at the end.
\<close>

subsection \<open>The database and the serialiser\<close>

type_synonym db_status = "string option"

record ('db, 'v) leveldb =
  db_open :: "'db \<Rightarrow> db_status \<times> 'db"
  db_put :: "string \<Rightarrow> 'v \<Rightarrow> 'db \<Rightarrow> db_status \<times> 'db"
  db_delete :: "string list \<Rightarrow> 'db \<Rightarrow> db_status \<times> 'db"
  db_get :: "string \<Rightarrow> 'db \<Rightarrow> string + 'v"
  db_compact :: "(string \<times> string) option \<Rightarrow> 'db \<Rightarrow> 'db"
  db_iterate :: "'db \<Rightarrow> (string \<times> 'v) list"
  pb_serialize :: "Rec \<Rightarrow> 'v option"
  pb_parse :: "'v \<Rightarrow> Rec option"

definition db_content :: "('db, 'v) leveldb \<Rightarrow> 'db \<Rightarrow> string \<rightharpoonup> 'v" where
  "db_content L d = map_of (db_iterate L d)"

text \<open>
  A call that fails leaves the database as it was or as the call would have left it: a write that
  reports an error may still have reached the log of the database.
\<close>

definition leveldb_ok :: "('db, 'v) leveldb \<Rightarrow> bool" where
  "leveldb_ok L \<longleftrightarrow>
     (\<forall>d. sorted_wrt (<) (map fst (db_iterate L d))) \<and>
     (\<forall>d s d'. db_open L d = (s, d') \<longrightarrow> db_content L d' = db_content L d) \<and>
     (\<forall>k v d d'. db_put L k v d = (None, d') \<longrightarrow> db_content L d' = (db_content L d)(k \<mapsto> v)) \<and>
     (\<forall>k v d e d'. db_put L k v d = (Some e, d') \<longrightarrow>
        db_content L d' = db_content L d \<or> db_content L d' = (db_content L d)(k \<mapsto> v)) \<and>
     (\<forall>ks d d'. db_delete L ks d = (None, d') \<longrightarrow>
        db_content L d' = db_content L d |` (- set ks)) \<and>
     (\<forall>ks d e d'. db_delete L ks d = (Some e, d') \<longrightarrow>
        db_content L d' = db_content L d \<or> db_content L d' = db_content L d |` (- set ks)) \<and>
     (\<forall>k d v. db_get L k d = Inr v \<longleftrightarrow> db_content L d k = Some v) \<and>
     (\<forall>r d. db_content L (db_compact L r d) = db_content L d) \<and>
     (\<forall>r v. pb_serialize L r = Some v \<longrightarrow> pb_parse L v = Some r)"

subsection \<open>The interface\<close>

record State =
  st_metadata :: Metadata
  st_begin :: u64
  st_end :: u64
  st_learned :: "u64 set"
  st_unlearned :: "u64 set"

record 's storage_ops =
  st_restore :: "'s \<Rightarrow> State outcome \<times> 's"
  st_persist_metadata :: "Metadata \<Rightarrow> 's \<Rightarrow> unit outcome \<times> 's"
  st_persist_action :: "Action \<Rightarrow> 's \<Rightarrow> unit outcome \<times> 's"
  st_read :: "u64 \<Rightarrow> 's \<Rightarrow> Action outcome"

subsection \<open>The implementation on LevelDB\<close>

record ('db, 'v) LevelDBStorage =
  db_api :: "('db, 'v) leveldb"
  db :: 'db
  first :: "u64 option"
  autoCompact :: bool

definition new_LevelDBStorage ::
  "('db, 'v) leveldb \<Rightarrow> 'db \<Rightarrow> string option \<Rightarrow> ('db, 'v) LevelDBStorage" where
  "new_LevelDBStorage L d disableAutoCompact =
     \<lparr>db_api = L, db = d, first = None,
      autoCompact =
        (if (case disableAutoCompact of None \<Rightarrow> ''0'' | Some v \<Rightarrow> v) = ''1'' then False else True)\<rparr>"

text \<open>\<open>min(const Option<T>& left, const T& right)\<close> of stout.\<close>

definition min_option :: "u64 option \<Rightarrow> u64 \<Rightarrow> u64" where
  "min_option l r = (case l of None \<Rightarrow> r | Some x \<Rightarrow> min x r)"

text \<open>\<open>BytewiseComparator()->Compare(encode(p), encode(q))\<close> is negative, and is zero.\<close>

definition encode_less :: "u64 \<Rightarrow> u64 \<Rightarrow> bool" where
  "encode_less p q =
     (case (encode p True, encode q True) of (Ok k, Ok l) \<Rightarrow> k < l | _ \<Rightarrow> False)"

definition encode_same :: "u64 \<Rightarrow> u64 \<Rightarrow> bool" where
  "encode_same p q =
     (case (encode p True, encode q True) of (Ok k, Ok l) \<Rightarrow> k = l | _ \<Rightarrow> False)"

definition encode_checks :: bool where
  "encode_checks \<longleftrightarrow>
     encode_less 1 2 \<and> encode_less 1 2 \<and> encode_less 1 10 \<and> encode_less 2 10 \<and>
     encode_same 10 10 \<and> encode_less 9999999998 9999999999 \<and>
     encode_less 9999999999 10000000000 \<and> encode_less 10000000000 (max_u64 - 2) \<and>
     encode_less (max_u64 - 2) (max_u64 - 1)"

definition restore_action :: "Action \<Rightarrow> State \<Rightarrow> State" where
  "restore_action a st =
     (let st =
        (if is_learned a then
           (let st = st\<lparr>st_learned := insert (position a) (st_learned st),
                       st_unlearned := st_unlearned st - {position a}\<rparr> in
            if is_truncate a then st\<lparr>st_begin := max (st_begin st) (truncate_to a)\<rparr>
            else if is_tombstone a then st\<lparr>st_begin := max (st_begin st) (position a + 1)\<rparr>
            else st)
         else st\<lparr>st_learned := st_learned st - {position a},
                 st_unlearned := insert (position a) (st_unlearned st)\<rparr>) in
      st\<lparr>st_end := max (st_end st) (position a)\<rparr>)"

text \<open>The body of the loop. \<open>rec_promise\<close> is the proposal of the deprecated promise record.\<close>

definition restore_record ::
  "Rec \<Rightarrow> State \<times> u64 option \<Rightarrow> (State \<times> u64 option) outcome" where
  "restore_record r = (\<lambda>(st, f).
     case rec_type r of
       METADATA \<Rightarrow>
         (case rec_metadata r of None \<Rightarrow> Abort | Some m \<Rightarrow> Ok (st\<lparr>st_metadata := m\<rparr>, f))
     | PROMISE \<Rightarrow>
         (case rec_promise r of None \<Rightarrow> Abort
          | Some p \<Rightarrow> Ok (st\<lparr>st_metadata := \<lparr>meta_status = VOTING, meta_promised = p\<rparr>\<rparr>, f))
     | ACTION \<Rightarrow>
         (case rec_action r of None \<Rightarrow> Abort
          | Some a \<Rightarrow> Ok (restore_action a st, Some (min_option f (position a)))))"

fun restore_loop ::
  "('v \<Rightarrow> Rec option) \<Rightarrow> (string \<times> 'v) list \<Rightarrow> State \<times> u64 option \<Rightarrow>
   (State outcome) \<times> u64 option" where
  "restore_loop parse [] sf = (Ok (fst sf), snd sf)"
| "restore_loop parse (kv # kvs) sf =
     (case parse (snd kv) of
        None \<Rightarrow> (Error ''Failed to deserialize record'', snd sf)
      | Some r \<Rightarrow>
          (case restore_record r sf of
             Ok sf' \<Rightarrow> restore_loop parse kvs sf'
           | Error e \<Rightarrow> (Error e, snd sf)
           | Abort \<Rightarrow> (Abort, snd sf)))"

definition initial_state :: State where
  "initial_state = \<lparr>st_metadata = new_metadata, st_begin = 0, st_end = 0,
                    st_learned = {}, st_unlearned = {}\<rparr>"

definition leveldb_restore ::
  "('db, 'v) LevelDBStorage \<Rightarrow> State outcome \<times> ('db, 'v) LevelDBStorage" where
  "leveldb_restore s =
     (if \<not> encode_checks then (Abort, s)
      else
        (case db_open (db_api s) (db s) of
           (Some e, d) \<Rightarrow> (Error e, s\<lparr>db := d\<rparr>)
         | (None, d) \<Rightarrow>
             (let d = db_compact (db_api s) None d;
                  (st, f) = restore_loop (pb_parse (db_api s)) (db_iterate (db_api s) d)
                              (initial_state, first s) in
              (st, s\<lparr>db := d, first := f\<rparr>))))"

definition metadata_record :: "Metadata \<Rightarrow> Rec" where
  "metadata_record m =
     \<lparr>rec_type = METADATA, rec_promise = None, rec_action = None, rec_metadata = Some m\<rparr>"

definition action_record :: "Action \<Rightarrow> Rec" where
  "action_record a =
     \<lparr>rec_type = ACTION, rec_promise = None, rec_action = Some a, rec_metadata = None\<rparr>"

definition leveldb_persist_metadata ::
  "Metadata \<Rightarrow> ('db, 'v) LevelDBStorage \<Rightarrow> unit outcome \<times> ('db, 'v) LevelDBStorage" where
  "leveldb_persist_metadata m s =
     (case pb_serialize (db_api s) (metadata_record m) of
        None \<Rightarrow> (Error ''Failed to serialize record'', s)
      | Some v \<Rightarrow>
          (case encode 0 False of
             Ok k \<Rightarrow>
               (case db_put (db_api s) k v (db s) of
                  (Some e, d) \<Rightarrow> (Error e, s\<lparr>db := d\<rparr>)
                | (None, d) \<Rightarrow> (Ok (), s\<lparr>db := d\<rparr>))
           | Error e \<Rightarrow> (Error e, s)
           | Abort \<Rightarrow> (Abort, s)))"

text \<open>The keys the loop adds to the batch, from index \<open>i\<close> on.\<close>

function batch_keys :: "u64 \<Rightarrow> u64 \<Rightarrow> u64 \<Rightarrow> string list outcome" where
  "batch_keys f t i =
     (if f + i < t then
        bind_outcome (encode (f + i) True) (\<lambda>k.
          bind_outcome (batch_keys f t (i + 1)) (\<lambda>ks. Ok (k # ks)))
      else Ok [])"
  by pat_completeness auto

termination
proof (relation "measure (\<lambda>(f, t, i). unat t - unat (f + i))")
  fix f t i :: u64
  assume lt: "f + i < t"
  then have "f + i \<noteq> max_u64"
    using leD [OF u64_le_max [of t]] by metis
  then have "unat (f + i + 1) = Suc (unat (f + i))"
    by (rule unat_u64_succ)
  moreover have "f + (i + 1) = f + i + 1"
    by (rule add.assoc [symmetric])
  ultimately have "unat (f + (i + 1)) = Suc (unat (f + i))"
    by (rule subst [where P = "\<lambda>x. unat x = Suc (unat (f + i))", OF sym, rotated])
  moreover have "unat (f + i) < unat t"
    using lt by (simp only: word_less_nat_alt)
  ultimately show "((f, t, i + 1), (f, t, i)) \<in> measure (\<lambda>(f, t, i). unat t - unat (f + i))"
    by simp
qed simp

declare batch_keys.simps [simp del]

definition compactRange ::
  "u64 \<Rightarrow> u64 \<Rightarrow> ('db, 'v) LevelDBStorage \<Rightarrow> unit outcome \<times> ('db, 'v) LevelDBStorage" where
  "compactRange f l s =
     (case (encode f True, encode l True) of
        (Ok k, Ok k') \<Rightarrow> (Ok (), s\<lparr>db := db_compact (db_api s) (Some (k, k')) (db s)\<rparr>)
      | _ \<Rightarrow> (Abort, s))"

text \<open>The deletion of the truncated positions at the end of \<open>persist(action)\<close>.\<close>

definition delete_truncated ::
  "u64 \<Rightarrow> ('db, 'v) LevelDBStorage \<Rightarrow> unit outcome \<times> ('db, 'v) LevelDBStorage" where
  "delete_truncated t s =
     (case first s of
        None \<Rightarrow> (Abort, s)
      | Some f \<Rightarrow>
          (case batch_keys f t 0 of
             Ok ks \<Rightarrow>
               (if ks \<noteq> [] then
                  (case db_delete (db_api s) ks (db s) of
                     (Some e, d) \<Rightarrow> (Ok (), s\<lparr>db := d\<rparr>)
                   | (None, d) \<Rightarrow>
                       (let s = s\<lparr>db := d\<rparr> in
                        if \<not> f < t then (Abort, s)
                        else
                          (case (if autoCompact s then compactRange f (t - 1) s else (Ok (), s)) of
                             (Ok _, s) \<Rightarrow> (Ok (), s\<lparr>first := Some t\<rparr>)
                           | r \<Rightarrow> r)))
                else (Ok (), s))
           | Error e \<Rightarrow> (Error e, s)
           | Abort \<Rightarrow> (Abort, s)))"

definition leveldb_persist_action ::
  "Action \<Rightarrow> ('db, 'v) LevelDBStorage \<Rightarrow> unit outcome \<times> ('db, 'v) LevelDBStorage" where
  "leveldb_persist_action a s =
     (case pb_serialize (db_api s) (action_record a) of
        None \<Rightarrow> (Error ''Failed to serialize record'', s)
      | Some v \<Rightarrow>
          (case encode (position a) True of
             Ok k \<Rightarrow>
               (case db_put (db_api s) k v (db s) of
                  (Some e, d) \<Rightarrow> (Error e, s\<lparr>db := d\<rparr>)
                | (None, d) \<Rightarrow>
                    (let s = s\<lparr>db := d, first := Some (min_option (first s) (position a))\<rparr> in
                     if is_truncate a \<and> is_learned a then
                       (if action_truncate a = None then (Abort, s)
                        else delete_truncated (truncate_to a) s)
                     else if is_tombstone a \<and> is_learned a then delete_truncated (position a) s
                     else (Ok (), s)))
           | Error e \<Rightarrow> (Error e, s)
           | Abort \<Rightarrow> (Abort, s)))"

definition leveldb_read :: "u64 \<Rightarrow> ('db, 'v) LevelDBStorage \<Rightarrow> Action outcome" where
  "leveldb_read p s =
     bind_outcome (encode p True) (\<lambda>k.
       case db_get (db_api s) k (db s) of
         Inl e \<Rightarrow> Error e
       | Inr v \<Rightarrow>
           (case pb_parse (db_api s) v of
              None \<Rightarrow> Error ''Failed to deserialize record''
            | Some r \<Rightarrow>
                if rec_type r \<noteq> ACTION then Error ''Bad record''
                else Ok (case rec_action r of Some a \<Rightarrow> a | None \<Rightarrow> new_action 0 0)))"

definition LevelDBStorage_ops :: "('db, 'v) LevelDBStorage storage_ops" where
  "LevelDBStorage_ops =
     \<lparr>st_restore = leveldb_restore, st_persist_metadata = leveldb_persist_metadata,
      st_persist_action = leveldb_persist_action, st_read = leveldb_read\<rparr>"

subsection \<open>What a storage holds\<close>

text \<open>The record of a position, the metadata, and the truncation an action stands for.\<close>

definition record_in :: "('v \<Rightarrow> Rec option) \<Rightarrow> (string \<rightharpoonup> 'v) \<Rightarrow> string \<Rightarrow> Rec option" where
  "record_in parse m k = Option.bind (m k) parse"

definition view_in :: "('v \<Rightarrow> Rec option) \<Rightarrow> (string \<rightharpoonup> 'v) \<Rightarrow> u64 \<Rightarrow> Action option" where
  "view_in parse m p =
     (if p = max_u64 then None else Option.bind (record_in parse m (akey p)) rec_action)"

definition record_metadata :: "Rec option \<Rightarrow> Metadata" where
  "record_metadata ro =
     (case ro of
        None \<Rightarrow> new_metadata
      | Some r \<Rightarrow>
          (case (rec_type r, rec_metadata r, rec_promise r) of
             (METADATA, Some m, _) \<Rightarrow> m
           | (PROMISE, _, Some p) \<Rightarrow> \<lparr>meta_status = VOTING, meta_promised = p\<rparr>
           | _ \<Rightarrow> new_metadata))"

definition meta_in :: "('v \<Rightarrow> Rec option) \<Rightarrow> (string \<rightharpoonup> 'v) \<Rightarrow> Metadata" where
  "meta_in parse m = record_metadata (record_in parse m (key 0))"

definition leveldb_view :: "('db, 'v) LevelDBStorage \<Rightarrow> u64 \<Rightarrow> Action option" where
  "leveldb_view s = view_in (pb_parse (db_api s)) (db_content (db_api s) (db s))"

definition leveldb_meta :: "('db, 'v) LevelDBStorage \<Rightarrow> Metadata" where
  "leveldb_meta s = meta_in (pb_parse (db_api s)) (db_content (db_api s) (db s))"

definition truncation :: "Action \<Rightarrow> u64" where
  "truncation a =
     (if is_learned a then
        (if is_truncate a then truncate_to a else if is_tombstone a then position a + 1 else 0)
      else 0)"

text \<open>The positions an action makes the storage delete: those below \<open>deletion a\<close>.\<close>

definition deletion :: "Action \<Rightarrow> u64" where
  "deletion a =
     (if is_learned a then
        (if is_truncate a then truncate_to a else if is_tombstone a then position a else 0)
      else 0)"

definition deletes :: "Action \<Rightarrow> bool" where
  "deletes a \<longleftrightarrow> is_learned a \<and> (is_truncate a \<or> is_tombstone a)"

text \<open>What a restart recovers, as a function of the records.\<close>

definition recovered :: "Metadata \<Rightarrow> (u64 \<Rightarrow> Action option) \<Rightarrow> State" where
  "recovered m view =
     \<lparr>st_metadata = m,
      st_begin = Max (insert 0 (truncation ` ran view)),
      st_end = Max (insert 0 (dom view)),
      st_learned = {p. \<exists>a. view p = Some a \<and> is_learned a},
      st_unlearned = {p. \<exists>a. view p = Some a \<and> \<not> is_learned a}\<rparr>"

text \<open>
  The database holds a metadata or promise record under the key of 0 and the actions under the
  keys of their adjusted positions.
\<close>

definition record_ok :: "string \<Rightarrow> Rec \<Rightarrow> bool" where
  "record_ok k r \<longleftrightarrow>
     (case rec_type r of
        METADATA \<Rightarrow> k = key 0 \<and> rec_metadata r \<noteq> None
      | PROMISE \<Rightarrow> k = key 0 \<and> rec_promise r \<noteq> None
      | ACTION \<Rightarrow>
          (case rec_action r of
             None \<Rightarrow> False
           | Some a \<Rightarrow> position a \<noteq> max_u64 \<and> k = akey (position a)))"

definition content_ok :: "('v \<Rightarrow> Rec option) \<Rightarrow> (string \<rightharpoonup> 'v) \<Rightarrow> bool" where
  "content_ok parse m \<longleftrightarrow> (\<forall>k v. m k = Some v \<longrightarrow> (\<exists>r. parse v = Some r \<and> record_ok k r))"

definition leveldb_valid :: "('db, 'v) LevelDBStorage \<Rightarrow> bool" where
  "leveldb_valid s \<longleftrightarrow>
     leveldb_ok (db_api s) \<and>
     content_ok (pb_parse (db_api s)) (db_content (db_api s) (db s))"

definition leveldb_reopen :: "('db, 'v) LevelDBStorage \<Rightarrow> ('db, 'v) LevelDBStorage" where
  "leveldb_reopen s = s\<lparr>first := None\<rparr>"

subsection \<open>The contract of the interface\<close>

definition wf_action :: "Action \<Rightarrow> bool" where
  "wf_action a \<longleftrightarrow>
     position a \<noteq> max_u64 \<and> (is_truncate a \<and> is_learned a \<longrightarrow> action_truncate a \<noteq> None)"

locale log_storage =
  fixes ops :: "'s storage_ops"
    and reopen :: "'s \<Rightarrow> 's"
    and valid :: "'s \<Rightarrow> bool"
    and view :: "'s \<Rightarrow> u64 \<Rightarrow> Action option"
    and meta :: "'s \<Rightarrow> Metadata"
  assumes read_law:
    "valid s \<Longrightarrow> p \<noteq> max_u64 \<Longrightarrow>
     (case view s p of Some a \<Rightarrow> st_read ops p s = Ok a | None \<Rightarrow> \<exists>e. st_read ops p s = Error e)"
    and view_position: "valid s \<Longrightarrow> view s p = Some a \<Longrightarrow> position a = p \<and> p \<noteq> max_u64"
    and persist_action_law:
    "valid s \<Longrightarrow> wf_action a \<Longrightarrow> st_persist_action ops a s = (r, s') \<Longrightarrow>
     r \<noteq> Abort \<and> valid s' \<and> meta s' = meta s \<and>
     (r = Ok () \<longrightarrow>
        (\<exists>D. (\<forall>p\<in>D. p < deletion a) \<and> view s' = (view s)(position a \<mapsto> a) |` (- D))) \<and>
     (r \<noteq> Ok () \<longrightarrow> view s' = view s \<or> view s' = (view s)(position a \<mapsto> a))"
    and persist_metadata_law:
    "valid s \<Longrightarrow> st_persist_metadata ops m s = (r, s') \<Longrightarrow>
     r \<noteq> Abort \<and> valid s' \<and> view s' = view s \<and>
     (r = Ok () \<longrightarrow> meta s' = m) \<and> (r \<noteq> Ok () \<longrightarrow> meta s' = meta s \<or> meta s' = m)"
    and restore_law:
    "valid s \<Longrightarrow> st_restore ops (reopen s) = (rs, s') \<Longrightarrow>
     rs \<noteq> Abort \<and>
     (\<forall>st. rs = Ok st \<longrightarrow>
        st = recovered (meta s) (view s) \<and> valid s' \<and> view s' = view s \<and> meta s' = meta s)"

subsection \<open>Contents of the database\<close>

lemma view_in_action:
  assumes "parse v = Some (action_record a)" "position a \<noteq> max_u64"
  shows "view_in parse (m(akey (position a) \<mapsto> v)) = (view_in parse m)(position a \<mapsto> a)"
  using assms by (auto simp: view_in_def record_in_def fun_eq_iff action_record_def)

lemma meta_in_action:
  "q \<noteq> max_u64 \<Longrightarrow> meta_in parse (m(akey q \<mapsto> v)) = meta_in parse m"
  by (simp add: meta_in_def record_in_def)

lemma view_in_metadata: "view_in parse (m(key 0 \<mapsto> v)) = view_in parse m"
  by (auto simp: view_in_def record_in_def fun_eq_iff)

lemma meta_in_metadata:
  "parse v = Some (metadata_record x) \<Longrightarrow> meta_in parse (m(key 0 \<mapsto> v)) = x"
  by (simp add: meta_in_def record_in_def record_metadata_def metadata_record_def)

lemma view_in_delete:
  assumes "\<forall>p\<in>D. p \<noteq> max_u64" and "K = (\<lambda>p. akey p) ` D"
  shows "view_in parse (m |` (- K)) = view_in parse m |` (- D)"
  using assms by (auto simp: view_in_def record_in_def fun_eq_iff restrict_map_def)

lemma meta_in_delete:
  assumes "\<forall>p\<in>D. p \<noteq> max_u64" and "K = (\<lambda>p. akey p) ` D"
  shows "meta_in parse (m |` (- K)) = meta_in parse m"
proof -
  have "key 0 \<notin> K"
    using assms akey_not_key0 by (metis image_iff)
  then show ?thesis
    by (simp add: meta_in_def record_in_def restrict_map_def)
qed

lemma content_ok_upd:
  "content_ok parse m \<Longrightarrow> parse v = Some r \<Longrightarrow> record_ok k r \<Longrightarrow> content_ok parse (m(k \<mapsto> v))"
  by (auto simp: content_ok_def)

lemma content_ok_restrict: "content_ok parse m \<Longrightarrow> content_ok parse (m |` A)"
  by (auto simp: content_ok_def restrict_map_def)

lemma record_ok_action: "position a \<noteq> max_u64 \<Longrightarrow> record_ok (akey (position a)) (action_record a)"
  by (simp add: record_ok_def action_record_def)

lemma record_ok_metadata: "record_ok (key 0) (metadata_record m)"
  by (simp add: record_ok_def metadata_record_def)

lemma view_in_position:
  assumes "content_ok parse m" and "view_in parse m p = Some a"
  shows "position a = p \<and> p \<noteq> max_u64"
proof -
  obtain v r where m: "m (akey p) = Some v" and r: "parse v = Some r" "rec_action r = Some a"
    and p: "p \<noteq> max_u64"
    using assms(2) by (auto simp: view_in_def record_in_def bind_eq_Some_conv split: if_splits)
  have "record_ok (akey p) r"
    using assms(1) m r unfolding content_ok_def by (metis option.inject)
  then show ?thesis
    using p r by (auto simp: record_ok_def split: RecordType.splits option.splits)
qed

lemma recovered_action:
  assumes "view (position a) = None"
  shows "restore_action a (recovered m view) = recovered m (view(position a \<mapsto> a))"
proof -
  have Max_ins: "Max (insert 0 (insert x S)) = max (Max (insert 0 S)) x" for x and S :: "u64 set"
    using Max_insert [of "insert 0 S" x] by (simp add: insert_commute max.commute)
  have max0: "max b 0 = b" for b :: u64
    by (simp add: max_def)
  have b: "st_begin (recovered m (view(position a \<mapsto> a))) = max (st_begin (recovered m view)) (truncation a)"
    using assms by (simp add: recovered_def ran_map_upd Max_ins)
  have e: "st_end (recovered m (view(position a \<mapsto> a))) = max (st_end (recovered m view)) (position a)"
    by (simp add: recovered_def Max_ins)
  have l: "st_learned (recovered m (view(position a \<mapsto> a))) =
      (if is_learned a then insert (position a) (st_learned (recovered m view))
       else st_learned (recovered m view) - {position a})"
    and u: "st_unlearned (recovered m (view(position a \<mapsto> a))) =
      (if is_learned a then st_unlearned (recovered m view) - {position a}
       else insert (position a) (st_unlearned (recovered m view)))"
    using assms by (auto simp: recovered_def)
  have "st_metadata (recovered m (view(position a \<mapsto> a))) = m" "st_metadata (recovered m view) = m"
    by (simp_all add: recovered_def)
  then show ?thesis
    using b e l u by (simp add: restore_action_def truncation_def max0 Let_def)
qed

lemma restore_loop_append:
  "restore_loop parse (xs @ ys) sf =
     (case restore_loop parse xs sf of
        (Ok st, f) \<Rightarrow> restore_loop parse ys (st, f)
      | r \<Rightarrow> r)"
  by (induction xs arbitrary: sf) (auto split: option.splits outcome.splits)

lemma restore_record_ok:
  assumes ok: "parse v = Some r" "record_ok k r" and new: "m k = None"
    and rec: "content_ok parse m"
  shows "\<exists>f'. restore_record r (recovered (meta_in parse m) (view_in parse m), f) =
    Ok (recovered (meta_in parse (m(k \<mapsto> v))) (view_in parse (m(k \<mapsto> v))), f')"
proof (cases "rec_type r")
  case ACTION
  then obtain a where a: "rec_action r = Some a" "position a \<noteq> max_u64" "k = akey (position a)"
    using ok by (auto simp: record_ok_def split: option.splits)
  have "view_in parse (m(k \<mapsto> v)) = (view_in parse m)(position a \<mapsto> a)"
    using ok a by (auto simp: view_in_def record_in_def fun_eq_iff)
  moreover have "view_in parse m (position a) = None"
    using a new by (simp add: view_in_def record_in_def)
  ultimately show ?thesis
    using ACTION a by (simp add: restore_record_def recovered_action meta_in_action)
qed (use ok new in \<open>auto simp: record_ok_def restore_record_def view_in_metadata meta_in_def
      record_in_def record_metadata_def recovered_def split: option.splits\<close>)

lemma restore_loop_recovered:
  assumes "content_ok parse (map_of kvs)" and "distinct (map fst kvs)"
  shows "\<exists>f'. restore_loop parse kvs (initial_state, f) =
    (Ok (recovered (meta_in parse (map_of kvs)) (view_in parse (map_of kvs))), f')"
  using assms
proof (induction kvs rule: rev_induct)
  case Nil
  have "view_in parse Map.empty = Map.empty" "meta_in parse Map.empty = new_metadata"
    by (auto simp: view_in_def meta_in_def record_in_def record_metadata_def)
  then show ?case
    by (simp add: recovered_def initial_state_def)
next
  case (snoc kv kvs)
  obtain k v where kv: "kv = (k, v)"
    by (cases kv)
  have new: "map_of kvs k = None"
    using snoc.prems kv by (auto simp: map_of_eq_None_iff)
  have map: "map_of (kvs @ [kv]) = (map_of kvs)(k \<mapsto> v)"
    using new kv by (auto simp: map_add_def fun_eq_iff split: option.splits)
  have ok: "content_ok parse (map_of kvs)"
    using snoc.prems(1) new unfolding map content_ok_def by (metis fun_upd_apply option.distinct(1))
  obtain r where r: "parse v = Some r" "record_ok k r"
    using snoc.prems(1) unfolding map content_ok_def by (metis fun_upd_same)
  obtain f' where IH: "restore_loop parse kvs (initial_state, f) =
      (Ok (recovered (meta_in parse (map_of kvs)) (view_in parse (map_of kvs))), f')"
    using snoc ok by auto
  obtain f'' where "restore_record r (recovered (meta_in parse (map_of kvs)) (view_in parse (map_of kvs)), f') =
      Ok (recovered (meta_in parse ((map_of kvs)(k \<mapsto> v))) (view_in parse ((map_of kvs)(k \<mapsto> v))), f'')"
    using restore_record_ok [OF r new ok] by blast
  then have "restore_loop parse (kvs @ [kv]) (initial_state, f) =
      (Ok (recovered (meta_in parse ((map_of kvs)(k \<mapsto> v))) (view_in parse ((map_of kvs)(k \<mapsto> v)))), f'')"
    using IH r(1) kv by (simp add: restore_loop_append)
  then show ?case
    unfolding map by blast
qed

subsection \<open>LevelDBStorage keeps the contract\<close>

lemma leveldb_ok_sorted: "leveldb_ok L \<Longrightarrow> sorted_wrt (<) (map fst (db_iterate L d))"
  by (simp add: leveldb_ok_def)

lemma leveldb_ok_open: "leveldb_ok L \<Longrightarrow> db_open L d = (st, d') \<Longrightarrow> db_content L d' = db_content L d"
  by (simp add: leveldb_ok_def)

lemma leveldb_ok_put:
  "leveldb_ok L \<Longrightarrow> db_put L k v d = (None, d') \<Longrightarrow> db_content L d' = (db_content L d)(k \<mapsto> v)"
  by (simp add: leveldb_ok_def)

lemma leveldb_ok_put_error:
  "leveldb_ok L \<Longrightarrow> db_put L k v d = (Some e, d') \<Longrightarrow>
   db_content L d' = db_content L d \<or> db_content L d' = (db_content L d)(k \<mapsto> v)"
  by (simp add: leveldb_ok_def)

lemma leveldb_ok_delete:
  "leveldb_ok L \<Longrightarrow> db_delete L ks d = (None, d') \<Longrightarrow>
   db_content L d' = db_content L d |` (- set ks)"
  by (simp add: leveldb_ok_def)

lemma leveldb_ok_delete_error:
  "leveldb_ok L \<Longrightarrow> db_delete L ks d = (Some e, d') \<Longrightarrow>
   db_content L d' = db_content L d \<or> db_content L d' = db_content L d |` (- set ks)"
  by (simp add: leveldb_ok_def)

lemma leveldb_ok_get: "leveldb_ok L \<Longrightarrow> db_get L k d = Inr v \<longleftrightarrow> db_content L d k = Some v"
  by (simp add: leveldb_ok_def)

lemma leveldb_ok_compact [simp]: "leveldb_ok L \<Longrightarrow> db_content L (db_compact L r d) = db_content L d"
  by (simp add: leveldb_ok_def)

lemma leveldb_ok_parse: "leveldb_ok L \<Longrightarrow> pb_serialize L r = Some v \<Longrightarrow> pb_parse L v = Some r"
  by (simp add: leveldb_ok_def)

lemmas storage_simps = leveldb_valid_def leveldb_view_def leveldb_meta_def

lemma encode_checks: "encode_checks"
  unfolding encode_checks_def encode_less_def encode_same_def encode_True akey_def
  by (simp add: key_less_iff word_less_nat_alt)

lemma batch_keys_ok:
  "\<exists>ks. batch_keys f t i = Ok ks \<and> set ks = akey ` {p. f + i \<le> p \<and> p < t}"
proof (induction f t i rule: batch_keys.induct)
  case (1 f t i)
  show ?case
  proof (cases "f + i < t")
    case True
    have nmax: "f + i \<noteq> max_u64"
      using True leD [OF u64_le_max [of t]] by metis
    then have k: "encode (f + i) True = Ok (akey (f + i))"
      by (simp only: encode_True if_False)
    obtain ks where ks: "batch_keys f t (i + 1) = Ok ks"
      "set ks = akey ` {p. f + (i + 1) \<le> p \<and> p < t}"
      using "1.IH" [OF True] by blast
    have "f + i + 1 \<le> p \<longleftrightarrow> f + i < p" for p
      using nmax by (rule u64_succ_le_iff)
    then have "{p. f + i \<le> p \<and> p < t} = insert (f + i) {p. f + (i + 1) \<le> p \<and> p < t}"
      unfolding add.assoc [symmetric] using True by (auto simp only: order_le_less)
    then have "set (akey (f + i) # ks) = akey ` {p. f + i \<le> p \<and> p < t}"
      by (simp only: image_insert list.set ks(2))
    moreover have "batch_keys f t i = Ok (akey (f + i) # ks)"
      unfolding batch_keys.simps [of f t i] k ks(1) bind_outcome.simps if_P [OF True] ..
    ultimately show ?thesis
      by blast
  next
    case False
    then have "{p. f + i \<le> p \<and> p < t} = {}"
      using order_le_less_trans by blast
    moreover have "batch_keys f t i = Ok []"
      unfolding batch_keys.simps [of f t i] if_not_P [OF False] ..
    ultimately show ?thesis
      by (metis image_empty list.set(1))
  qed
qed

lemma below_not_max: "p < t \<Longrightarrow> p \<noteq> max_u64"
  using leD [OF u64_le_max] by metis

lemma leveldb_persist_put:
  assumes v: "leveldb_valid s" and d:
    "db_content (db_api s) d = (db_content (db_api s) (db s))(akey (position a) \<mapsto> v)"
    and ser: "pb_serialize (db_api s) (action_record a) = Some v" and pos: "position a \<noteq> max_u64"
  shows "leveldb_valid (s\<lparr>db := d, first := f\<rparr>)"
    and "leveldb_meta (s\<lparr>db := d, first := f\<rparr>) = leveldb_meta s"
    and "leveldb_view (s\<lparr>db := d, first := f\<rparr>) = (leveldb_view s)(position a \<mapsto> a)"
proof -
  have L: "leveldb_ok (db_api s)" and c: "content_ok (pb_parse (db_api s)) (db_content (db_api s) (db s))"
    using v by (simp_all add: leveldb_valid_def)
  have p: "pb_parse (db_api s) v = Some (action_record a)"
    by (rule leveldb_ok_parse [OF L ser])
  show "leveldb_valid (s\<lparr>db := d, first := f\<rparr>)"
    using L content_ok_upd [OF c p record_ok_action [OF pos]] by (simp add: leveldb_valid_def d)
  show "leveldb_meta (s\<lparr>db := d, first := f\<rparr>) = leveldb_meta s"
    by (simp add: leveldb_meta_def d meta_in_action [OF pos])
  show "leveldb_view (s\<lparr>db := d, first := f\<rparr>) = (leveldb_view s)(position a \<mapsto> a)"
    by (simp add: leveldb_view_def d view_in_action [where parse = "pb_parse (db_api s)", OF p pos])
qed

lemma leveldb_delete_content:
  assumes v: "leveldb_valid s" and ks: "set ks = akey ` {p. q \<le> p \<and> p < t}"
    and d: "db_content (db_api s) d = db_content (db_api s) (db s) |` (- set ks)"
  shows "leveldb_valid (s\<lparr>db := d, first := f\<rparr>)"
    and "leveldb_meta (s\<lparr>db := d, first := f\<rparr>) = leveldb_meta s"
    and "leveldb_view (s\<lparr>db := d, first := f\<rparr>) = leveldb_view s |` (- {p. q \<le> p \<and> p < t})"
proof -
  have L: "leveldb_ok (db_api s)" and c: "content_ok (pb_parse (db_api s)) (db_content (db_api s) (db s))"
    using v by (simp_all add: leveldb_valid_def)
  have D: "\<forall>p\<in>{p. q \<le> p \<and> p < t}. p \<noteq> max_u64"
    using below_not_max by blast
  show "leveldb_valid (s\<lparr>db := d, first := f\<rparr>)"
    using L content_ok_restrict [OF c] by (simp add: leveldb_valid_def d)
  show "leveldb_meta (s\<lparr>db := d, first := f\<rparr>) = leveldb_meta s"
    by (simp add: leveldb_meta_def d meta_in_delete [OF D ks])
  show "leveldb_view (s\<lparr>db := d, first := f\<rparr>) = leveldb_view s |` (- {p. q \<le> p \<and> p < t})"
    by (simp add: leveldb_view_def d view_in_delete [OF D ks])
qed

lemma compactRange_ok:
  assumes "leveldb_valid s" "p \<noteq> max_u64" "q \<noteq> max_u64"
  shows "\<exists>d. compactRange p q s = (Ok (), s\<lparr>db := d\<rparr>) \<and>
    db_content (db_api s) d = db_content (db_api s) (db s)"
  using assms
  by (intro exI [of _ "db_compact (db_api s) (Some (akey p, akey q)) (db s)"])
    (simp add: compactRange_def encode_True leveldb_valid_def)

text \<open>
  The deletion succeeds, whatever the database answers, and removes the positions from \<open>first\<close> up
  to the truncation or nothing. When the database reports success they are all removed.
\<close>

lemma range_nonempty: "akey ` {p. f \<le> p \<and> p < t} \<noteq> {} \<Longrightarrow> f < t"
  using order_le_less_trans by blast

lemma delete_truncated_ok:
  assumes v: "leveldb_valid s" and f: "first s = Some f" and run: "delete_truncated t s = (r, s')"
  shows "r = Ok () \<and> leveldb_valid s' \<and> leveldb_meta s' = leveldb_meta s \<and>
    (\<exists>A. leveldb_view s' = leveldb_view s |` (- A) \<and> (A = {} \<or> A = {p. f \<le> p \<and> p < t}) \<and>
      ((\<forall>ks d. fst (db_delete (db_api s) ks d) = None) \<longrightarrow> A = {p. f \<le> p \<and> p < t}))"
    (is "_ \<and> _ \<and> _ \<and> ?ex")
proof -
  have L: "leveldb_ok (db_api s)"
    using v by (simp add: leveldb_valid_def)
  have none: "leveldb_view s |` (- {}) = leveldb_view s"
    by (simp add: restrict_map_def)
  obtain ks where ks: "batch_keys f t 0 = Ok ks" "set ks = akey ` {p. f \<le> p \<and> p < t}"
    using batch_keys_ok [of f t 0] by auto
  obtain st d where del: "db_delete (db_api s) ks (db s) = (st, d)"
    by (cases "db_delete (db_api s) ks (db s)")
  consider (empty) "ks = []" | (fails) e where "ks \<noteq> []" "st = Some e" | (works) "ks \<noteq> []" "st = None"
    by blast
  then show ?thesis
  proof cases
    case empty
    then have "{p. f \<le> p \<and> p < t} = {}"
      using ks(2) by (simp only: list.set empty_is_image)
    moreover have "r = Ok ()" "s' = s"
      using empty run f ks(1) by (simp_all add: delete_truncated_def)
    ultimately show ?thesis
      using v none by metis
  next
    case fails
    have run': "r = Ok ()" "s' = s\<lparr>db := d\<rparr>"
      using fails run f ks(1) del by (simp_all add: delete_truncated_def)
    have sel: "s\<lparr>db := d, first := first s\<rparr> = s\<lparr>db := d\<rparr>"
      by (cases s) simp
    have err: "\<not> (\<forall>ks d. fst (db_delete (db_api s) ks d) = None)"
      using del fails by (metis fst_conv option.distinct(1))
    from leveldb_ok_delete_error [OF L del [unfolded fails(2)]] show ?thesis
    proof
      assume "db_content (db_api s) d = db_content (db_api s) (db s)"
      then have "leveldb_valid s'" "leveldb_meta s' = leveldb_meta s" "leveldb_view s' = leveldb_view s"
        using v run' by (simp_all add: storage_simps)
      then show ?thesis
        using run' none err by (intro conjI exI [of _ "{}"]) auto
    next
      assume "db_content (db_api s) d = db_content (db_api s) (db s) |` (- set ks)"
      from leveldb_delete_content [OF v ks(2) this, of "first s", unfolded sel] show ?thesis
        unfolding run' by blast
    qed
  next
    case works
    have "f < t"
      using works(1) by (intro range_nonempty) (simp add: ks(2) [symmetric])
    note nmax = below_not_max [OF this] u64_pred_not_max [OF this]
    have c: "db_content (db_api s) d = db_content (db_api s) (db s) |` (- set ks)"
      using leveldb_ok_delete [OF L] del works(2) by metis
    then have v': "leveldb_valid (s\<lparr>db := d\<rparr>)"
      using leveldb_delete_content(1) [OF v ks(2), of d "first s"] by simp
    obtain d' where d': "db_content (db_api s) d' = db_content (db_api s) d"
      "(if autoCompact s then compactRange f (t - 1) (s\<lparr>db := d\<rparr>) else (Ok (), s\<lparr>db := d\<rparr>)) =
         (Ok (), s\<lparr>db := d'\<rparr>)"
      using compactRange_ok [OF v' nmax] by (cases "autoCompact s") auto
    have "r = Ok ()" "s' = s\<lparr>db := d', first := Some t\<rparr>"
      using run del ks(1) f works \<open>f < t\<close> d'(2) by (simp_all add: delete_truncated_def)
    moreover have "db_content (db_api s) d' = db_content (db_api s) (db s) |` (- set ks)"
      using c d'(1) by simp
    note leveldb_delete_content [OF v ks(2) this, of "Some t"]
    ultimately show ?thesis
      by blast
  qed
qed

lemma leveldb_read_law:
  assumes v: "leveldb_valid s" and p: "p \<noteq> max_u64"
  shows "case leveldb_view s p of
    Some a \<Rightarrow> leveldb_read p s = Ok a | None \<Rightarrow> \<exists>e. leveldb_read p s = Error e"
proof (cases "db_content (db_api s) (db s) (akey p)")
  case None
  then obtain e where "db_get (db_api s) (akey p) (db s) = Inl e"
    using v leveldb_ok_get by (metis leveldb_valid_def option.distinct(1) sum.exhaust)
  with None p show ?thesis
    by (simp add: leveldb_read_def encode_True leveldb_view_def view_in_def record_in_def)
next
  case (Some v)
  then obtain r where r: "pb_parse (db_api s) v = Some r" "record_ok (akey p) r"
    using v by (auto simp: leveldb_valid_def content_ok_def)
  then obtain a where "rec_type r = ACTION" "rec_action r = Some a"
    using p by (auto simp: record_ok_def split: RecordType.splits option.splits)
  moreover have "db_get (db_api s) (akey p) (db s) = Inr v"
    using Some v leveldb_ok_get by (metis leveldb_valid_def)
  ultimately show ?thesis
    using Some r p by (simp add: leveldb_read_def encode_True leveldb_view_def view_in_def record_in_def)
qed

lemma leveldb_persist_action_error:
  assumes v: "leveldb_valid s" and pos: "position a \<noteq> max_u64"
    and run: "leveldb_persist_action a s = (r, s')"
    and fail: "\<And>v d. pb_serialize (db_api s) (action_record a) = Some v \<Longrightarrow>
      db_put (db_api s) (akey (position a)) v (db s) \<noteq> (None, d)"
  shows "r \<noteq> Abort \<and> r \<noteq> Ok () \<and> leveldb_valid s' \<and> leveldb_meta s' = leveldb_meta s \<and>
    (leveldb_view s' = leveldb_view s \<or> leveldb_view s' = (leveldb_view s)(position a \<mapsto> a))"
proof (cases "pb_serialize (db_api s) (action_record a)")
  case None
  then show ?thesis
    using run v by (auto simp: leveldb_persist_action_def)
next
  case (Some x)
  then obtain e d where put: "db_put (db_api s) (akey (position a)) x (db s) = (Some e, d)"
    using fail by (metis option.exhaust surj_pair)
  then have "r = Error e" "s' = s\<lparr>db := d\<rparr>"
    using run Some pos by (simp_all add: leveldb_persist_action_def encode_True)
  moreover have "db_content (db_api s) d = db_content (db_api s) (db s) \<or>
      db_content (db_api s) d = (db_content (db_api s) (db s))(akey (position a) \<mapsto> x)"
    using v put leveldb_ok_put_error by (metis leveldb_valid_def)
  ultimately show ?thesis
    using v leveldb_persist_put [OF v _ Some pos, of d "first s"] by (auto simp: storage_simps)
qed

lemma leveldb_persist_action_put:
  assumes "wf_action a" and "pb_serialize (db_api s) (action_record a) = Some x"
    and "db_put (db_api s) (akey (position a)) x (db s) = (None, d)"
    and "s1 = s\<lparr>db := d, first := Some (min_option (first s) (position a))\<rparr>"
  shows "leveldb_persist_action a s =
    (if deletes a then delete_truncated (deletion a) s1 else (Ok (), s1))"
  using assms unfolding leveldb_persist_action_def deletes_def
  by (auto simp: encode_True deletion_def wf_action_def Let_def)

lemma leveldb_persist_action_law:
  assumes v: "leveldb_valid s" and wf: "wf_action a"
    and run: "leveldb_persist_action a s = (r, s')"
  shows "r \<noteq> Abort \<and> leveldb_valid s' \<and> leveldb_meta s' = leveldb_meta s \<and>
    (r = Ok () \<longrightarrow> (\<exists>D. (\<forall>p\<in>D. p < deletion a) \<and>
        leveldb_view s' = (leveldb_view s)(position a \<mapsto> a) |` (- D))) \<and>
    (r \<noteq> Ok () \<longrightarrow>
        leveldb_view s' = leveldb_view s \<or> leveldb_view s' = (leveldb_view s)(position a \<mapsto> a))"
proof (cases "\<exists>v d. pb_serialize (db_api s) (action_record a) = Some v \<and>
    db_put (db_api s) (akey (position a)) v (db s) = (None, d)")
  case False
  then show ?thesis
    using leveldb_persist_action_error [OF v _ run] wf by (auto simp: wf_action_def)
next
  case True
  then obtain x d where ser: "pb_serialize (db_api s) (action_record a) = Some x"
    and put: "db_put (db_api s) (akey (position a)) x (db s) = (None, d)"
    by blast
  define s1 where "s1 = s\<lparr>db := d, first := Some (min_option (first s) (position a))\<rparr>"
  have pos: "position a \<noteq> max_u64"
    using wf by (simp add: wf_action_def)
  have "db_content (db_api s) d = (db_content (db_api s) (db s))(akey (position a) \<mapsto> x)"
    using v put leveldb_ok_put by (metis leveldb_valid_def)
  note s1 = leveldb_persist_put [OF v this ser pos, of "Some (min_option (first s) (position a))",
      folded s1_def]
  have run1: "(r, s') =
      (if deletes a then delete_truncated (deletion a) s1 else (Ok (), s1))"
    using leveldb_persist_action_put [OF wf ser put s1_def] run by simp
  show ?thesis
  proof (cases "deletes a")
    case False
    then show ?thesis
      using run1 s1 by (auto simp: intro!: exI [of _ "{}"])
  next
    case True
    have "first s1 = Some (min_option (first s) (position a))"
      by (simp add: s1_def)
    moreover have "delete_truncated (deletion a) s1 = (r, s')"
      using run1 True by simp
    ultimately have r: "r = Ok ()" "leveldb_valid s'" "leveldb_meta s' = leveldb_meta s1"
      and "\<exists>A. leveldb_view s' = leveldb_view s1 |` (- A) \<and>
        (A = {} \<or> A = {p. min_option (first s) (position a) \<le> p \<and> p < deletion a})"
      using delete_truncated_ok [OF s1(1), of "min_option (first s) (position a)" "deletion a" r s']
      by (simp_all only: simp_thms) blast
    then obtain A where "leveldb_view s' = leveldb_view s1 |` (- A)" "\<forall>p\<in>A. p < deletion a"
      by blast
    then have "\<exists>D. (\<forall>p\<in>D. p < deletion a) \<and>
        leveldb_view s' = (leveldb_view s)(position a \<mapsto> a) |` (- D)"
      unfolding s1(3) by blast
    then show ?thesis
      using r s1(2) by simp
  qed
qed

lemma leveldb_persist_metadata_law:
  assumes v: "leveldb_valid s" and run: "leveldb_persist_metadata m s = (r, s')"
  shows "r \<noteq> Abort \<and> leveldb_valid s' \<and> leveldb_view s' = leveldb_view s \<and>
    (r = Ok () \<longrightarrow> leveldb_meta s' = m) \<and>
    (r \<noteq> Ok () \<longrightarrow> leveldb_meta s' = leveldb_meta s \<or> leveldb_meta s' = m)"
proof (cases "pb_serialize (db_api s) (metadata_record m)")
  case None
  then show ?thesis
    using run v by (auto simp: leveldb_persist_metadata_def)
next
  case (Some x)
  have L: "leveldb_ok (db_api s)" and c: "content_ok (pb_parse (db_api s)) (db_content (db_api s) (db s))"
    using v by (simp_all add: leveldb_valid_def)
  have p: "pb_parse (db_api s) x = Some (metadata_record m)"
    by (rule leveldb_ok_parse [OF L Some])
  obtain st d where put: "db_put (db_api s) (key 0) x (db s) = (st, d)"
    by fastforce
  then have r: "r = (case st of None \<Rightarrow> Ok () | Some e \<Rightarrow> Error e)" "s' = s\<lparr>db := d\<rparr>"
    using run Some by (auto simp: leveldb_persist_metadata_def encode_False split: option.splits)
  have new: "leveldb_valid s' \<and> leveldb_view s' = leveldb_view s \<and> leveldb_meta s' = m"
    if d: "db_content (db_api s) d = (db_content (db_api s) (db s))(key 0 \<mapsto> x)"
    using L content_ok_upd [OF c p record_ok_metadata] meta_in_metadata [of "pb_parse (db_api s)", OF p]
    by (simp add: r storage_simps d view_in_metadata)
  have old: "leveldb_valid s' \<and> leveldb_view s' = leveldb_view s \<and> leveldb_meta s' = leveldb_meta s"
    if d: "db_content (db_api s) d = db_content (db_api s) (db s)"
    using L c by (simp add: r storage_simps d)
  show ?thesis
  proof (cases st)
    case None
    then show ?thesis
      using new leveldb_ok_put [OF L] put r by auto
  next
    case (Some e)
    then show ?thesis
      using new old leveldb_ok_put_error [OF L] put r by fastforce
  qed
qed

lemma leveldb_restore_run:
  assumes v: "leveldb_valid s" and op: "db_open (db_api s) (db s) = (None, d)"
  shows "\<exists>s'. leveldb_restore s = (Ok (recovered (leveldb_meta s) (leveldb_view s)), s') \<and>
    leveldb_valid s' \<and> leveldb_view s' = leveldb_view s \<and> leveldb_meta s' = leveldb_meta s"
proof -
  have L: "leveldb_ok (db_api s)" and c: "content_ok (pb_parse (db_api s)) (db_content (db_api s) (db s))"
    using v by (simp_all add: leveldb_valid_def)
  define d' where "d' = db_compact (db_api s) None d"
  have d': "db_content (db_api s) d' = db_content (db_api s) (db s)"
    using leveldb_ok_open [OF L op] L by (simp add: d'_def)
  have "distinct (map fst (db_iterate (db_api s) d'))"
    using leveldb_ok_sorted [OF L, of d'] strict_sorted_iff by blast
  from restore_loop_recovered [OF _ this, of "pb_parse (db_api s)" "first s"] c d'
  obtain f' where "restore_loop (pb_parse (db_api s)) (db_iterate (db_api s) d')
      (initial_state, first s) = (Ok (recovered (leveldb_meta s) (leveldb_view s)), f')"
    by (auto simp: db_content_def leveldb_meta_def leveldb_view_def)
  then have "leveldb_restore s =
      (Ok (recovered (leveldb_meta s) (leveldb_view s)), s\<lparr>db := d', first := f'\<rparr>)"
    using op encode_checks by (simp add: leveldb_restore_def d'_def [symmetric] Let_def)
  then show ?thesis
    using L c d' by (simp add: storage_simps)
qed

lemma leveldb_restore_law:
  assumes v: "leveldb_valid s" and run: "leveldb_restore s = (r, s')"
  shows "r \<noteq> Abort \<and>
    (\<forall>st. r = Ok st \<longrightarrow> st = recovered (leveldb_meta s) (leveldb_view s) \<and>
       leveldb_valid s' \<and> leveldb_view s' = leveldb_view s \<and> leveldb_meta s' = leveldb_meta s)"
proof (cases "db_open (db_api s) (db s)")
  case (Pair st d)
  show ?thesis
  proof (cases st)
    case (Some e)
    then show ?thesis
      using run Pair encode_checks by (auto simp: leveldb_restore_def)
  next
    case None
    then show ?thesis
      using leveldb_restore_run [OF v, of d] run Pair by auto
  qed
qed

lemma LevelDBStorage_ops_simps:
  "st_restore LevelDBStorage_ops = leveldb_restore"
  "st_persist_metadata LevelDBStorage_ops = leveldb_persist_metadata"
  "st_persist_action LevelDBStorage_ops = leveldb_persist_action"
  "st_read LevelDBStorage_ops = leveldb_read"
  by (simp_all add: LevelDBStorage_ops_def)

lemma leveldb_view_position:
  "leveldb_valid s \<Longrightarrow> leveldb_view s p = Some a \<Longrightarrow> position a = p \<and> p \<noteq> max_u64"
  unfolding leveldb_valid_def leveldb_view_def using view_in_position by blast

lemma leveldb_reopen_law:
  assumes "leveldb_valid s" and "leveldb_restore (leveldb_reopen s) = (r, s')"
  shows "r \<noteq> Abort \<and>
    (\<forall>st. r = Ok st \<longrightarrow> st = recovered (leveldb_meta s) (leveldb_view s) \<and>
       leveldb_valid s' \<and> leveldb_view s' = leveldb_view s \<and> leveldb_meta s' = leveldb_meta s)"
  using leveldb_restore_law [OF _ assms(2)] assms(1) by (simp add: leveldb_reopen_def storage_simps)

interpretation ldb: log_storage LevelDBStorage_ops leveldb_reopen leveldb_valid leveldb_view leveldb_meta
  by unfold_locales
    (unfold LevelDBStorage_ops_simps,
      (rule leveldb_read_law leveldb_view_position leveldb_persist_action_law
        leveldb_persist_metadata_law leveldb_reopen_law; assumption)+)

subsection \<open>An in-memory database\<close>

text \<open>A concrete database with the documented behaviour, for the examples: calls never fail.\<close>

definition mem_iterate :: "(string \<times> Rec) list \<Rightarrow> (string \<times> Rec) list" where
  "mem_iterate d = map (\<lambda>k. (k, the (map_of d k))) (sort (remdups (map fst d)))"

definition mem_leveldb :: "((string \<times> Rec) list, Rec) leveldb" where
  "mem_leveldb =
     \<lparr>db_open = (\<lambda>d. (None, d)),
      db_put = (\<lambda>k v d. (None, (k, v) # d)),
      db_delete = (\<lambda>ks d. (None, filter (\<lambda>kv. fst kv \<notin> set ks) d)),
      db_get = (\<lambda>k d. case map_of d k of None \<Rightarrow> Inl ''NotFound'' | Some v \<Rightarrow> Inr v),
      db_compact = (\<lambda>_ d. d),
      db_iterate = mem_iterate,
      pb_serialize = Some,
      pb_parse = Some\<rparr>"

lemma map_of_mem_iterate: "map_of (mem_iterate d) = map_of d"
proof
  fix k
  have "map_of (mem_iterate d) k = (if k \<in> fst ` set d then Some (the (map_of d k)) else None)"
    by (simp add: mem_iterate_def map_of_map_restrict restrict_map_def)
  also have "\<dots> = map_of d k"
    using map_of_eq_None_iff [of d k] by auto
  finally show "map_of (mem_iterate d) k = map_of d k" .
qed

lemma map_of_filter_keys: "map_of (filter (\<lambda>kv. fst kv \<notin> A) d) = map_of d |` (- A)"
  by (induction d) (auto simp: restrict_map_def fun_eq_iff)

lemma mem_leveldb_ok: "leveldb_ok mem_leveldb"
proof -
  have "sorted_wrt (<) (map fst (mem_iterate d))" for d
    by (simp add: mem_iterate_def strict_sorted_iff comp_def)
  then show ?thesis
    by (simp add: leveldb_ok_def db_content_def mem_leveldb_def map_of_mem_iterate
        map_of_filter_keys split: option.splits)
qed

definition mem_storage :: "(string \<times> Rec) list \<Rightarrow> ((string \<times> Rec) list, Rec) LevelDBStorage" where
  "mem_storage d = new_LevelDBStorage mem_leveldb d None"

lemma mem_storage_simps [simp]:
  "db_api (mem_storage d) = mem_leveldb" "db (mem_storage d) = d" "first (mem_storage d) = None"
  "autoCompact (mem_storage d)"
  by (simp_all add: mem_storage_def new_LevelDBStorage_def)

lemma mem_storage_valid:
  "(\<forall>(k, r) \<in> set d. record_ok k r) \<Longrightarrow> leveldb_valid (mem_storage d)"
  using mem_leveldb_ok
  by (auto simp: leveldb_valid_def content_ok_def db_content_def mem_leveldb_def map_of_mem_iterate
      dest: map_of_SomeD)

lemmas mem_eval = mem_leveldb_def leveldb_persist_action_def leveldb_read_def encode_True
  leveldb_persist_metadata_def encode_False

subsection \<open>Properties\<close>

text \<open>
  Property C23. An action that was persisted is read back, and the other positions read as before,
  except those that the action truncates. (A learned \<open>TRUNCATE\<close> or tombstone deletes positions
  below its bound and nothing else.)
\<close>

theorem persist_then_read:
  assumes "leveldb_valid s" and "wf_action a" and "leveldb_persist_action a s = (Ok (), s')"
    and "deletion a \<le> q" and "q \<noteq> max_u64"
  shows "leveldb_valid s' \<and>
    (\<forall>b. leveldb_read q s' = Ok b \<longleftrightarrow> (if q = position a then b = a else leveldb_read q s = Ok b))"
proof -
  from leveldb_persist_action_law [OF assms(1-3)] obtain D
    where v: "leveldb_valid s'" and D: "\<forall>p\<in>D. p < deletion a"
      and view: "leveldb_view s' = (leveldb_view s)(position a \<mapsto> a) |` (- D)"
    by auto
  have "q \<notin> D"
    using D assms(4) leD by blast
  then have q: "leveldb_view s' q = ((leveldb_view s)(position a \<mapsto> a)) q"
    unfolding view by (auto simp: restrict_map_def)
  show ?thesis
    using v leveldb_read_law [OF v assms(5)] leveldb_read_law [OF assms(1,5)] q
    by (auto split: option.splits if_splits)
qed

definition sample_truncate :: Action where
  "sample_truncate =
     (new_action 9 1)\<lparr>performed := Some 1, learned := Some True, action_type := Some TRUNCATE,
       action_truncate := Some \<lparr>to = 5\<rparr>\<rparr>"

theorem persist_then_read_witness:
  "leveldb_read 9 (snd (leveldb_persist_action sample_truncate (mem_storage []))) =
     Ok sample_truncate"
proof -
  define s' where "s' = snd (leveldb_persist_action sample_truncate (mem_storage []))"
  have wf: "wf_action sample_truncate" and del: "deletion sample_truncate \<le> 9"
    by (simp_all add: wf_action_def sample_truncate_def deletion_def is_learned_def is_truncate_def
        truncate_to_def word_le_nat_alt)
  have "batch_keys 9 5 0 = Ok []"
    by (subst batch_keys.simps) (simp add: word_less_nat_alt)
  then have "fst (leveldb_persist_action sample_truncate (mem_storage [])) = Ok ()"
    by (simp add: mem_eval sample_truncate_def is_truncate_def is_learned_def truncate_to_def
        delete_truncated_def min_option_def)
  then have run: "leveldb_persist_action sample_truncate (mem_storage []) = (Ok (), s')"
    unfolding s'_def by (metis prod.collapse)
  have "leveldb_read 9 s' = Ok sample_truncate"
    using persist_then_read [OF mem_storage_valid wf run del]
    by (simp add: sample_truncate_def)
  then show ?thesis
    unfolding s'_def .
qed

text \<open>
  A restart loses nothing: the state restored from a database that opens has the
  metadata that was stored, has as learned and unlearned exactly the positions stored as such, the
  largest stored position as its end, and the largest truncation as its beginning.
\<close>

theorem restore_recovers:
  assumes "leveldb_valid s" and "fst (db_open (db_api s) (db s)) = None"
  shows "\<exists>s'. leveldb_restore (leveldb_reopen s) =
           (Ok (recovered (leveldb_meta s) (leveldb_view s)), s') \<and>
         leveldb_valid s' \<and> leveldb_view s' = leveldb_view s \<and> leveldb_meta s' = leveldb_meta s"
proof -
  have "db_open (db_api (leveldb_reopen s)) (db (leveldb_reopen s)) =
      (None, snd (db_open (db_api s) (db s)))"
    using assms(2) by (simp add: leveldb_reopen_def prod_eq_iff)
  from leveldb_restore_run [OF _ this] assms(1) show ?thesis
    by (simp add: leveldb_reopen_def storage_simps)
qed

theorem restore_recovers_witness:
  "fst (leveldb_restore (leveldb_reopen (mem_storage [(akey 9, action_record sample_truncate)]))) =
     Ok \<lparr>st_metadata = new_metadata, st_begin = 5, st_end = 9, st_learned = {9}, st_unlearned = {}\<rparr>"
proof -
  define s where "s = mem_storage [(akey 9, action_record sample_truncate)]"
  have "position sample_truncate = 9"
    by (simp add: sample_truncate_def)
  then have v: "leveldb_valid s"
    unfolding s_def using record_ok_action [of sample_truncate] by (intro mem_storage_valid) simp
  have "fst (db_open (db_api s) (db s)) = None"
    by (simp add: s_def mem_leveldb_def)
  note restored = restore_recovers [OF v this]
  have content: "db_content (db_api s) (db s) = [akey 9 \<mapsto> action_record sample_truncate]"
    by (simp add: s_def db_content_def mem_leveldb_def map_of_mem_iterate)
  have view: "leveldb_view s = [9 \<mapsto> sample_truncate]"
    unfolding leveldb_view_def content
    by (auto simp: s_def mem_leveldb_def view_in_def record_in_def action_record_def)
  have meta: "leveldb_meta s = new_metadata"
    unfolding leveldb_meta_def content
    by (simp add: meta_in_def record_in_def record_metadata_def)
  have "recovered new_metadata [9 \<mapsto> sample_truncate] =
      \<lparr>st_metadata = new_metadata, st_begin = 5, st_end = 9, st_learned = {9}, st_unlearned = {}\<rparr>"
    by (auto simp: recovered_def truncation_def sample_truncate_def is_learned_def is_truncate_def
        truncate_to_def max_def word_le_nat_alt)
  then show ?thesis
    using restored unfolding s_def [symmetric] view meta by auto
qed

text \<open>\<open>first\<close> is a lower bound of the positions in the database.\<close>

definition first_ok :: "('db, 'v) LevelDBStorage \<Rightarrow> bool" where
  "first_ok s \<longleftrightarrow> (\<forall>p. leveldb_view s p \<noteq> None \<longrightarrow> (\<exists>f. first s = Some f \<and> f \<le> p))"

lemma min_option_le:
  "min_option l r \<le> r" "l = Some f \<Longrightarrow> f \<le> p \<Longrightarrow> min_option l r \<le> p"
  by (auto simp: min_option_def split: option.splits) (metis min.coboundedI1)

text \<open>
  When the database does not fail and \<open>first\<close> is a lower bound of the stored
  positions, persisting a learned truncation removes every position below it.
\<close>

theorem truncation_complete:
  assumes v: "leveldb_valid s" and f: "first_ok s" and wf: "wf_action a" and del: "deletes a"
    and run: "leveldb_persist_action a s = (Ok (), s')"
    and works: "\<And>ks d. fst (db_delete (db_api s) ks d) = None"
    and p: "p < deletion a"
  shows "\<nexists>b. leveldb_read p s' = Ok b"
proof -
  have pos: "position a \<noteq> max_u64"
    using wf by (simp add: wf_action_def)
  obtain x d where ser: "pb_serialize (db_api s) (action_record a) = Some x"
    and put: "db_put (db_api s) (akey (position a)) x (db s) = (None, d)"
    using leveldb_persist_action_error [OF v pos run] by blast
  define f1 where "f1 = min_option (first s) (position a)"
  define s1 where "s1 = s\<lparr>db := d, first := Some f1\<rparr>"
  have "db_content (db_api s) d = (db_content (db_api s) (db s))(akey (position a) \<mapsto> x)"
    using v put leveldb_ok_put by (metis leveldb_valid_def)
  note s1 = leveldb_persist_put [OF v this ser pos, of "Some f1", folded s1_def]
  have "delete_truncated (deletion a) s1 = (Ok (), s')" "first s1 = Some f1" "db_api s1 = db_api s"
    using leveldb_persist_action_put [OF wf ser put s1_def [unfolded f1_def]] run del
    by (simp_all add: s1_def)
  then have v': "leveldb_valid s'"
    and view: "leveldb_view s' = leveldb_view s1 |` (- {p. f1 \<le> p \<and> p < deletion a})"
    using delete_truncated_ok [OF s1(1), of f1 "deletion a" "Ok ()" s'] works by auto
  have "leveldb_view s' p = None"
  proof (cases "p = position a \<or> leveldb_view s p \<noteq> None")
    case True
    then have "f1 \<le> p"
      using f min_option_le unfolding first_ok_def f1_def by blast
    then show ?thesis
      using view p by (simp add: restrict_map_def)
  qed (simp add: view s1(3) restrict_map_def)
  then show ?thesis
    using leveldb_read_law [OF v' below_not_max [OF p]] by auto
qed

theorem truncation_complete_witness:
  "\<nexists>b. leveldb_read 3 (snd (leveldb_persist_action sample_truncate (mem_storage []))) = Ok b"
proof (rule truncation_complete)
  show "leveldb_valid (mem_storage [])"
    by (rule mem_storage_valid) simp
  show "first_ok (mem_storage [])"
    by (simp add: first_ok_def leveldb_view_def view_in_def record_in_def db_content_def
        mem_leveldb_def map_of_mem_iterate)
  show "wf_action sample_truncate" "deletes sample_truncate" "3 < deletion sample_truncate"
    by (simp_all add: wf_action_def sample_truncate_def deletion_def deletes_def is_learned_def
        is_truncate_def truncate_to_def word_less_nat_alt)
  have "batch_keys 9 5 0 = Ok []"
    by (subst batch_keys.simps) (simp add: word_less_nat_alt)
  then show "leveldb_persist_action sample_truncate (mem_storage []) =
      (Ok (), snd (leveldb_persist_action sample_truncate (mem_storage [])))"
    by (simp add: mem_eval sample_truncate_def is_truncate_def is_learned_def truncate_to_def
        delete_truncated_def min_option_def)
  show "fst (db_delete (db_api (mem_storage [])) ks d) = None" for ks d
    by (simp add: mem_leveldb_def)
qed

end
