(* ===== verification/Log_Recover.thy ===== *)
theory Log_Recover
  imports Log_Consensus Log_Storage
begin

section \<open>Recovering a replica\<close>

text \<open>
  The processes of \<open>src/log/recover.cpp\<close>: \<open>RecoverProtocolProcess\<close> asks every replica for its
  status and decides the next status of the local one; \<open>RecoverProcess\<close> carries the decision out.
  The responses are taken in the order in which \<open>select\<close> returns them.
\<close>

subsection \<open>The recover protocol\<close>

record RecoverProtocolProcess =
  rp_quorum :: nat
  rp_status :: Status
  rp_autoInitialize :: bool
  rp_responsesReceived :: "Status \<Rightarrow> nat"
  rp_lowestBeginPosition :: "u64 option"
  rp_highestEndPosition :: "u64 option"

definition new_RecoverProtocolProcess :: "nat \<Rightarrow> Status \<Rightarrow> bool \<Rightarrow> RecoverProtocolProcess" where
  "new_RecoverProtocolProcess q st auto =
     \<lparr>rp_quorum = q, rp_status = st, rp_autoInitialize = auto, rp_responsesReceived = (\<lambda>_. 0),
      rp_lowestBeginPosition = None, rp_highestEndPosition = None\<rparr>"

text \<open>\<open>broadcasted\<close>: every run of the protocol starts with fresh counters.\<close>

definition recover_broadcasted :: "RecoverProtocolProcess \<Rightarrow> RecoverProtocolProcess" where
  "recover_broadcasted s =
     s\<lparr>rp_responsesReceived := (\<lambda>_. 0), rp_lowestBeginPosition := None, rp_highestEndPosition := None\<rparr>"

definition max_option :: "u64 option \<Rightarrow> u64 \<Rightarrow> u64" where
  "max_option l r = (case l of None \<Rightarrow> r | Some x \<Rightarrow> max x r)"

definition count_response ::
  "RecoverResponse \<Rightarrow> RecoverProtocolProcess \<Rightarrow> RecoverProtocolProcess outcome" where
  "count_response m s =
     (let s = s\<lparr>rp_responsesReceived := (rp_responsesReceived s)
                  (rr_status m := rp_responsesReceived s (rr_status m) + 1)\<rparr> in
      if rr_status m = VOTING then
        (case (rr_begin m, rr_end m) of
           (Some b, Some e) \<Rightarrow>
             Ok (s\<lparr>rp_lowestBeginPosition := Some (min_option (rp_lowestBeginPosition s) b),
                   rp_highestEndPosition := Some (max_option (rp_highestEndPosition s) e)\<rparr>)
         | _ \<Rightarrow> Abort)
      else Ok s)"

definition plain_response :: "Status \<Rightarrow> RecoverResponse" where
  "plain_response st = \<lparr>rr_status = st, rr_begin = None, rr_end = None\<rparr>"

text \<open>What \<open>received\<close> returns after it counted a response; \<open>None\<close> is the call of \<open>receive\<close>.\<close>

definition decide :: "RecoverProtocolProcess \<Rightarrow> RecoverResponse option outcome" where
  "decide s =
     (let n = rp_responsesReceived s; clusterSize = 2 * rp_quorum s - 1 in
      if rp_quorum s \<le> n VOTING then
        (case (rp_lowestBeginPosition s, rp_highestEndPosition s) of
           (Some b, Some e) \<Rightarrow>
             if e < b then Abort
             else Ok (Some \<lparr>rr_status = RECOVERING, rr_begin = Some b, rr_end = Some e\<rparr>)
         | _ \<Rightarrow> Abort)
      else if rp_autoInitialize s then
        (case rp_status s of
           EMPTY \<Rightarrow>
             if clusterSize \<le> n EMPTY + n STARTING then Ok (Some (plain_response STARTING)) else Ok None
         | STARTING \<Rightarrow>
             if clusterSize \<le> n STARTING + n VOTING then Ok (Some (plain_response VOTING)) else Ok None
         | _ \<Rightarrow> Ok None)
      else Ok None)"

text \<open>\<open>receive\<close> and \<open>received\<close>: none when all responses are used up.\<close>

fun receive ::
  "RecoverResponse list \<Rightarrow> RecoverProtocolProcess \<Rightarrow> RecoverResponse option outcome" where
  "receive [] s = Ok None"
| "receive (m # ms) s =
     bind_outcome (count_response m s) (\<lambda>s.
       bind_outcome (decide s) (\<lambda>r. case r of Some x \<Rightarrow> Ok (Some x) | None \<Rightarrow> receive ms s))"

subsection \<open>The recover process\<close>

text \<open>
  The chain of futures of \<open>RecoverProcess\<close>; \<open>stage\<close> is what it waits for.
\<close>

datatype RecoverStage =
    GetStatus
  | RunProtocol Status
  | UpdateStarting
  | UpdateVoting
  | UpdateRecovering u64 u64
  | CatchingUp u64 u64
  | GetOwnership
  | RetryDelay
  | RecoverDone
  | RecoverFailed string

record RecoverProcess =
  rv_autoInitialize :: bool
  rv_stage :: RecoverStage

text \<open>\<open>finished\<close>: the end of the chain, with a delay before a retry.\<close>

definition recover_finished :: "bool future \<Rightarrow> RecoverProcess \<Rightarrow> RecoverProcess" where
  "recover_finished f s =
     (case f of
        Discarded \<Rightarrow> s\<lparr>rv_stage := RecoverFailed ''discarded''\<rparr>
      | Failed e \<Rightarrow> s\<lparr>rv_stage := RecoverFailed e\<rparr>
      | Pending \<Rightarrow> s
      | Ready b \<Rightarrow> s\<lparr>rv_stage := (if b then RecoverDone else RetryDelay)\<rparr>)"

definition recover_status :: "Status \<Rightarrow> RecoverProcess \<Rightarrow> RecoverProcess" where
  "recover_status st s =
     (if st = VOTING then recover_finished (Ready True) s else s\<lparr>rv_stage := RunProtocol st\<rparr>)"

definition recover_result :: "RecoverResponse option \<Rightarrow> RecoverProcess \<Rightarrow> RecoverProcess outcome" where
  "recover_result r s =
     (case r of
        None \<Rightarrow> Ok (recover_finished (Ready False) s)
      | Some m \<Rightarrow>
          (case rr_status m of
             STARTING \<Rightarrow>
               if \<not> rv_autoInitialize s then Abort else Ok (s\<lparr>rv_stage := UpdateStarting\<rparr>)
           | VOTING \<Rightarrow>
               if \<not> rv_autoInitialize s then Abort else Ok (s\<lparr>rv_stage := UpdateVoting\<rparr>)
           | RECOVERING \<Rightarrow>
               (case (rr_begin m, rr_end m) of
                  (Some b, Some e) \<Rightarrow> Ok (s\<lparr>rv_stage := UpdateRecovering b e\<rparr>)
                | _ \<Rightarrow> Abort)
           | EMPTY \<Rightarrow>
               Ok (recover_finished (Failed ''Unexpected status returned from the recover protocol'') s)))"

text \<open>\<open>catchup(begin, end)\<close>: the positions it catches up.\<close>

definition recover_catchup :: "u64 \<Rightarrow> u64 \<Rightarrow> RecoverProcess \<Rightarrow> RecoverProcess outcome" where
  "recover_catchup b e s = (if e < b then Abort else Ok (s\<lparr>rv_stage := CatchingUp b e\<rparr>))"

definition catchup_positions :: "u64 \<Rightarrow> u64 \<Rightarrow> u64 set" where
  "catchup_positions b e = elems (comma (Closed b) (Closed e))"

text \<open>The continuations of \<open>updateReplicaStatus\<close>, by the status that was written.\<close>

definition replica_updated :: "bool \<Rightarrow> RecoverProcess \<Rightarrow> RecoverProcess outcome" where
  "replica_updated updated s =
     (if \<not> updated then Ok (recover_finished (Failed ''Failed to update replica status'') s)
      else
        (case rv_stage s of
           UpdateStarting \<Rightarrow> Ok (recover_status STARTING s)
         | UpdateRecovering b e \<Rightarrow> recover_catchup b e s
         | _ \<Rightarrow> Ok (recover_finished (Ready True) s)))"

text \<open>
  The local replica during a recovery: its status and the positions that were caught up since the
  protocol last decided on an interval. A step may also fail the chain, which ends the process.
\<close>

inductive recover_step ::
  "RecoverProcess \<times> Status \<times> u64 set \<Rightarrow> RecoverProcess \<times> Status \<times> u64 set \<Rightarrow> bool" where
  Begin: "rv_stage s = GetStatus \<Longrightarrow> recover_step (s, st, C) (recover_status st s, st, C)"
| Decide:
    "rv_stage s = RunProtocol st' \<Longrightarrow>
     receive ms (new_RecoverProtocolProcess q st' (rv_autoInitialize s)) = Ok r \<Longrightarrow>
     recover_result r s = Ok s' \<Longrightarrow> recover_step (s, st, C) (s', st, C)"
| WriteStarting:
    "rv_stage s = UpdateStarting \<Longrightarrow> replica_updated True s = Ok s' \<Longrightarrow>
     recover_step (s, st, C) (s', STARTING, C)"
| WriteVoting:
    "rv_stage s = UpdateVoting \<Longrightarrow> replica_updated True s = Ok s' \<Longrightarrow>
     recover_step (s, st, C) (s', VOTING, C)"
| WriteRecovering:
    "rv_stage s = UpdateRecovering b e \<Longrightarrow> replica_updated True s = Ok s' \<Longrightarrow>
     recover_step (s, st, C) (s', RECOVERING, {})"
| WriteFailed:
    "rv_stage s \<in> {UpdateStarting, UpdateVoting} \<or> (\<exists>b e. rv_stage s = UpdateRecovering b e) \<Longrightarrow>
     replica_updated False s = Ok s' \<Longrightarrow> recover_step (s, st, C) (s', st, C)"
| CatchUpDone:
    "rv_stage s = CatchingUp b e \<Longrightarrow>
     recover_step (s, st, C) (s\<lparr>rv_stage := GetOwnership\<rparr>, st, catchup_positions b e)"
| Owned: "rv_stage s = GetOwnership \<Longrightarrow> recover_step (s, st, C) (s\<lparr>rv_stage := UpdateVoting\<rparr>, st, C)"
| Retry: "rv_stage s = RetryDelay \<Longrightarrow> recover_step (s, st, C) (s\<lparr>rv_stage := GetStatus\<rparr>, st, C)"
| Fails:
    "rv_stage s \<noteq> RecoverDone \<Longrightarrow> f = Discarded \<or> f = Failed err \<Longrightarrow>
     recover_step (s, st, C) (recover_finished f s, st, C)"

subsection \<open>What the protocol has counted\<close>

definition count_status :: "Status \<Rightarrow> RecoverResponse list \<Rightarrow> nat" where
  "count_status st ms = length (filter (\<lambda>m. rr_status m = st) ms)"

definition voting_begins :: "RecoverResponse list \<Rightarrow> u64 set" where
  "voting_begins ms = {b. \<exists>m\<in>set ms. rr_status m = VOTING \<and> rr_begin m = Some b}"

definition voting_ends :: "RecoverResponse list \<Rightarrow> u64 set" where
  "voting_ends ms = {e. \<exists>m\<in>set ms. rr_status m = VOTING \<and> rr_end m = Some e}"

definition counted :: "nat \<Rightarrow> Status \<Rightarrow> bool \<Rightarrow> RecoverResponse list \<Rightarrow> RecoverProtocolProcess \<Rightarrow> bool" where
  "counted q st auto ms s \<longleftrightarrow>
     rp_quorum s = q \<and> rp_status s = st \<and> rp_autoInitialize s = auto \<and>
     (\<forall>x. rp_responsesReceived s x = count_status x ms) \<and>
     rp_lowestBeginPosition s = (if voting_begins ms = {} then None else Some (Min (voting_begins ms))) \<and>
     rp_highestEndPosition s = (if voting_ends ms = {} then None else Some (Max (voting_ends ms)))"

text \<open>What a decision \<open>r\<close> after the responses \<open>ms\<close> rests on.\<close>

definition justified :: "nat \<Rightarrow> Status \<Rightarrow> bool \<Rightarrow> RecoverResponse list \<Rightarrow> RecoverResponse \<Rightarrow> bool" where
  "justified q st auto ms r \<longleftrightarrow>
     (case rr_status r of
        RECOVERING \<Rightarrow>
          q \<le> count_status VOTING ms \<and> voting_begins ms \<noteq> {} \<and> voting_ends ms \<noteq> {} \<and>
          rr_begin r = Some (Min (voting_begins ms)) \<and> rr_end r = Some (Max (voting_ends ms)) \<and>
          Min (voting_begins ms) \<le> Max (voting_ends ms)
      | STARTING \<Rightarrow> auto \<and> st = EMPTY \<and> 2 * q - 1 \<le> count_status EMPTY ms + count_status STARTING ms
      | VOTING \<Rightarrow> auto \<and> st = STARTING \<and> 2 * q - 1 \<le> count_status STARTING ms + count_status VOTING ms
      | EMPTY \<Rightarrow> False)"

lemma voting_snoc:
  "rr_status m \<noteq> VOTING \<Longrightarrow> voting_begins (ms @ [m]) = voting_begins ms"
  "rr_status m \<noteq> VOTING \<Longrightarrow> voting_ends (ms @ [m]) = voting_ends ms"
  "rr_status m = VOTING \<Longrightarrow> rr_begin m = Some b \<Longrightarrow> voting_begins (ms @ [m]) = insert b (voting_begins ms)"
  "rr_status m = VOTING \<Longrightarrow> rr_end m = Some e \<Longrightarrow> voting_ends (ms @ [m]) = insert e (voting_ends ms)"
  by (auto simp: voting_begins_def voting_ends_def)

lemma min_option_Min:
  "(if S = {} then None else Some (Min S)) = l \<Longrightarrow> min_option l b = Min (insert b (S :: u64 set))"
  by (auto simp: min_option_def min.commute)

lemma max_option_Max:
  "(if S = {} then None else Some (Max S)) = l \<Longrightarrow> max_option l b = Max (insert b (S :: u64 set))"
  by (auto simp: max_option_def max.commute)

lemma count_status_snoc:
  "count_status x (ms @ [m]) = (if rr_status m = x then Suc (count_status x ms) else count_status x ms)"
  by (simp add: count_status_def)

lemma counted_response:
  assumes c: "counted q st auto ms s" and r: "count_response m s = Ok s'"
  shows "counted q st auto (ms @ [m]) s'"
proof (cases "rr_status m = VOTING")
  case False
  then show ?thesis
    using c r by (auto simp: counted_def count_response_def voting_snoc count_status_snoc)
next
  case True
  then obtain b e where be: "rr_begin m = Some b" "rr_end m = Some e"
    using r by (auto simp: count_response_def Let_def split: option.splits)
  then have s': "s' = s\<lparr>rp_responsesReceived := (rp_responsesReceived s)
        (VOTING := rp_responsesReceived s VOTING + 1),
      rp_lowestBeginPosition := Some (min_option (rp_lowestBeginPosition s) b),
      rp_highestEndPosition := Some (max_option (rp_highestEndPosition s) e)\<rparr>"
    using r True by (simp add: count_response_def)
  have "min_option (rp_lowestBeginPosition s) b = Min (insert b (voting_begins ms))"
    "max_option (rp_highestEndPosition s) e = Max (insert e (voting_ends ms))"
    using c by (intro min_option_Min max_option_Max; simp add: counted_def)+
  then show ?thesis
    using c True be unfolding s' counted_def by (simp add: voting_snoc count_status_snoc)
qed

lemma decide_justified:
  assumes "counted q st auto ms s" and "decide s = Ok (Some r)"
  shows "justified q st auto ms r"
proof -
  have c: "rp_quorum s = q" "rp_status s = st" "rp_autoInitialize s = auto"
    "rp_responsesReceived s = (\<lambda>x. count_status x ms)"
    "rp_lowestBeginPosition s = (if voting_begins ms = {} then None else Some (Min (voting_begins ms)))"
    "rp_highestEndPosition s = (if voting_ends ms = {} then None else Some (Max (voting_ends ms)))"
    using assms(1) by (auto simp: counted_def)
  show ?thesis
  proof (cases "q \<le> count_status VOTING ms")
    case True
    define b where "b = Min (voting_begins ms)"
    define e where "e = Max (voting_ends ms)"
    have r: "voting_begins ms \<noteq> {}" "voting_ends ms \<noteq> {}" "\<not> e < b"
      "r = \<lparr>rr_status = RECOVERING, rr_begin = Some b, rr_end = Some e\<rparr>"
      using assms(2) c True unfolding b_def [symmetric] e_def [symmetric]
      by (auto simp: decide_def split: if_splits)
    then show ?thesis
      using True unfolding justified_def b_def [symmetric] e_def [symmetric] by (simp add: not_less)
  next
    case False
    then show ?thesis
      using assms(2) c
      by (auto simp: decide_def justified_def plain_response_def Let_def split: if_splits Status.splits)
  qed
qed

lemma receive_justified:
  assumes "counted q st auto xs s" and "receive ms s = Ok (Some r)"
  shows "\<exists>ms'. prefix ms' ms \<and> justified q st auto (xs @ ms') r"
  using assms
proof (induction ms arbitrary: xs s)
  case (Cons m ms)
  obtain s1 where s1: "count_response m s = Ok s1"
    using Cons.prems(2) by (cases "count_response m s") auto
  note c1 = counted_response [OF Cons.prems(1) s1]
  obtain d where d: "decide s1 = Ok d"
    using Cons.prems(2) s1 by (cases "decide s1") auto
  show ?case
  proof (cases d)
    case (Some x)
    then have "justified q st auto (xs @ [m]) r"
      using Cons.prems(2) s1 d decide_justified [OF c1] by simp
    then show ?thesis
      by (intro exI [of _ "[m]"]) simp
  next
    case None
    then have "receive ms s1 = Ok (Some r)"
      using Cons.prems(2) s1 d by simp
    from Cons.IH [OF c1 this] obtain ms' where "prefix ms' ms" "justified q st auto ((xs @ [m]) @ ms') r"
      by blast
    then show ?thesis
      by (intro exI [of _ "m # ms'"]) simp
  qed
qed simp

lemma new_counted: "counted q st auto [] (new_RecoverProtocolProcess q st auto)"
  by (simp add: counted_def new_RecoverProtocolProcess_def count_status_def voting_begins_def voting_ends_def)

subsection \<open>Invariant of the recovery\<close>

definition recover_inv :: "RecoverProcess \<times> Status \<times> u64 set \<Rightarrow> bool" where
  "recover_inv = (\<lambda>(s, st, C).
     case rv_stage s of
       RunProtocol st' \<Rightarrow> st' = st \<and> st \<noteq> VOTING
     | UpdateStarting \<Rightarrow> rv_autoInitialize s \<and> st = EMPTY
     | UpdateVoting \<Rightarrow>
         rv_autoInitialize s \<and> st = STARTING \<or>
         st = RECOVERING \<and> (\<exists>b e. b \<le> e \<and> C = catchup_positions b e)
     | CatchingUp b e \<Rightarrow> st = RECOVERING \<and> b \<le> e
     | GetOwnership \<Rightarrow> st = RECOVERING \<and> (\<exists>b e. b \<le> e \<and> C = catchup_positions b e)
     | RecoverDone \<Rightarrow> st = VOTING
     | _ \<Rightarrow> True)"

lemma recover_step_inv:
  assumes "recover_step x y" and "recover_inv x"
  shows "recover_inv y"
  using assms
proof (induction rule: recover_step.induct)
  case (Decide s st' ms q r s' st C)
  have st: "st' = st" "st \<noteq> VOTING"
    using Decide by (simp_all add: recover_inv_def)
  show ?case
  proof (cases r)
    case None
    then show ?thesis
      using Decide by (auto simp: recover_result_def recover_inv_def recover_finished_def)
  next
    case (Some m)
    have "\<exists>ms'. justified q st (rv_autoInitialize s) ms' m"
      using receive_justified [OF new_counted] Decide.hyps(2) Some st(1) by blast
    then show ?thesis
      using Decide.hyps(3) Some st
      by (auto simp: recover_result_def recover_inv_def justified_def recover_finished_def split: Status.splits if_splits option.splits)
  qed
qed (auto simp: recover_inv_def recover_status_def replica_updated_def recover_catchup_def not_less
    recover_finished_def
    split: if_splits)

subsection \<open>Properties\<close>

text \<open>
  Decisions of the recover protocol are justified by responses that were received: a
  replica recovers only after a quorum of voting replicas answered, from the lowest of their
  beginnings to the highest of their ends; it starts only if it is empty and as many responses as the
  cluster has replicas were empty or starting; it votes at once only if it is starting and as many
  were starting or voting.
\<close>

theorem recover_protocol_justified:
  assumes "receive ms (new_RecoverProtocolProcess q st auto) = Ok (Some r)"
  shows "\<exists>ms'. prefix ms' ms \<and> justified q st auto ms' r"
  using receive_justified [OF new_counted assms] by simp

definition sample_recover :: "RecoverResponse list" where
  "sample_recover =
     [plain_response EMPTY, \<lparr>rr_status = VOTING, rr_begin = Some 3, rr_end = Some 9\<rparr>,
      \<lparr>rr_status = VOTING, rr_begin = Some 2, rr_end = Some 7\<rparr>]"

theorem recover_protocol_justified_witness:
  "\<exists>ms'. prefix ms' sample_recover \<and>
     justified 2 EMPTY True ms' \<lparr>rr_status = RECOVERING, rr_begin = Some 2, rr_end = Some 9\<rparr>"
  by (rule recover_protocol_justified)
    (simp add: sample_recover_def new_RecoverProtocolProcess_def count_response_def decide_def
      plain_response_def min_option_def max_option_def min_def max_def Let_def word_le_nat_alt word_less_nat_alt)



end
