(* ===== verification/Log_Replica.thy ===== *)
theory Log_Replica
  imports Log_Storage
begin

section \<open>The replica\<close>

text \<open>
  \<open>ReplicaProcess\<close> of \<open>src/log/replica.cpp\<close>: the acceptor and learner of the log's
  consensus protocol. The replica is a record of the fields of the class; its storage is any
  storage behind the interface \<open>storage_ops\<close>. A message handler returns the replica and the
  response it sends, if it sends one; a function that may stop the process returns an \<open>outcome\<close>.

  The lemmas are proved in a context that extends \<open>log_storage\<close>, so they hold for every storage
  that keeps the contract of the interface; they reach \<open>LevelDBStorage\<close> through its
  interpretation.
\<close>

record 's replica =
  storage :: 's
  metadata :: Metadata
  log_begin :: u64
  log_end :: u64
  holes :: "u64 set"
  unlearned :: "u64 set"

subsection \<open>Reading\<close>

definition read :: "'s storage_ops \<Rightarrow> 's replica \<Rightarrow> u64 \<Rightarrow> Action option outcome" where
  "read ops r p =
     (if p < log_begin r then Error ''Attempted to read truncated position''
      else if log_end r < p then Ok None
      else if p \<in> holes r then Ok None
      else
        (case st_read ops p (storage r) of
           Error e \<Rightarrow> Error e
         | Abort \<Rightarrow> Abort
         | Ok a \<Rightarrow> Ok (Some a)))"

text \<open>The loop of the ranged \<open>read\<close> over the positions still to be read.\<close>

fun read_positions :: "'s storage_ops \<Rightarrow> 's replica \<Rightarrow> u64 list \<Rightarrow> Action list outcome" where
  "read_positions ops r [] = Ok []"
| "read_positions ops r (p # ps) =
     bind_outcome (read ops r p) (\<lambda>result.
       bind_outcome (read_positions ops r ps) (\<lambda>actions.
         Ok (case result of Some a \<Rightarrow> a # actions | None \<Rightarrow> actions)))"

text \<open>The positions \<open>from\<close>, ..., \<open>to\<close> in order, for \<open>to\<close> below the largest value.\<close>

definition positions :: "u64 \<Rightarrow> u64 \<Rightarrow> u64 list" where
  "positions f t = map word_of_nat [unat f ..< Suc (unat t)]"

definition read_range ::
  "'s storage_ops \<Rightarrow> 's replica \<Rightarrow> u64 \<Rightarrow> u64 \<Rightarrow> Action list outcome" where
  "read_range ops r f t =
     (if t < f then Error ''Bad read range (to < from)''
      else if f < log_begin r then Error ''Bad read range (truncated position)''
      else if log_end r < t then Error ''Bad read range (past end of log)''
      else read_positions ops r (positions f t))"

definition missing :: "'s replica \<Rightarrow> u64 \<Rightarrow> bool" where
  "missing r p =
     (if p < log_begin r then False
      else if p > log_end r then True
      else p \<in> unlearned r \<or> p \<in> holes r)"

definition missing_range :: "'s replica \<Rightarrow> u64 \<Rightarrow> u64 \<Rightarrow> u64 set" where
  "missing_range r f t =
     (if f > t then {}
      else
        (let ps = unlearned r \<union> holes r;
             ps = (if t > log_end r then ps \<union> elems (comma (Open (log_end r)) (Closed t)) else ps) in
         ps \<inter> elems (comma (Closed f) (Closed t))))"

definition beginning :: "'s replica \<Rightarrow> u64" where
  "beginning r = log_begin r"

definition ending :: "'s replica \<Rightarrow> u64" where
  "ending r = log_end r"

definition status :: "'s replica \<Rightarrow> Status" where
  "status r = meta_status (metadata r)"

definition last_promised :: "'s replica \<Rightarrow> u64" where
  "last_promised r = meta_promised (metadata r)"

subsection \<open>Persisting\<close>

definition update :: "'s storage_ops \<Rightarrow> 's replica \<Rightarrow> Status \<Rightarrow> (bool \<times> 's replica) outcome" where
  "update ops r st =
     (case st_persist_metadata ops \<lparr>meta_status = st, meta_promised = last_promised r\<rparr> (storage r) of
        (Error e, s) \<Rightarrow> Ok (False, r\<lparr>storage := s\<rparr>)
      | (Abort, s) \<Rightarrow> Abort
      | (Ok _, s) \<Rightarrow> Ok (True, r\<lparr>storage := s, metadata := (metadata r)\<lparr>meta_status := st\<rparr>\<rparr>))"

definition updatePromised ::
  "'s storage_ops \<Rightarrow> 's replica \<Rightarrow> u64 \<Rightarrow> (bool \<times> 's replica) outcome" where
  "updatePromised ops r n =
     (case st_persist_metadata ops \<lparr>meta_status = status r, meta_promised = n\<rparr> (storage r) of
        (Error e, s) \<Rightarrow> Ok (False, r\<lparr>storage := s\<rparr>)
      | (Abort, s) \<Rightarrow> Abort
      | (Ok _, s) \<Rightarrow> Ok (True, r\<lparr>storage := s, metadata := (metadata r)\<lparr>meta_promised := n\<rparr>\<rparr>))"

text \<open>The part of \<open>persist\<close> after the storage accepted the action.\<close>

definition persisted :: "Action \<Rightarrow> 's replica \<Rightarrow> 's replica" where
  "persisted a r =
     (let r = r\<lparr>holes := holes r - {position a}\<rparr>;
          r =
            (if is_learned a then
               (let r = r\<lparr>unlearned := unlearned r - {position a}\<rparr> in
                if is_truncate a then
                  r\<lparr>holes := holes r - elems (comma (Open 0) (Open (truncate_to a))),
                    unlearned := unlearned r - elems (comma (Open 0) (Open (truncate_to a))),
                    log_begin := max (log_begin r) (truncate_to a)\<rparr>
                else if is_tombstone a then
                  r\<lparr>holes := holes r - elems (comma (Open 0) (Open (position a))),
                    unlearned := unlearned r - elems (comma (Open 0) (Open (position a))),
                    log_begin := max (log_begin r) (position a + 1)\<rparr>
                else r)
             else r\<lparr>unlearned := insert (position a) (unlearned r)\<rparr>);
          r =
            (if position a > log_end r then
               r\<lparr>holes := holes r \<union> elems (comma (Open (log_end r)) (Open (position a)))\<rparr>
             else r) in
      r\<lparr>log_end := max (log_end r) (position a)\<rparr>)"

definition persist :: "'s storage_ops \<Rightarrow> 's replica \<Rightarrow> Action \<Rightarrow> (bool \<times> 's replica) outcome" where
  "persist ops r a =
     (case st_persist_action ops a (storage r) of
        (Error e, s) \<Rightarrow> Ok (False, r\<lparr>storage := s\<rparr>)
      | (Abort, s) \<Rightarrow> Abort
      | (Ok _, s) \<Rightarrow> Ok (True, persisted a (r\<lparr>storage := s\<rparr>)))"

subsection \<open>Handlers\<close>

definition promise_ignored :: "PromiseRequest \<Rightarrow> PromiseResponse" where
  "promise_ignored q =
     \<lparr>pr_okay = False, pr_type = Some IGNORED, pr_proposal = pq_proposal q,
      pr_position = None, pr_action = None\<rparr>"

definition promise_reject :: "u64 \<Rightarrow> PromiseResponse" where
  "promise_reject n =
     \<lparr>pr_okay = False, pr_type = Some REJECT, pr_proposal = n,
      pr_position = None, pr_action = None\<rparr>"

definition promise_accept :: "u64 \<Rightarrow> u64 option \<Rightarrow> Action option \<Rightarrow> PromiseResponse" where
  "promise_accept n p a =
     \<lparr>pr_okay = True, pr_type = Some ACCEPT, pr_proposal = n, pr_position = p, pr_action = a\<rparr>"

definition tombstone_action :: "u64 \<Rightarrow> u64 \<Rightarrow> Action" where
  "tombstone_action p n =
     (new_action p n)\<lparr>performed := Some n, learned := Some True, action_type := Some NOP,
       action_nop := Some \<lparr>tombstone = Some True\<rparr>\<rparr>"

text \<open>\<open>if (persist(action)) reply(response)\<close>.\<close>

definition persist_reply ::
  "'s storage_ops \<Rightarrow> 's replica \<Rightarrow> Action \<Rightarrow> 'm \<Rightarrow> ('s replica \<times> 'm option) outcome" where
  "persist_reply ops r a m =
     bind_outcome (persist ops r a) (\<lambda>(ok, r). Ok (r, if ok then Some m else None))"

definition promise_explicit ::
  "'s storage_ops \<Rightarrow> 's replica \<Rightarrow> u64 \<Rightarrow> u64 \<Rightarrow> ('s replica \<times> PromiseResponse option) outcome" where
  "promise_explicit ops r n p =
     (if p < log_begin r then
        Ok (r, Some (promise_accept n None (Some (tombstone_action p (last_promised r)))))
      else
        (case read ops r p of
           Abort \<Rightarrow> Abort
         | Error e \<Rightarrow> Ok (r, None)
         | Ok None \<Rightarrow>
             if n \<le> last_promised r then Ok (r, Some (promise_reject (last_promised r)))
             else persist_reply ops r (new_action p n) (promise_accept n (Some p) None)
         | Ok (Some a) \<Rightarrow>
             if position a \<noteq> p then Abort
             else if n \<le> promised a then Ok (r, Some (promise_reject (promised a)))
             else persist_reply ops r (a\<lparr>promised := n\<rparr>) (promise_accept n None (Some a))))"

definition promise_implicit ::
  "'s storage_ops \<Rightarrow> 's replica \<Rightarrow> u64 \<Rightarrow> ('s replica \<times> PromiseResponse option) outcome" where
  "promise_implicit ops r n =
     (if n \<le> last_promised r then Ok (r, Some (promise_reject (last_promised r)))
      else
        bind_outcome (updatePromised ops r n) (\<lambda>(ok, r).
          Ok (r, if ok then Some (promise_accept n (Some (log_end r)) None) else None)))"

definition promise ::
  "'s storage_ops \<Rightarrow> 's replica \<Rightarrow> PromiseRequest \<Rightarrow>
   ('s replica \<times> PromiseResponse option) outcome" where
  "promise ops r q =
     (if status r \<noteq> VOTING then Ok (r, Some (promise_ignored q))
      else
        (case pq_position q of
           Some p \<Rightarrow> promise_explicit ops r (pq_proposal q) p
         | None \<Rightarrow> promise_implicit ops r (pq_proposal q)))"

definition write_response :: "ResponseType \<Rightarrow> u64 \<Rightarrow> u64 \<Rightarrow> WriteResponse" where
  "write_response t n p =
     \<lparr>wr_okay = (t = ACCEPT), wr_type = Some t, wr_proposal = n, wr_position = p\<rparr>"

text \<open>
  The fields that a write request sets in the action. \<open>mutable_nop()\<close> sets an empty \<open>Nop\<close>;
  a request without the field of its type fails a \<open>CHECK\<close>.
\<close>

definition set_request :: "WriteRequest \<Rightarrow> Action \<Rightarrow> Action outcome" where
  "set_request q a =
     (let a = a\<lparr>performed := Some (wq_proposal q), learned := wq_learned q,
               action_type := Some (wq_type q), action_nop := None, action_append := None,
               action_truncate := None\<rparr> in
      case wq_type q of
        NOP \<Rightarrow>
          if wq_nop q = None then Abort else Ok (a\<lparr>action_nop := Some \<lparr>tombstone = None\<rparr>\<rparr>)
      | APPEND \<Rightarrow>
          if wq_append q = None then Abort else Ok (a\<lparr>action_append := wq_append q\<rparr>)
      | TRUNCATE \<Rightarrow>
          if wq_truncate q = None then Abort else Ok (a\<lparr>action_truncate := wq_truncate q\<rparr>))"

definition replica_write ::
  "'s storage_ops \<Rightarrow> 's replica \<Rightarrow> WriteRequest \<Rightarrow> ('s replica \<times> WriteResponse option) outcome" where
  "replica_write ops r q =
     (let n = wq_proposal q; p = wq_position q in
      if status r \<noteq> VOTING then Ok (r, Some (write_response IGNORED n p))
      else
        (case read ops r p of
           Abort \<Rightarrow> Abort
         | Error e \<Rightarrow> Ok (r, None)
         | Ok None \<Rightarrow>
             if n < last_promised r then Ok (r, Some (write_response REJECT (last_promised r) p))
             else
               bind_outcome (set_request q (new_action p (last_promised r))) (\<lambda>a.
                 persist_reply ops r a (write_response ACCEPT n p))
         | Ok (Some a) \<Rightarrow>
             if position a \<noteq> p then Abort
             else if n < promised a then Ok (r, Some (write_response REJECT (promised a) p))
             else if is_learned a then Ok (r, None)
             else
               bind_outcome (set_request q a) (\<lambda>a.
                 persist_reply ops r a (write_response ACCEPT n p))))"

definition recover :: "'s replica \<Rightarrow> RecoverResponse" where
  "recover r =
     (if status r = VOTING then
        \<lparr>rr_status = status r, rr_begin = Some (log_begin r), rr_end = Some (log_end r)\<rparr>
      else \<lparr>rr_status = status r, rr_begin = None, rr_end = None\<rparr>)"

definition learned_message :: "'s storage_ops \<Rightarrow> 's replica \<Rightarrow> Action \<Rightarrow> 's replica outcome" where
  "learned_message ops r a =
     (if learned a \<noteq> Some True then Abort
      else bind_outcome (persist ops r a) (\<lambda>(_, r). Ok r))"

definition restore :: "'s storage_ops \<Rightarrow> 's \<Rightarrow> 's replica outcome" where
  "restore ops s =
     (case st_restore ops s of
        (Ok st, s) \<Rightarrow>
          Ok \<lparr>storage = s, metadata = st_metadata st, log_begin = st_begin st, log_end = st_end st,
              holes = elems (comma (Closed (st_begin st)) (Closed (st_end st)))
                        - st_learned st - st_unlearned st,
              unlearned = st_unlearned st\<rparr>
      | (Error e, s) \<Rightarrow> Error e
      | (Abort, s) \<Rightarrow> Abort)"

subsection \<open>Effect of persisting an action\<close>

lemma max_word_0 [simp]: "max b (0::u64) = b"
  by (simp add: max_def)

lemma truncated_below:
  assumes "wf_action a" and "is_learned a"
  shows "is_truncate a \<Longrightarrow> x \<in> elems (comma (Open 0) (Open (truncate_to a))) \<Longrightarrow> x < truncation a"
    and "is_tombstone a \<Longrightarrow> x \<in> elems (comma (Open 0) (Open (position a))) \<Longrightarrow> x < truncation a"
proof -
  show "is_truncate a \<Longrightarrow> x \<in> elems (comma (Open 0) (Open (truncate_to a))) \<Longrightarrow> x < truncation a"
    using assms by (simp add: truncation_def)
  have "position a \<noteq> max_u64"
    using assms by (simp add: wf_action_def)
  from u64_less_succ_iff [OF this, of x]
  show "is_tombstone a \<Longrightarrow> x \<in> elems (comma (Open 0) (Open (position a))) \<Longrightarrow> x < truncation a"
    using assms is_truncate_not_tombstone [of a] by (auto simp: truncation_def)
qed

lemma persisted_begin: "log_begin (persisted a r) = max (log_begin r) (truncation a)"
  by (simp add: persisted_def truncation_def Let_def)

lemma persisted_end: "log_end (persisted a r) = max (log_end r) (position a)"
  by (simp add: persisted_def Let_def)

lemma persisted_storage [simp]:
  "storage (persisted a r) = storage r" "metadata (persisted a r) = metadata r"
  by (simp_all add: persisted_def Let_def)

lemma persisted_holes:
  assumes wf: "wf_action a" and p: "truncation a \<le> p"
  shows "p \<in> holes (persisted a r) \<longleftrightarrow>
    p \<in> holes r \<and> p \<noteq> position a \<or> log_end r < p \<and> p < position a"
proof -
  have gap: "log_end r < position a \<Longrightarrow>
      p \<in> elems (comma (Open (log_end r)) (Open (position a))) \<longleftrightarrow> log_end r < p \<and> p < position a"
    using u64_succ_le_iff [OF below_not_max] by simp
  have no_gap: "\<not> log_end r < position a \<Longrightarrow> \<not> (log_end r < p \<and> p < position a)"
    by (meson less_trans)
  have keep: "is_learned a \<Longrightarrow> is_truncate a \<Longrightarrow> p \<notin> elems (comma (Open 0) (Open (truncate_to a)))"
    "is_learned a \<Longrightarrow> is_tombstone a \<Longrightarrow> p \<notin> elems (comma (Open 0) (Open (position a)))"
    using truncated_below [OF wf] p leD by blast+
  show ?thesis
    unfolding persisted_def Let_def
    by (cases "log_end r < position a"; cases "is_learned a"; cases "is_truncate a"; cases "is_tombstone a")
      (simp_all add: gap no_gap keep del: elems_iff comma.simps)
qed

lemma persisted_unlearned:
  assumes wf: "wf_action a" and p: "truncation a \<le> p"
  shows "p \<in> unlearned (persisted a r) \<longleftrightarrow>
    (if p = position a then \<not> is_learned a else p \<in> unlearned r)"
proof -
  have keep: "is_learned a \<Longrightarrow> is_truncate a \<Longrightarrow> p \<notin> elems (comma (Open 0) (Open (truncate_to a)))"
    "is_learned a \<Longrightarrow> is_tombstone a \<Longrightarrow> p \<notin> elems (comma (Open 0) (Open (position a)))"
    using truncated_below [OF wf] p leD by blast+
  show ?thesis
    unfolding persisted_def Let_def
    by (cases "is_learned a"; cases "is_truncate a"; cases "is_tombstone a")
      (simp_all add: keep del: elems_iff comma.simps)
qed

lemmas persisted_simps = persisted_begin persisted_end persisted_holes persisted_unlearned

subsection \<open>What a replica knows\<close>

text \<open>
  The record a replica acts on at a position, and the promise that governs the position: that of
  the record, and the implicit promise where there is none.
\<close>

definition known :: "('s \<Rightarrow> u64 \<Rightarrow> Action option) \<Rightarrow> 's replica \<Rightarrow> u64 \<Rightarrow> Action option" where
  "known view r p =
     (if log_begin r \<le> p \<and> p \<le> log_end r \<and> p \<notin> holes r then view (storage r) p else None)"

definition governing :: "('s \<Rightarrow> u64 \<Rightarrow> Action option) \<Rightarrow> 's replica \<Rightarrow> u64 \<Rightarrow> u64" where
  "governing view r p =
     (case known view r p of Some a \<Rightarrow> promised a | None \<Rightarrow> last_promised r)"

text \<open>
  The invariant: a position of the log that is not a hole is in the storage (the code reads it
  without a further check), and one that is neither a hole nor unlearned is stored as learned.
\<close>

definition replica_inv ::
  "('s \<Rightarrow> bool) \<Rightarrow> ('s \<Rightarrow> u64 \<Rightarrow> Action option) \<Rightarrow> 's replica \<Rightarrow> bool" where
  "replica_inv valid view r \<longleftrightarrow>
     valid (storage r) \<and> log_end r \<noteq> max_u64 \<and>
     (\<forall>p a. view (storage r) p = Some a \<longrightarrow> wf_action a) \<and>
     (\<forall>p. log_begin r \<le> p \<and> p \<le> log_end r \<and> p \<notin> holes r \<longrightarrow>
        (\<exists>a. view (storage r) p = Some a \<and> (p \<notin> unlearned r \<longrightarrow> is_learned a)))"

text \<open>Two states of a replica: nothing is unpromised, unwritten or unlearned.\<close>

definition advances ::
  "('s \<Rightarrow> u64 \<Rightarrow> Action option) \<Rightarrow> 's replica \<Rightarrow> 's replica \<Rightarrow> bool" where
  "advances view r r' \<longleftrightarrow>
     log_begin r \<le> log_begin r' \<and> log_end r \<le> log_end r' \<and> last_promised r \<le> last_promised r' \<and>
     (\<forall>p. log_begin r' \<le> p \<longrightarrow>
        governing view r p \<le> governing view r' p \<and>
        (\<forall>a. known view r p = Some a \<longrightarrow>
           (\<exists>a'. known view r' p = Some a' \<and>
              (is_learned a \<longrightarrow> is_learned a' \<and> action_value a' = action_value a))))"

lemma deletion_le_truncation: "wf_action a \<Longrightarrow> deletion a \<le> truncation a"
  using u64_succ_le [of "position a" max_u64] u64_less_max_iff [of "position a"]
    u64_less_succ [of "position a" max_u64]
  by (simp add: deletion_def truncation_def wf_action_def order.strict_implies_order)

lemma known_persisted:
  assumes wf: "wf_action a" and D: "\<forall>p\<in>D. p < deletion a"
    and v: "view s = (view (storage r))(position a \<mapsto> a) |` (- D)"
    and p: "log_begin (persisted a (r\<lparr>storage := s\<rparr>)) \<le> p"
  shows "known view (persisted a (r\<lparr>storage := s\<rparr>)) p = (if p = position a then Some a else known view r p)"
proof -
  have b: "log_begin r \<le> p" "truncation a \<le> p"
    using p by (simp_all add: persisted_begin)
  have "p \<notin> D"
    using D b(2) deletion_le_truncation [OF wf] by (meson leD order_trans)
  then have view: "view s p = ((view (storage r))(position a \<mapsto> a)) p"
    unfolding v by (auto simp: restrict_map_def)
  have holes: "p \<in> holes (persisted a (r\<lparr>storage := s\<rparr>)) \<longleftrightarrow>
      p \<in> holes r \<and> p \<noteq> position a \<or> log_end r < p \<and> p < position a"
    using persisted_holes [OF wf b(2), of "r\<lparr>storage := s\<rparr>"] by simp
  have e: "p \<le> log_end (persisted a (r\<lparr>storage := s\<rparr>)) \<longleftrightarrow> p \<le> log_end r \<or> p \<le> position a"
    by (simp add: persisted_end le_max_iff_disj)
  have c: "\<not> p \<le> log_end r \<longleftrightarrow> log_end r < p" "p \<noteq> position a \<Longrightarrow> p \<le> position a \<longleftrightarrow> p < position a"
    by (auto simp: not_le order_less_le)
  show ?thesis
    unfolding known_def using b p view holes e c by auto
qed

lemma governing_cong:
  "known view r p = known view r' p \<Longrightarrow> last_promised r = last_promised r' \<Longrightarrow>
   governing view r p = governing view r' p"
  by (simp add: governing_def split: option.splits)

text \<open>The vote of a record: the proposal and the value it was performed with.\<close>

definition vote :: "Action option \<Rightarrow> (u64 \<times> Val) option" where
  "vote ao =
     Option.bind ao (\<lambda>a. Option.bind (performed a) (\<lambda>n. map_option (Pair n) (action_value a)))"

definition request_ok :: "WriteRequest \<Rightarrow> bool" where
  "request_ok q \<longleftrightarrow>
     wq_position q \<noteq> max_u64 \<and>
     (case wq_type q of
        NOP \<Rightarrow> wq_nop q \<noteq> None
      | APPEND \<Rightarrow> wq_append q \<noteq> None
      | TRUNCATE \<Rightarrow> wq_truncate q \<noteq> None)"

definition request_value :: "WriteRequest \<Rightarrow> Val" where
  "request_value q =
     (case wq_type q of
        NOP \<Rightarrow> VNop
      | APPEND \<Rightarrow> VAppend (the (wq_append q))
      | TRUNCATE \<Rightarrow> VTruncate (the (wq_truncate q)))"

text \<open>What an accepted promise and an accepted write mean, before (\<open>r\<close>) and after (\<open>r'\<close>).\<close>

definition promise_granted ::
  "('s \<Rightarrow> u64 \<Rightarrow> Action option) \<Rightarrow> 's replica \<Rightarrow> PromiseRequest \<Rightarrow> PromiseResponse \<Rightarrow> 's replica \<Rightarrow> bool"
  where
  "promise_granted view r q m r' \<longleftrightarrow>
     pr_proposal m = pq_proposal q \<and>
     (case pq_position q of
        Some p \<Rightarrow>
          if p < log_begin r then
            r' = r \<and> pr_action m = Some (tombstone_action p (last_promised r))
          else
            governing view r p < pq_proposal q \<and> pr_action m = known view r p \<and>
            (log_begin r' \<le> p \<longrightarrow> governing view r' p = pq_proposal q)
      | None \<Rightarrow>
          last_promised r < pq_proposal q \<and> last_promised r' = pq_proposal q \<and>
          pr_position m = Some (log_end r) \<and> pr_action m = None)"

text \<open>A refusal changes nothing, and names a promise that is not below the proposal.\<close>

definition promise_refused ::
  "('s \<Rightarrow> u64 \<Rightarrow> Action option) \<Rightarrow> 's replica \<Rightarrow> PromiseRequest \<Rightarrow> PromiseResponse \<Rightarrow> 's replica \<Rightarrow> bool"
  where
  "promise_refused view r q m r' \<longleftrightarrow>
     r' = r \<and>
     (if status r \<noteq> VOTING then pr_type m = Some IGNORED
      else
        pr_type m = Some REJECT \<and> pq_proposal q \<le> pr_proposal m \<and>
        pr_proposal m =
          (case pq_position q of Some p \<Rightarrow> governing view r p | None \<Rightarrow> last_promised r))"

definition write_accepted ::
  "('s \<Rightarrow> u64 \<Rightarrow> Action option) \<Rightarrow> 's replica \<Rightarrow> WriteRequest \<Rightarrow> 's replica \<Rightarrow> bool" where
  "write_accepted view r q r' \<longleftrightarrow>
     status r = VOTING \<and> log_begin r \<le> wq_position q \<and>
     governing view r (wq_position q) \<le> wq_proposal q \<and>
     (\<forall>a. known view r (wq_position q) = Some a \<longrightarrow> \<not> is_learned a) \<and>
     (log_begin r' \<le> wq_position q \<longrightarrow>
        vote (known view r' (wq_position q)) = Some (wq_proposal q, request_value q))"

lemma set_request_ok:
  assumes "request_ok q" and "position a = wq_position q"
  obtains a' where "set_request q a = Ok a'" "position a' = wq_position q" "promised a' = promised a"
    "wf_action a'" "vote (Some a') = Some (wq_proposal q, request_value q)"
    "learned a' = wq_learned q"
proof -
  have "\<exists>a'. set_request q a = Ok a' \<and> position a' = wq_position q \<and> promised a' = promised a \<and>
      wf_action a' \<and> vote (Some a') = Some (wq_proposal q, request_value q) \<and> learned a' = wq_learned q"
    using assms
    by (cases "wq_type q")
      (auto simp: set_request_def request_ok_def request_value_def wf_action_def vote_def
        action_value_def is_truncate_def)
  then show thesis
    using that by blast
qed

lemma value_promised [simp]: "action_value (a\<lparr>promised := n\<rparr>) = action_value a"
  by (simp add: action_value_def split: option.splits ActionType.splits)

lemma vote_promised [simp]: "vote (Some (a\<lparr>promised := n\<rparr>)) = vote (Some a)"
  by (simp add: vote_def)

lemma vote_new [simp]: "vote (Some (new_action p n)) = None"
  by (simp add: vote_def)

lemma wf_promised [simp]: "wf_action (a\<lparr>promised := n\<rparr>) = wf_action a"
  by (simp add: wf_action_def is_truncate_def is_learned_def)

lemma learned_promised [simp]: "is_learned (a\<lparr>promised := n\<rparr>) = is_learned a"
  by (simp add: is_learned_def)

lemma wf_new [simp]: "wf_action (new_action p n) \<longleftrightarrow> p \<noteq> max_u64"
  by (simp add: wf_action_def is_truncate_def)

text \<open>At position \<open>p\<close> nothing but the promise has changed.\<close>

definition only_promised ::
  "('s \<Rightarrow> u64 \<Rightarrow> Action option) \<Rightarrow> 's replica \<Rightarrow> 's replica \<Rightarrow> u64 \<Rightarrow> bool" where
  "only_promised view r r' p \<longleftrightarrow>
     known view r' p = known view r p \<or>
     (\<exists>n. known view r' p =
        Some (case known view r p of None \<Rightarrow> new_action p n | Some a \<Rightarrow> a\<lparr>promised := n\<rparr>))"

lemma only_promised_vote: "only_promised view r r' p \<Longrightarrow> vote (known view r' p) = vote (known view r p)"
  by (cases "known view r p") (auto simp: only_promised_def vote_def)

lemma advances_refl [simp]: "advances view r r"
  by (simp add: advances_def)

lemma inv_known:
  assumes "replica_inv valid view r"
  shows "log_begin r \<le> p \<Longrightarrow> p \<le> log_end r \<Longrightarrow> p \<notin> holes r \<Longrightarrow> p \<notin> unlearned r \<Longrightarrow>
      \<exists>a. known view r p = Some a \<and> is_learned a"
    and "known view r p = Some a \<Longrightarrow> wf_action a"
  using assms by (auto simp: replica_inv_def known_def split: if_splits)

context log_storage
begin

lemma read_known:
  assumes "replica_inv valid view r"
  shows "read ops r p =
    (if p < log_begin r then Error ''Attempted to read truncated position'' else Ok (known view r p))"
proof (cases "log_begin r \<le> p \<and> p \<le> log_end r \<and> p \<notin> holes r")
  case True
  then obtain a where a: "view (storage r) p = Some a"
    using assms by (auto simp: replica_inv_def)
  have v: "valid (storage r)"
    using assms by (simp add: replica_inv_def)
  have "p \<noteq> max_u64"
    using view_position [OF v a] by simp
  then have "st_read ops p (storage r) = Ok a"
    using read_law [OF v, of p] a by simp
  then show ?thesis
    using True a by (simp add: read_def known_def leD)
qed (auto simp: read_def known_def not_le)

lemma persist_cases:
  assumes inv: "replica_inv valid view r" and wf: "wf_action a"
    and L: "log_begin r \<le> position a \<Longrightarrow> position a \<le> log_end r \<Longrightarrow>
      position a \<notin> holes r \<Longrightarrow> position a \<notin> unlearned r \<Longrightarrow> is_learned a"
  obtains r' where "persist ops r a = Ok (True, r')" "replica_inv valid view r'"
      "log_begin r' = max (log_begin r) (truncation a)" "log_end r' = max (log_end r) (position a)"
      "metadata r' = metadata r"
      "\<forall>p. log_begin r' \<le> p \<longrightarrow>
         known view r' p = (if p = position a then Some a else known view r p)"
  | r' where "persist ops r a = Ok (False, r')" "replica_inv valid view r'"
      "log_begin r' = log_begin r" "log_end r' = log_end r" "metadata r' = metadata r"
      "\<forall>p. known view r' p =
         (if p = position a \<and> known view r p \<noteq> None then known view r' p else known view r p)"
      "known view r' (position a) = known view r (position a) \<or>
       known view r' (position a) = Some a"
proof -
  have v: "valid (storage r)" and e: "log_end r \<noteq> max_u64" and pos: "position a \<noteq> max_u64"
    and wfs: "\<And>p b. view (storage r) p = Some b \<Longrightarrow> wf_action b"
    and st: "\<And>p. log_begin r \<le> p \<Longrightarrow> p \<le> log_end r \<Longrightarrow> p \<notin> holes r \<Longrightarrow>
        \<exists>a. view (storage r) p = Some a \<and> (p \<notin> unlearned r \<longrightarrow> is_learned a)"
    using inv wf by (auto simp: replica_inv_def wf_action_def)
  obtain x s where run: "st_persist_action ops a (storage r) = (x, s)"
    by (cases "st_persist_action ops a (storage r)")
  note law = persist_action_law [OF v wf run]
  show ?thesis
  proof (cases "x = Ok ()")
    case True
    then obtain D where D: "\<forall>p\<in>D. p < deletion a" "view s = (view (storage r))(position a \<mapsto> a) |` (- D)"
      using law by blast
    define r' where "r' = persisted a (r\<lparr>storage := s\<rparr>)"
    have k: "known view r' p = (if p = position a then Some a else known view r p)"
      if "log_begin r' \<le> p" for p
      using known_persisted [of a D view s r p] wf D that unfolding r'_def by blast
    have b: "log_begin r' = max (log_begin r) (truncation a)" "log_end r' = max (log_end r) (position a)"
      "metadata r' = metadata r" "storage r' = s"
      by (simp_all add: r'_def persisted_begin persisted_end)
    have "\<exists>b. view s p = Some b \<and> (p \<notin> unlearned r' \<longrightarrow> is_learned b)"
      if p: "log_begin r' \<le> p" "p \<le> log_end r'" "p \<notin> holes r'" for p
    proof -
      have t: "truncation a \<le> p" "log_begin r \<le> p"
        using p(1) by (simp_all add: b)
      have "view s p = known view r' p"
        using p b by (simp add: known_def)
      then have "view s p = (if p = position a then Some a else known view r p)"
        using k [OF p(1)] by simp
      moreover have "p \<noteq> position a \<Longrightarrow> p \<le> log_end r \<and> p \<notin> holes r"
      proof -
        assume "p \<noteq> position a"
        moreover have "\<not> (p \<in> holes r \<and> p \<noteq> position a \<or> log_end r < p \<and> p < position a)"
          using p(3) persisted_holes [OF wf t(1), of "r\<lparr>storage := s\<rparr>"] by (simp add: r'_def)
        moreover have "p \<le> log_end r \<or> p \<le> position a"
          using p(2) by (simp add: b le_max_iff_disj)
        ultimately show ?thesis
          by (metis linorder_not_le order_less_le)
      qed
      moreover have "p \<in> unlearned r' \<longleftrightarrow> (if p = position a then \<not> is_learned a else p \<in> unlearned r)"
        using persisted_unlearned [OF wf t(1), of "r\<lparr>storage := s\<rparr>"] by (simp add: r'_def)
      ultimately show ?thesis
        using st [OF t(2)] t(2) by (auto simp: known_def)
    qed
    moreover have "wf_action b" if "view s p = Some b" for p b
      using that wfs wf D(2) by (auto simp: restrict_map_def split: if_splits)
    moreover have "log_end r' \<noteq> max_u64"
      using b(2) e pos by (simp add: max_def)
    ultimately have "replica_inv valid view r'"
      using law b(4) by (auto simp: replica_inv_def)
    moreover have "persist ops r a = Ok (True, r')"
      using run True by (simp add: persist_def r'_def)
    ultimately show ?thesis
      using that(1) b k by blast
  next
    case False
    then obtain err where x: "x = Error err"
      using law by (cases x) auto
    define r' where "r' = r\<lparr>storage := s\<rparr>"
    have vs: "view s = view (storage r) \<or> view s = (view (storage r))(position a \<mapsto> a)"
      using law False by blast
    have run': "persist ops r a = Ok (False, r')"
      using run x by (simp add: persist_def r'_def)
    have inv': "replica_inv valid view r'"
      using law vs wf wfs st L e unfolding r'_def replica_inv_def
      by (auto split: if_splits)
    have k: "known view r' p = (if p = position a \<and> known view r p \<noteq> None then known view r' p else known view r p)" for p
      using vs st [of p] by (auto simp: known_def r'_def)
    have k': "known view r' (position a) = known view r (position a) \<or> known view r' (position a) = Some a"
      using vs by (auto simp: known_def r'_def)
    show ?thesis
      by (rule that(2) [OF run' inv' _ _ _ _ k']) (use k in \<open>simp_all add: r'_def\<close>)
  qed
qed

lemma known_position: "replica_inv valid view r \<Longrightarrow> known view r p = Some a \<Longrightarrow> position a = p"
  using view_position by (auto simp: replica_inv_def known_def split: if_splits)

text \<open>
  Persisting an action whose promise is not below the one that governs its position, and which
  keeps what was learned there, advances the replica.
\<close>

lemma persist_advances:
  assumes inv: "replica_inv valid view r" and wf: "wf_action a"
    and g: "governing view r (position a) \<le> promised a"
    and l: "\<And>b. known view r (position a) = Some b \<Longrightarrow> is_learned b \<Longrightarrow>
      is_learned a \<and> action_value a = action_value b"
  obtains ok r' where "persist ops r a = Ok (ok, r')" "replica_inv valid view r'" "advances view r r'"
    "metadata r' = metadata r"
    "\<And>p. log_begin r' \<le> p \<Longrightarrow> p \<noteq> position a \<Longrightarrow> known view r' p = known view r p"
    "log_begin r' \<le> position a \<Longrightarrow> ok \<Longrightarrow> known view r' (position a) = Some a"
    "known view r' (position a) = known view r (position a) \<or> known view r' (position a) = Some a \<or>
       position a < log_begin r'"
proof -
  have L: "is_learned a" if "log_begin r \<le> position a" "position a \<le> log_end r"
    "position a \<notin> holes r" "position a \<notin> unlearned r"
    using inv_known(1) [OF inv that] l by blast
  from inv wf L show ?thesis
  proof (rule persist_cases)
    fix r' assume run: "persist ops r a = Ok (True, r')" "replica_inv valid view r'"
      and b: "log_begin r' = max (log_begin r) (truncation a)" "log_end r' = max (log_end r) (position a)"
      and m: "metadata r' = metadata r"
      and k: "\<forall>p. log_begin r' \<le> p \<longrightarrow>
        known view r' p = (if p = position a then Some a else known view r p)"
    have p: "last_promised r' = last_promised r"
      using m by (simp add: last_promised_def)
    have "governing view r q \<le> governing view r' q" if "log_begin r' \<le> q" for q
      using k [rule_format, OF that] g p by (cases "q = position a") (simp_all add: governing_def split: option.splits)
    then have adv: "advances view r r'"
      using b p k l by (auto simp: advances_def)
    show ?thesis
      by (rule that [OF run adv m]) (use k linorder_not_le in auto)
  next
    fix r' assume run: "persist ops r a = Ok (False, r')" "replica_inv valid view r'"
      and b: "log_begin r' = log_begin r" "log_end r' = log_end r"
      and m: "metadata r' = metadata r"
      and k: "\<forall>p. known view r' p =
         (if p = position a \<and> known view r p \<noteq> None then known view r' p else known view r p)"
      and k': "known view r' (position a) = known view r (position a) \<or>
        known view r' (position a) = Some a"
    have p: "last_promised r' = last_promised r"
      using m by (simp add: last_promised_def)
    have k1: "q \<noteq> position a \<Longrightarrow> known view r' q = known view r q" for q
      using k by metis
    have "governing view r q \<le> governing view r' q" for q
      using k1 [of q] k' g p by (cases "q = position a") (auto simp: governing_def split: option.splits)
    moreover have "known view r q = Some b \<Longrightarrow>
        \<exists>a'. known view r' q = Some a' \<and> (is_learned b \<longrightarrow> is_learned a' \<and> action_value a' = action_value b)" for q b
      using k1 [of q] k' l by (cases "q = position a") auto
    ultimately have adv: "advances view r r'"
      using b p by (auto simp: advances_def)
    show ?thesis
      by (rule that [OF run adv m]) (use k1 k' in auto)
  qed
qed

lemma promise_explicit_ok:
  assumes inv: "replica_inv valid view r" and voting: "status r = VOTING"
    and q: "pq_position q = Some p" "p \<noteq> max_u64"
  obtains r' m where "promise ops r q = Ok (r', m)" "replica_inv valid view r'" "advances view r r'"
    "\<And>p. log_begin r' \<le> p \<Longrightarrow> only_promised view r r' p"
    "\<And>x. m = Some x \<Longrightarrow>
      if pr_okay x then promise_granted view r q x r' else promise_refused view r q x r'"
proof -
  let ?n = "pq_proposal q"
  have run: "promise ops r q = promise_explicit ops r ?n p"
    using voting q by (simp add: promise_def)
  consider (truncated) "p < log_begin r" | (reject) "log_begin r \<le> p" "?n \<le> governing view r p"
    | (grant) "log_begin r \<le> p" "governing view r p < ?n"
    by (meson linorder_not_le)
  then show ?thesis
  proof cases
    case truncated
    then show ?thesis
      using that [of r] run inv q
      by (simp add: promise_explicit_def promise_accept_def promise_granted_def only_promised_def)
  next
    case reject
    then have "promise ops r q = Ok (r, Some (promise_reject (governing view r p)))"
      using run read_known [OF inv, of p] known_position [OF inv, of p]
      by (auto simp: promise_explicit_def governing_def leD split: option.splits)
    then show ?thesis
      using that [of r] reject inv q voting
      by (simp add: promise_reject_def promise_refused_def only_promised_def)
  next
    case grant
    define a where "a = (case known view r p of None \<Rightarrow> new_action p ?n | Some a \<Rightarrow> a\<lparr>promised := ?n\<rparr>)"
    define m where "m = promise_accept ?n (if known view r p = None then Some p else None) (known view r p)"
    have pos: "position a = p"
      using known_position [OF inv, of p] by (simp add: a_def split: option.splits)
    have wf: "wf_action a"
      using q(2) inv_known(2) [OF inv] by (simp add: a_def split: option.splits)
    have "promised a = ?n"
      by (simp add: a_def split: option.splits)
    have run': "promise ops r q = persist_reply ops r a m"
      using grant run read_known [OF inv, of p] known_position [OF inv, of p] unfolding a_def m_def
      by (auto simp: promise_explicit_def governing_def leD split: option.splits)
    have g: "governing view r (position a) \<le> promised a"
      using grant \<open>promised a = ?n\<close> by (simp add: pos)
    have l: "is_learned a \<and> action_value a = action_value b"
      if "known view r (position a) = Some b" "is_learned b" for b
      using that unfolding pos by (simp add: a_def)
    from inv wf g l show ?thesis
    proof (rule persist_advances)
      fix ok r' assume "persist ops r a = Ok (ok, r')" and inv': "replica_inv valid view r'"
        and adv: "advances view r r'" and "metadata r' = metadata r"
        and other: "\<And>p. log_begin r' \<le> p \<Longrightarrow> p \<noteq> position a \<Longrightarrow> known view r' p = known view r p"
        and upd: "log_begin r' \<le> position a \<Longrightarrow> ok \<Longrightarrow> known view r' (position a) = Some a"
        and alt: "known view r' (position a) = known view r (position a) \<or>
          known view r' (position a) = Some a \<or> position a < log_begin r'"
      then have run'': "promise ops r q = Ok (r', if ok then Some m else None)"
        using run' by (simp add: persist_reply_def)
      have only: "only_promised view r r' s" if "log_begin r' \<le> s" for s
        using that other [of s] alt pos unfolding only_promised_def a_def by (cases "s = p") auto
      have granted: "ok \<Longrightarrow> promise_granted view r q m r' \<and> pr_okay m"
        using upd grant q \<open>promised a = ?n\<close>
        by (simp add: promise_granted_def m_def promise_accept_def pos governing_def leD)
      show ?thesis
        by (rule that [OF run'' inv' adv only]) (use granted in \<open>auto split: if_splits\<close>)
    qed
  qed
qed

lemma promise_implicit_ok:
  assumes inv: "replica_inv valid view r" and voting: "status r = VOTING" and q: "pq_position q = None"
  obtains r' m where "promise ops r q = Ok (r', m)" "replica_inv valid view r'" "advances view r r'"
    "known view r' = known view r"
    "\<And>x. m = Some x \<Longrightarrow>
      if pr_okay x then promise_granted view r q x r' else promise_refused view r q x r'"
proof (cases "pq_proposal q \<le> last_promised r")
  case True
  then show ?thesis
    using that [of r] inv voting q
    by (simp add: promise_def promise_implicit_def promise_reject_def promise_refused_def)
next
  case False
  let ?n = "pq_proposal q"
  obtain x s where st: "st_persist_metadata ops \<lparr>meta_status = status r, meta_promised = ?n\<rparr> (storage r) = (x, s)"
    by (cases "st_persist_metadata ops \<lparr>meta_status = status r, meta_promised = ?n\<rparr> (storage r)")
  have v: "valid (storage r)"
    using inv by (simp add: replica_inv_def)
  note law = persist_metadata_law [OF v st]
  define r' where "r' = (if x = Ok () then r\<lparr>storage := s, metadata := (metadata r)\<lparr>meta_promised := ?n\<rparr>\<rparr>
    else r\<lparr>storage := s\<rparr>)"
  have run: "promise ops r q =
      Ok (r', if x = Ok () then Some (promise_accept ?n (Some (log_end r)) None) else None)"
    using False voting q st law
    by (cases x) (simp_all add: promise_def promise_implicit_def updatePromised_def r'_def)
  have same: "log_begin r' = log_begin r" "log_end r' = log_end r" "holes r' = holes r"
    "unlearned r' = unlearned r" "storage r' = s"
    "last_promised r' = (if x = Ok () then ?n else last_promised r)"
    by (simp_all add: r'_def last_promised_def)
  then have k: "known view r' = known view r"
    using law by (auto simp: known_def fun_eq_iff)
  have inv': "replica_inv valid view r'"
    using inv law same by (simp add: replica_inv_def)
  have le: "last_promised r \<le> last_promised r'"
    using False same by (simp add: order.strict_implies_order not_le)
  then have adv: "advances view r r'"
    using same k by (auto simp: advances_def governing_def split: option.splits)
  show ?thesis
    using that [OF run inv' adv k] False q same
    by (auto simp: promise_granted_def promise_accept_def not_le split: if_splits)
qed

lemma write_ok:
  assumes inv: "replica_inv valid view r" and q: "request_ok q"
  obtains r' m where "replica_write ops r q = Ok (r', m)" "replica_inv valid view r'"
    "advances view r r'"
    "\<And>p. log_begin r' \<le> p \<Longrightarrow> p \<noteq> wq_position q \<Longrightarrow> known view r' p = known view r p"
    "\<And>x. m = Some x \<Longrightarrow> wr_okay x \<Longrightarrow> write_accepted view r q r'"
    "\<And>x. m = Some x \<Longrightarrow> \<not> wr_okay x \<Longrightarrow> r' = r \<and>
      (status r = VOTING \<longrightarrow> wq_proposal q < wr_proposal x \<and>
        wr_proposal x = governing view r (wq_position q))"
    "log_begin r' \<le> wq_position q \<Longrightarrow>
      known view r' (wq_position q) = known view r (wq_position q) \<or>
      (\<exists>a. known view r' (wq_position q) = Some a \<and>
         vote (Some a) = Some (wq_proposal q, request_value q) \<and> learned a = wq_learned q \<and>
         promised a = governing view r (wq_position q) \<and>
         governing view r (wq_position q) \<le> wq_proposal q \<and> status r = VOTING)"
proof -
  let ?n = "wq_proposal q" and ?p = "wq_position q"
  note read = read_known [OF inv, of ?p] and pos = known_position [OF inv, of ?p]
  consider (ignored) m where "replica_write ops r q = Ok (r, m)"
      "\<And>x. m = Some x \<Longrightarrow> \<not> wr_okay x \<and> (status r = VOTING \<longrightarrow>
         ?n < wr_proposal x \<and> wr_proposal x = governing view r ?p)"
    | (accept) "status r = VOTING" "log_begin r \<le> ?p" "governing view r ?p \<le> ?n"
      "\<And>a. known view r ?p = Some a \<Longrightarrow> \<not> is_learned a"
  proof -
    have "replica_write ops r q = Ok (r, Some (write_response IGNORED ?n ?p))" if "status r \<noteq> VOTING"
      using that by (simp add: replica_write_def)
    moreover have "replica_write ops r q = Ok (r, None)" if "status r = VOTING" "?p < log_begin r"
      using that read by (simp add: replica_write_def)
    moreover have "replica_write ops r q = Ok (r, Some (write_response REJECT (governing view r ?p) ?p))"
      if "status r = VOTING" "log_begin r \<le> ?p" "?n < governing view r ?p"
      using that read pos by (auto simp: replica_write_def governing_def leD split: option.splits)
    moreover have "replica_write ops r q = Ok (r, None)"
      if "status r = VOTING" "log_begin r \<le> ?p" "governing view r ?p \<le> ?n"
        "known view r ?p = Some a" "is_learned a" for a
      using that read pos by (simp add: replica_write_def governing_def leD)
    ultimately show thesis
      using ignored accept by (cases "status r = VOTING"; cases "log_begin r \<le> ?p";
          cases "governing view r ?p \<le> ?n") (force simp: write_response_def not_le)+
  qed
  then show ?thesis
  proof cases
    case ignored
    show ?thesis
      by (rule that [OF ignored(1) inv]) (auto dest: ignored(2))
  next
    case accept
    define a0 where "a0 = (case known view r ?p of None \<Rightarrow> new_action ?p (last_promised r) | Some a \<Rightarrow> a)"
    have "position a0 = ?p" and prom: "promised a0 = governing view r ?p"
      using pos by (simp_all add: a0_def governing_def split: option.splits)
    from set_request_ok [OF q this(1)] obtain a where a: "set_request q a0 = Ok a" "position a = ?p"
      "promised a = promised a0" "wf_action a" "vote (Some a) = Some (?n, request_value q)"
      "learned a = wq_learned q"
      by metis
    have run: "replica_write ops r q = persist_reply ops r a (write_response ACCEPT ?n ?p)"
      using accept read pos a(1) unfolding a0_def
      by (auto simp: replica_write_def governing_def leD split: option.splits)
    have g: "governing view r (position a) \<le> promised a"
      using a prom by simp
    have l: "is_learned a \<and> action_value a = action_value b"
      if "known view r (position a) = Some b" "is_learned b" for b
      using that accept(4) a(2) by simp
    from inv a(4) g l show ?thesis
    proof (rule persist_advances)
      fix ok r' assume "persist ops r a = Ok (ok, r')" and inv': "replica_inv valid view r'"
        and adv: "advances view r r'"
        and other: "\<And>p. log_begin r' \<le> p \<Longrightarrow> p \<noteq> position a \<Longrightarrow> known view r' p = known view r p"
        and upd: "log_begin r' \<le> position a \<Longrightarrow> ok \<Longrightarrow> known view r' (position a) = Some a"
        and alt: "known view r' (position a) = known view r (position a) \<or>
          known view r' (position a) = Some a \<or> position a < log_begin r'"
      then have run': "replica_write ops r q =
          Ok (r', if ok then Some (write_response ACCEPT ?n ?p) else None)"
        using run by (simp add: persist_reply_def)
      have acc: "ok \<Longrightarrow> write_accepted view r q r'"
        using upd accept a by (auto simp: write_accepted_def)
      show ?thesis
        by (rule that [OF run' inv' adv])
          (use other acc alt a accept prom in \<open>auto simp: write_response_def not_le split: if_splits\<close>)
    qed
  qed
qed

lemma promise_ok:
  assumes inv: "replica_inv valid view r" and q: "pq_position q \<noteq> Some max_u64"
  obtains r' m where "promise ops r q = Ok (r', m)" "replica_inv valid view r'" "advances view r r'"
    "\<And>p. log_begin r' \<le> p \<Longrightarrow> only_promised view r r' p"
    "\<And>x. m = Some x \<Longrightarrow>
      if pr_okay x then promise_granted view r q x r' else promise_refused view r q x r'"
proof (cases "status r = VOTING")
  case False
  then have run: "promise ops r q = Ok (r, Some (promise_ignored q))"
    by (simp add: promise_def)
  show ?thesis
    by (rule that [OF run inv]) (use False in \<open>auto simp: promise_ignored_def promise_refused_def only_promised_def\<close>)
next
  case True
  show ?thesis
  proof (cases "pq_position q")
    case None
    show ?thesis
    proof (rule promise_implicit_ok [OF inv True None])
      fix r' m
      assume r': "promise ops r q = Ok (r', m)" "replica_inv valid view r'" "advances view r r'"
        and k: "known view r' = known view r"
        and m: "\<And>x. m = Some x \<Longrightarrow>
          if pr_okay x then promise_granted view r q x r' else promise_refused view r q x r'"
      show ?thesis
        by (rule that [OF r' _ m]) (simp_all add: k only_promised_def)
    qed
  next
    case (Some p)
    then have p: "p \<noteq> max_u64"
      using q by simp
    show ?thesis
      by (rule promise_explicit_ok [OF inv True Some p]) (rule that)
  qed
qed

text \<open>A learned message is stored, whatever the replica has promised.\<close>

lemma learned_message_ok:
  assumes inv: "replica_inv valid view r" and a: "wf_action a" "learned a = Some True"
  obtains r' where "learned_message ops r a = Ok r'" "replica_inv valid view r'"
    "metadata r' = metadata r" "log_begin r \<le> log_begin r'" "log_end r \<le> log_end r'"
    "\<And>p. log_begin r' \<le> p \<Longrightarrow> p \<noteq> position a \<Longrightarrow> known view r' p = known view r p"
    "known view r' (position a) = known view r (position a) \<or> known view r' (position a) = Some a \<or>
       position a < log_begin r'"
proof -
  have L: "is_learned a"
    using a by (simp add: is_learned_def)
  show ?thesis
  proof (rule persist_cases [OF inv a(1) L])
    fix r' assume "persist ops r a = Ok (True, r')" and r': "replica_inv valid view r'"
      and b: "log_begin r' = max (log_begin r) (truncation a)" "log_end r' = max (log_end r) (position a)"
      and m: "metadata r' = metadata r"
      and k: "\<forall>p. log_begin r' \<le> p \<longrightarrow>
        known view r' p = (if p = position a then Some a else known view r p)"
    then have "learned_message ops r a = Ok r'"
      using a by (simp add: learned_message_def)
    then show ?thesis
      by (rule that [OF _ r' m]) (use b k in \<open>auto simp: not_less\<close>)
  next
    fix r' assume "persist ops r a = Ok (False, r')" and r': "replica_inv valid view r'"
      and b: "log_begin r' = log_begin r" "log_end r' = log_end r"
      and m: "metadata r' = metadata r"
      and k: "\<forall>p. known view r' p =
         (if p = position a \<and> known view r p \<noteq> None then known view r' p else known view r p)"
      and k': "known view r' (position a) = known view r (position a) \<or>
        known view r' (position a) = Some a"
    then have run: "learned_message ops r a = Ok r'"
      using a by (simp add: learned_message_def)
    have other: "known view r' p = known view r p" if "p \<noteq> position a" for p
      using k [rule_format, of p] that by simp
    show ?thesis
      by (rule that [OF run r' m]) (use b k' other in auto)
  qed
qed

lemma update_ok:
  assumes inv: "replica_inv valid view r"
  obtains ok r' where "update ops r st = Ok (ok, r')" "replica_inv valid view r'"
    "last_promised r' = last_promised r" "known view r' = known view r" "log_end r' = log_end r"
    "status r' = (if ok then st else status r)"
    "ok \<Longrightarrow> meta (storage r') = \<lparr>meta_status = st, meta_promised = last_promised r\<rparr>"
proof -
  let ?m = "\<lparr>meta_status = st, meta_promised = last_promised r\<rparr>"
  obtain x s where run: "st_persist_metadata ops ?m (storage r) = (x, s)"
    by (cases "st_persist_metadata ops ?m (storage r)")
  have v: "valid (storage r)"
    using inv by (simp add: replica_inv_def)
  note law = persist_metadata_law [OF v run]
  define r' where "r' = (if x = Ok () then r\<lparr>storage := s, metadata := (metadata r)\<lparr>meta_status := st\<rparr>\<rparr>
    else r\<lparr>storage := s\<rparr>)"
  have "update ops r st = Ok (x = Ok (), r')"
    using run law by (cases x) (simp_all add: update_def r'_def)
  moreover have "replica_inv valid view r'"
    using inv law by (simp add: replica_inv_def r'_def)
  moreover have "known view r' = known view r"
    using law by (auto simp: known_def r'_def fun_eq_iff)
  ultimately show ?thesis
    using that [of "x = Ok ()" r'] law
    by (simp add: r'_def last_promised_def status_def)
qed

text \<open>
  A restart: the replica is restored from what its storage holds. Its holes are the positions
  between its ends without a record, the unlearned positions those with an unlearned record.
\<close>

lemma restore_ok:
  assumes v: "valid s" and wf: "\<And>p a. view s p = Some a \<Longrightarrow> wf_action a"
    and run: "restore ops (reopen s) = Ok r"
  shows "replica_inv valid view r" "metadata r = meta s" "view (storage r) = view s"
    "meta (storage r) = meta s"
    "log_begin r = Max (insert 0 (truncation ` ran (view s)))"
    "log_end r = Max (insert 0 (dom (view s)))"
    "p \<in> holes r \<longleftrightarrow> log_begin r \<le> p \<and> p \<le> log_end r \<and> view s p = None"
    "p \<in> unlearned r \<longleftrightarrow> (\<exists>a. view s p = Some a \<and> \<not> is_learned a)"
proof -
  obtain st s' where st: "st_restore ops (reopen s) = (Ok st, s')"
    and r: "r = \<lparr>storage = s', metadata = st_metadata st, log_begin = st_begin st, log_end = st_end st,
              holes = elems (comma (Closed (st_begin st)) (Closed (st_end st)))
                        - st_learned st - st_unlearned st, unlearned = st_unlearned st\<rparr>"
    using run by (auto simp: restore_def split: outcome.splits prod.splits)
  have law: "st = recovered (meta s) (view s)" "valid s'" "view s' = view s" "meta s' = meta s"
    using restore_law [OF v st] by auto
  show simple: "metadata r = meta s" "view (storage r) = view s" "meta (storage r) = meta s"
    and b: "log_begin r = Max (insert 0 (truncation ` ran (view s)))"
    and e: "log_end r = Max (insert 0 (dom (view s)))"
    using r law by (simp_all add: recovered_def)
  have "log_end r \<in> insert 0 (dom (view s))"
    unfolding e by (rule Max_in) simp_all
  then have e': "log_end r \<noteq> max_u64"
    using view_position [OF v] by force
  have u: "q \<in> unlearned r \<longleftrightarrow> (\<exists>a. view s q = Some a \<and> \<not> is_learned a)" for q
    using r law by (simp add: recovered_def)
  have h: "q \<in> holes r \<longleftrightarrow> log_begin r \<le> q \<and> q \<le> log_end r \<and> view s q = None" for q
    using r law e' u64_less_succ_iff [of "log_end r" q] by (auto simp: recovered_def)
  show "p \<in> unlearned r \<longleftrightarrow> (\<exists>a. view s p = Some a \<and> \<not> is_learned a)"
    "p \<in> holes r \<longleftrightarrow> log_begin r \<le> p \<and> p \<le> log_end r \<and> view s p = None"
    by (rule u, rule h)
  show "replica_inv valid view r"
    using law e' u h wf r simple unfolding replica_inv_def by (auto simp: r)
qed

end

lemma missing_range_iff:
  assumes "log_end r \<noteq> max_u64" and "t \<noteq> max_u64" and "f \<le> p" and "p \<le> t" and "log_begin r \<le> p"
    and "\<And>q. q \<in> unlearned r \<union> holes r \<Longrightarrow> q \<le> log_end r"
  shows "p \<in> missing_range r f t \<longleftrightarrow> missing r p"
proof -
  have "f \<le> t"
    using assms(3,4) by (rule order_trans)
  then have *: "\<not> t < f"
    by (simp add: not_less)
  have beyond: "p \<in> elems (comma (Open (log_end r)) (Closed t)) \<longleftrightarrow> log_end r < p"
    using u64_succ_le_iff [OF assms(1), of p] u64_less_succ_iff [OF assms(2), of p] assms(4) by simp
  have within: "p \<in> elems (comma (Closed f) (Closed t))"
    using u64_less_succ_iff [OF assms(2), of p] assms(3,4) by simp
  have "log_end r < p \<Longrightarrow> log_end r < t"
    using assms(4) by simp
  moreover have "log_end r < p \<Longrightarrow> p \<notin> unlearned r \<union> holes r"
    using assms(6) leD by blast
  moreover have "\<not> p < log_begin r"
    using assms(5) by (simp add: not_less)
  ultimately show ?thesis
    using * beyond within unfolding missing_range_def missing_def Let_def
    by (auto simp del: elems_iff comma.simps)
qed

lemma unat_word_of_nat_le: "n \<le> unat (t::u64) \<Longrightarrow> unat (word_of_nat n :: u64) = n"
proof -
  assume "n \<le> unat t"
  also have "unat t < 2 ^ LENGTH(64)"
    by (rule unsigned_less)
  finally have "take_bit LENGTH(64) n = n"
    by (rule take_bit_nat_eq_self)
  then show ?thesis
    by (simp only: unsigned_of_nat of_nat_id)
qed

lemma set_positions: "p \<in> set (positions f t) \<longleftrightarrow> f \<le> p \<and> p \<le> t"
proof
  assume "p \<in> set (positions f t)"
  then obtain n where n: "p = word_of_nat n" "unat f \<le> n" "n \<le> unat t"
    by (auto simp: positions_def simp del: upt_Suc)
  then have "unat p = n"
    using unat_word_of_nat_le by metis
  with n(2,3) have "unat f \<le> unat p \<and> unat p \<le> unat t"
    by simp
  then show "f \<le> p \<and> p \<le> t"
    by (simp only: word_le_nat_alt)
next
  assume "f \<le> p \<and> p \<le> t"
  then have "unat p \<in> set [unat f ..< Suc (unat t)]"
    unfolding word_le_nat_alt set_upt atLeastLessThan_iff less_Suc_eq_le .
  moreover have "p = word_of_nat (unat p)"
    by (simp only: of_nat_unat ucast_id)
  ultimately show "p \<in> set (positions f t)"
    unfolding positions_def set_map by (rule image_eqI [rotated])
qed

context log_storage
begin

lemma read_positions_known:
  assumes "replica_inv valid view r" and "\<And>p. p \<in> set ps \<Longrightarrow> log_begin r \<le> p"
  shows "read_positions ops r ps = Ok (List.map_filter (known view r) ps)"
  using assms(2)
  by (induction ps)
    (auto simp: read_known [OF assms(1)] List.map_filter_simps not_less leD split: option.splits)

lemma read_range_known:
  assumes "replica_inv valid view r" and "log_begin r \<le> f" and "f \<le> t" and "t \<le> log_end r"
  shows "read_range ops r f t = Ok (List.map_filter (known view r) (positions f t))"
proof -
  have "log_begin r \<le> p" if "p \<in> set (positions f t)" for p
    using that assms(2) order_trans unfolding set_positions by blast
  then show ?thesis
    using read_positions_known [OF assms(1)] assms(2-4) by (simp add: read_range_def leD)
qed

end

subsection \<open>Replicas on LevelDB\<close>

abbreviation ldb_inv :: "('db, 'v) LevelDBStorage replica \<Rightarrow> bool" where
  "ldb_inv \<equiv> replica_inv leveldb_valid leveldb_view"

text \<open>
  The replica of a new log that was told to vote, with an in-memory database; for the examples.
\<close>

definition fresh_replica :: "((string \<times> Rec) list, Rec) LevelDBStorage replica" where
  "fresh_replica =
     \<lparr>storage = mem_storage [(key 0, metadata_record \<lparr>meta_status = VOTING, meta_promised = 0\<rparr>)],
      metadata = \<lparr>meta_status = VOTING, meta_promised = 0\<rparr>,
      log_begin = 0, log_end = 0, holes = {0}, unlearned = {}\<rparr>"

lemma fresh_view: "leveldb_view (storage fresh_replica) = Map.empty"
  by (auto simp: fresh_replica_def leveldb_view_def view_in_def record_in_def db_content_def
      mem_leveldb_def map_of_mem_iterate fun_eq_iff)

lemma fresh_inv: "ldb_inv fresh_replica"
proof -
  have "leveldb_valid (storage fresh_replica)"
    using record_ok_metadata by (auto simp: fresh_replica_def intro: mem_storage_valid)
  then show ?thesis
    using fresh_view unfolding replica_inv_def by (simp add: fresh_replica_def)
qed

lemma fresh_known: "known leveldb_view fresh_replica p = None"
  by (simp add: known_def fresh_view)



text \<open>
  Property C11. The write handler never aborts on a well-formed request, keeps the invariant and
  never lowers a promise or changes a learned position. An accepted write was not below the promise
  that governs its position, and its value is the replica's vote afterwards; a refused write changes
  nothing and the response names a higher promise; no other position changes.
\<close>

theorem write_safe:
  assumes "ldb_inv r" and "request_ok q"
  shows "\<exists>r' m. replica_write LevelDBStorage_ops r q = Ok (r', m) \<and> ldb_inv r' \<and>
    advances leveldb_view r r' \<and>
    (\<forall>p. log_begin r' \<le> p \<longrightarrow> p \<noteq> wq_position q \<longrightarrow>
       known leveldb_view r' p = known leveldb_view r p) \<and>
    (\<forall>x. m = Some x \<longrightarrow>
       (if wr_okay x then write_accepted leveldb_view r q r'
        else r' = r \<and>
          (status r = VOTING \<longrightarrow> wq_proposal q < wr_proposal x \<and>
             wr_proposal x = governing leveldb_view r (wq_position q))))"
  by (rule ldb.write_ok [OF assms], intro exI conjI allI impI; (assumption | simp split del: if_split)?)
    (metis (full_types))

definition sample_write :: WriteRequest where
  "sample_write =
     \<lparr>wq_proposal = 2, wq_position = 0, wq_learned = None, wq_type = APPEND, wq_nop = None,
      wq_append = Some \<lparr>bytes = ''x'', cksum = None\<rparr>, wq_truncate = None\<rparr>"

theorem write_safe_witness:
  "\<exists>r' m. replica_write LevelDBStorage_ops fresh_replica sample_write = Ok (r', m) \<and>
     ldb_inv r' \<and> advances leveldb_view fresh_replica r'"
proof -
  have "request_ok sample_write"
    by (simp add: sample_write_def request_ok_def)
  from write_safe [OF fresh_inv this] show ?thesis
    by blast
qed

text \<open>
  Property C24. A replica that restarts takes its metadata from the storage and knows exactly the
  stored positions: its holes are the positions of the log without a record, its unlearned positions
  those whose record is not learned, its end is the last stored position.
\<close>

theorem restart_recovers:
  assumes "leveldb_valid s" and "\<And>p a. leveldb_view s p = Some a \<Longrightarrow> wf_action a"
    and "fst (db_open (db_api s) (db s)) = None"
  shows "\<exists>r. restore LevelDBStorage_ops (leveldb_reopen s) = Ok r \<and> ldb_inv r \<and>
    metadata r = leveldb_meta s \<and>
    log_begin r = Max (insert 0 (truncation ` ran (leveldb_view s))) \<and>
    log_end r = Max (insert 0 (dom (leveldb_view s))) \<and>
    (\<forall>p. p \<in> holes r \<longleftrightarrow> log_begin r \<le> p \<and> p \<le> log_end r \<and> leveldb_view s p = None) \<and>
    (\<forall>p. p \<in> unlearned r \<longleftrightarrow> (\<exists>a. leveldb_view s p = Some a \<and> \<not> is_learned a))"
proof -
  have "db_open (db_api (leveldb_reopen s)) (db (leveldb_reopen s)) =
      (None, snd (db_open (db_api s) (db s)))"
    using assms(3) by (simp add: leveldb_reopen_def prod_eq_iff)
  from leveldb_restore_run [OF _ this] assms(1) obtain s' where
    "leveldb_restore (leveldb_reopen s) = (Ok (recovered (leveldb_meta s) (leveldb_view s)), s')"
    by (auto simp: leveldb_reopen_def storage_simps)
  then obtain r where r: "restore LevelDBStorage_ops (leveldb_reopen s) = Ok r"
    by (simp add: restore_def LevelDBStorage_ops_simps)
  show ?thesis
    using ldb.restore_ok [OF assms(1) _ r] assms(2) r by blast
qed

theorem restart_recovers_witness:
  "\<exists>r. restore LevelDBStorage_ops (leveldb_reopen (storage fresh_replica)) = Ok r \<and> ldb_inv r"
proof -
  have "leveldb_valid (storage fresh_replica)"
    using fresh_inv by (simp add: replica_inv_def)
  moreover have "fst (db_open (db_api (storage fresh_replica)) (db (storage fresh_replica))) = None"
    by (simp add: fresh_replica_def mem_leveldb_def)
  ultimately show ?thesis
    using restart_recovers [of "storage fresh_replica"] fresh_view by auto
qed

text \<open>
  The ranged read of a valid range returns the records the replica knows in that range,
  in the order of the positions, and never fails or aborts.
\<close>

theorem read_range_returns:
  assumes "ldb_inv r" and "log_begin r \<le> f" and "f \<le> t" and "t \<le> log_end r"
  shows "read_range LevelDBStorage_ops r f t =
           Ok (List.map_filter (known leveldb_view r) (positions f t))"
  by (rule ldb.read_range_known [OF assms])

theorem read_range_returns_witness:
  "read_range LevelDBStorage_ops fresh_replica 0 0 = Ok []"
proof -
  have "log_begin fresh_replica \<le> 0" "(0::u64) \<le> 0" "0 \<le> log_end fresh_replica"
    by (simp_all add: fresh_replica_def)
  from read_range_returns [OF fresh_inv this] show ?thesis
    by (simp add: fresh_known positions_def List.map_filter_simps)
qed

text \<open>
  Where nothing is truncated, the ranged \<open>missing\<close> is the set of the positions that
  the single \<open>missing\<close> reports, provided no unlearned position and no hole is beyond the end.
\<close>

theorem missing_range_missing:
  assumes "log_end r \<noteq> max_u64" and "t \<noteq> max_u64" and "log_begin r \<le> f"
    and "\<And>q. q \<in> unlearned r \<union> holes r \<Longrightarrow> q \<le> log_end r"
  shows "missing_range r f t = {p. f \<le> p \<and> p \<le> t \<and> missing r p}"
proof (cases "t < f")
  case True
  then have "\<not> (f \<le> p \<and> p \<le> t)" for p
    using leD order_trans by blast
  then show ?thesis
    unfolding missing_range_def if_P [OF True] by blast
next
  case False
  have "p \<in> missing_range r f t \<Longrightarrow> p \<in> elems (comma (Closed f) (Closed t))" for p
    unfolding missing_range_def if_not_P [OF False] Let_def by (rule IntD2)
  then have "p \<in> missing_range r f t \<Longrightarrow> f \<le> p \<and> p \<le> t" for p
    using u64_less_succ_iff [OF assms(2), of p] by simp
  moreover have "p \<in> missing_range r f t \<longleftrightarrow> missing r p" if "f \<le> p" "p \<le> t" for p
    by (rule missing_range_iff [OF assms(1,2) that order_trans [OF assms(3) that(1)] assms(4)])
  ultimately show ?thesis
    by blast
qed

theorem missing_range_missing_witness:
  "missing_range fresh_replica 0 5 = {p. 0 \<le> p \<and> p \<le> 5 \<and> missing fresh_replica p}"
  by (rule missing_range_missing) (auto simp: fresh_replica_def)

text \<open>
  The ranged \<open>missing\<close> can report a truncated position that the single \<open>missing\<close>
  does not: the intervals that a truncation removes start after 0, so position 0 stays a hole. Here
  a learned truncation to 5 reaches a replica with an empty log.
\<close>

theorem missing_range_truncated_zero:
  "\<exists>r. learned_message LevelDBStorage_ops fresh_replica sample_truncate = Ok r \<and>
     0 \<in> missing_range r 0 9 \<and> \<not> missing r 0"
proof -
  have "batch_keys 9 5 0 = Ok []"
    by (subst batch_keys.simps) (simp add: word_less_nat_alt)
  then have "\<exists>s. st_persist_action LevelDBStorage_ops sample_truncate (storage fresh_replica) = (Ok (), s)"
    by (simp add: LevelDBStorage_ops_simps mem_eval sample_truncate_def is_truncate_def is_learned_def
        truncate_to_def delete_truncated_def min_option_def fresh_replica_def)
  then obtain s where
    "learned_message LevelDBStorage_ops fresh_replica sample_truncate =
       Ok (persisted sample_truncate (fresh_replica\<lparr>storage := s\<rparr>))"
    by (auto simp: learned_message_def persist_def sample_truncate_def)
  moreover have "0 \<in> missing_range (persisted sample_truncate (fresh_replica\<lparr>storage := s\<rparr>)) 0 9"
    "\<not> missing (persisted sample_truncate (fresh_replica\<lparr>storage := s\<rparr>)) 0"
    by (simp_all add: missing_range_def missing_def persisted_def sample_truncate_def is_learned_def
        is_truncate_def truncate_to_def fresh_replica_def Let_def word_less_nat_alt word_le_nat_alt max_def)
  ultimately show ?thesis
    by blast
qed

end
