(* ===== verification/Paxos_Spec.thy ===== *)
theory Paxos_Spec
  imports Mesos_Prelude
begin

section \<open>Specification: Paxos for one position\<close>

text \<open>
  The abstract protocol that the replicated log promises to run for each position: acceptors with a
  ballot and a last vote, proposers that choose a value from the grants of a quorum. The components
  refine it; agreement is proved here once, for any system of intersecting quorums.

  The fields \<open>grants\<close>, \<open>proposed\<close> and \<open>voted\<close> are the history of the execution.
\<close>

record ('i, 'c, 'n, 'v) paxos =
  ballot :: "'i \<Rightarrow> 'n"
  last_vote :: "'i \<Rightarrow> ('n \<times> 'v) option"
  grants :: "('i \<times> 'n \<times> 'c \<times> ('n \<times> 'v) option) set"
  proposed :: "('c \<times> 'n \<times> 'v) set"
  voted :: "('i \<times> 'n \<times> 'v) set"
  settled :: "'i \<Rightarrow> 'v option"

definition paxos_init :: "('i, 'c, 'n, 'v) paxos \<Rightarrow> bool" where
  "paxos_init s \<longleftrightarrow>
     (\<forall>i. last_vote s i = None) \<and> grants s = {} \<and> proposed s = {} \<and> voted s = {} \<and>
     (\<forall>i. settled s i = None)"

text \<open>The votes that the grants of \<open>Q\<close> to proposer \<open>c\<close> with number \<open>n\<close> report.\<close>

definition reported :: "('i, 'c, 'n::linorder, 'v) paxos \<Rightarrow> 'i set \<Rightarrow> 'c \<Rightarrow> 'n \<Rightarrow> ('n \<times> 'v) set" where
  "reported s Q c n = {w. \<exists>i\<in>Q. (i, n, c, Some w) \<in> grants s}"

definition may_propose ::
  "('i, 'c, 'n::linorder, 'v) paxos \<Rightarrow> 'i set \<Rightarrow> 'c \<Rightarrow> 'n \<Rightarrow> 'v \<Rightarrow> bool" where
  "may_propose s Q c n x \<longleftrightarrow>
     (\<forall>i\<in>Q. \<exists>vo. (i, n, c, vo) \<in> grants s) \<and> (\<forall>y. (c, n, y) \<notin> proposed s) \<and>
     (reported s Q c n = {} \<or> (\<exists>k. (k, x) \<in> reported s Q c n \<and> (\<forall>w\<in>reported s Q c n. fst w \<le> k)))"

definition chosen :: "('i set \<Rightarrow> bool) \<Rightarrow> ('i, 'c, 'n::linorder, 'v) paxos \<Rightarrow> 'n \<Rightarrow> 'v \<Rightarrow> bool" where
  "chosen quorum s n x \<longleftrightarrow> (\<exists>Q. quorum Q \<and> (\<forall>i\<in>Q. (i, n, x) \<in> voted s))"

inductive paxos_step ::
  "('i set \<Rightarrow> bool) \<Rightarrow> ('i, 'c, 'n::linorder, 'v) paxos \<Rightarrow> ('i, 'c, 'n::linorder, 'v) paxos \<Rightarrow> bool" for quorum where
  Advance: "ballot s i \<le> n \<Longrightarrow> paxos_step quorum s (s\<lparr>ballot := (ballot s)(i := n)\<rparr>)"
| Grant:
    "ballot s i < n \<Longrightarrow>
     paxos_step quorum s
       (s\<lparr>ballot := (ballot s)(i := n), grants := insert (i, n, c, last_vote s i) (grants s)\<rparr>)"
| Propose:
    "quorum Q \<Longrightarrow> may_propose s Q c n x \<Longrightarrow>
     paxos_step quorum s (s\<lparr>proposed := insert (c, n, x) (proposed s)\<rparr>)"
| Vote:
    "(c, n, x) \<in> proposed s \<Longrightarrow> ballot s i = n \<Longrightarrow>
     paxos_step quorum s
       (s\<lparr>last_vote := (last_vote s)(i := Some (n, x)), voted := insert (i, n, x) (voted s)\<rparr>)"
| Learn: "chosen quorum s n x \<Longrightarrow> paxos_step quorum s (s\<lparr>settled := (settled s)(i := Some x)\<rparr>)"

definition paxos_reachable :: "('i set \<Rightarrow> bool) \<Rightarrow> ('i, 'c, 'n::linorder, 'v) paxos \<Rightarrow> bool" where
  "paxos_reachable quorum s \<longleftrightarrow> (\<exists>s0. paxos_init s0 \<and> (paxos_step quorum)\<^sup>*\<^sup>* s0 s)"

subsection \<open>Invariants\<close>

text \<open>
  \<open>Acceptors\<close>: votes are at most the ballot and the last vote is the highest. \<open>Grants\<close>: a grant was
  given once per ballot and reports the highest vote below it. \<open>Safe\<close>: no value other than \<open>x\<close> can be
  chosen below \<open>n\<close>.
\<close>

definition acceptors_ok :: "('i, 'c, 'n::linorder, 'v) paxos \<Rightarrow> bool" where
  "acceptors_ok s \<longleftrightarrow>
     (\<forall>i n x. (i, n, x) \<in> voted s \<longrightarrow>
        n \<le> ballot s i \<and> (\<exists>k z. last_vote s i = Some (k, z) \<and> n \<le> k) \<and> (\<exists>c. (c, n, x) \<in> proposed s)) \<and>
     (\<forall>i k z. last_vote s i = Some (k, z) \<longrightarrow> (i, k, z) \<in> voted s)"

definition grant_ok ::
  "('i, 'c, 'n::linorder, 'v) paxos \<Rightarrow> 'i \<Rightarrow> 'n \<Rightarrow> 'c \<Rightarrow> ('n \<times> 'v) option \<Rightarrow> bool" where
  "grant_ok s i n c vo \<longleftrightarrow>
     n \<le> ballot s i \<and>
     (\<forall>k z. vo = Some (k, z) \<longrightarrow> (i, k, z) \<in> voted s \<and> k < n) \<and>
     (\<forall>m y. (i, m, y) \<in> voted s \<longrightarrow> m < n \<longrightarrow> (\<exists>k z. vo = Some (k, z) \<and> m \<le> k)) \<and>
     (\<forall>c' vo'. (i, n, c', vo') \<in> grants s \<longrightarrow> c' = c \<and> vo' = vo)"

definition grants_ok :: "('i, 'c, 'n::linorder, 'v) paxos \<Rightarrow> bool" where
  "grants_ok s \<longleftrightarrow> (\<forall>i n c vo. (i, n, c, vo) \<in> grants s \<longrightarrow> grant_ok s i n c vo)"

definition proposals_ok :: "('i set \<Rightarrow> bool) \<Rightarrow> ('i, 'c, 'n::linorder, 'v) paxos \<Rightarrow> bool" where
  "proposals_ok quorum s \<longleftrightarrow>
     (\<forall>c n x. (c, n, x) \<in> proposed s \<longrightarrow>
        (\<exists>Q. quorum Q \<and> (\<forall>i\<in>Q. \<exists>vo. (i, n, c, vo) \<in> grants s)) \<and>
        (\<forall>y. (c, n, y) \<in> proposed s \<longrightarrow> y = x))"

definition safe :: "('i set \<Rightarrow> bool) \<Rightarrow> ('i, 'c, 'n::linorder, 'v) paxos \<Rightarrow> 'n \<Rightarrow> 'v \<Rightarrow> bool" where
  "safe quorum s n x \<longleftrightarrow>
     (\<forall>m<n. \<exists>Q. quorum Q \<and>
        (\<forall>i\<in>Q. m < ballot s i \<and> (\<forall>y. (i, m, y) \<in> voted s \<longrightarrow> y = x)))"

lemma acceptors_okD:
  assumes "acceptors_ok s"
  shows vote_ballot: "(i, n, x) \<in> voted s \<Longrightarrow> n \<le> ballot s i"
    and vote_last: "(i, n, x) \<in> voted s \<Longrightarrow> \<exists>k z. last_vote s i = Some (k, z) \<and> n \<le> k"
    and vote_proposed: "(i, n, x) \<in> voted s \<Longrightarrow> \<exists>c. (c, n, x) \<in> proposed s"
    and last_vote_voted: "last_vote s i = Some (k, z) \<Longrightarrow> (i, k, z) \<in> voted s"
  using assms by (auto simp: acceptors_ok_def)

lemma grants_okD:
  assumes "grants_ok s" and "(i, n, c, vo) \<in> grants s"
  shows grant_ballot: "n \<le> ballot s i"
    and grant_voted: "vo = Some (k, z) \<Longrightarrow> (i, k, z) \<in> voted s"
    and grant_below: "vo = Some (k, z) \<Longrightarrow> k < n"
    and grant_highest: "(i, m, y) \<in> voted s \<Longrightarrow> m < n \<Longrightarrow> \<exists>k z. vo = Some (k, z) \<and> m \<le> k"
    and grant_unique: "(i, n, c', vo') \<in> grants s \<Longrightarrow> c' = c \<and> vo' = vo"
  using assms unfolding grants_ok_def grant_ok_def by blast+

lemma ballot_grows: "paxos_step quorum s s' \<Longrightarrow> ballot s i \<le> ballot s' i"
  by (induction rule: paxos_step.induct) (auto simp: order.strict_implies_order)

text \<open>A vote is cast at the current ballot, so a ballot that has been passed gets no new votes.\<close>

lemma new_votes:
  "paxos_step quorum s s' \<Longrightarrow> (i, n, x) \<in> voted s' \<Longrightarrow>
   (i, n, x) \<in> voted s \<or> ballot s i = n \<and> ballot s' i = n"
  by (induction rule: paxos_step.induct) auto

lemma safe_stable:
  assumes "paxos_step quorum s s'" and "safe quorum s n x"
  shows "safe quorum s' n x"
  unfolding safe_def
proof (intro allI impI)
  fix m assume "m < n"
  then obtain Q where Q: "quorum Q"
    and old: "\<And>i. i \<in> Q \<Longrightarrow> m < ballot s i \<and> (\<forall>y. (i, m, y) \<in> voted s \<longrightarrow> y = x)"
    using assms(2) by (auto simp: safe_def)
  have "m < ballot s' i \<and> (\<forall>y. (i, m, y) \<in> voted s' \<longrightarrow> y = x)" if "i \<in> Q" for i
    using old [OF that] ballot_grows [OF assms(1), of i] new_votes [OF assms(1)]
    by (metis order_less_le_trans less_irrefl)
  with Q show "\<exists>Q. quorum Q \<and> (\<forall>i\<in>Q. m < ballot s' i \<and> (\<forall>y. (i, m, y) \<in> voted s' \<longrightarrow> y = x))"
    by blast
qed

lemma chosen_stable: "paxos_step quorum s s' \<Longrightarrow> chosen quorum s n x \<Longrightarrow> chosen quorum s' n x"
  unfolding chosen_def by (induction rule: paxos_step.induct) auto

lemma acceptors_step:
  assumes "paxos_step quorum s s'" and "acceptors_ok s"
  shows "acceptors_ok s'"
  using assms
proof (induction rule: paxos_step.induct)
  case (Advance s i n)
  then show ?case
    unfolding acceptors_ok_def by (auto intro: order_trans)
next
  case (Grant s i n c)
  then show ?case
    unfolding acceptors_ok_def by (auto intro: order_trans [of _ "ballot s i"])
next
  case (Vote c n x s i)
  then show ?case
    unfolding acceptors_ok_def by (simp, blast)
next
  case (Propose Q s c n x)
  then show ?case
    unfolding acceptors_ok_def by (simp, blast)
qed (simp add: acceptors_ok_def)

lemma grants_step:
  assumes "paxos_step quorum s s'" and "grants_ok s" and "acceptors_ok s"
  shows "grants_ok s'"
  using assms
proof (induction rule: paxos_step.induct)
  case (Advance s i n)
  then show ?case
    unfolding grants_ok_def grant_ok_def by (simp, meson order_trans)
next
  case (Grant s i n c)
  note old = Grant.prems(1) and acc = Grant.prems(2)
  have fresh: "(i, n, c', vo) \<notin> grants s" for c' vo
    using grant_ballot [OF old] Grant.hyps leD by blast
  have vote: "(i, k, z) \<in> voted s \<and> k < n" if "last_vote s i = Some (k, z)" for k z
    using last_vote_voted [OF acc that] vote_ballot [OF acc] Grant.hyps order_le_less_trans by blast
  have up: "m \<le> n" if "m \<le> ballot s i" for m
    using that Grant.hyps by simp
  show ?case
    unfolding grants_ok_def
  proof (intro allI impI)
    fix j m d vo
    assume "(j, m, d, vo) \<in> grants (s\<lparr>ballot := (ballot s)(i := n),
      grants := insert (i, n, c, last_vote s i) (grants s)\<rparr>)"
    then consider (new) "j = i" "m = n" "d = c" "vo = last_vote s i" | (old) "(j, m, d, vo) \<in> grants s"
      by auto
    then show "grant_ok (s\<lparr>ballot := (ballot s)(i := n),
      grants := insert (i, n, c, last_vote s i) (grants s)\<rparr>) j m d vo"
    proof cases
      case new
      then show ?thesis
        using fresh vote vote_last [OF acc] by (auto simp: grant_ok_def)
    next
      case old
      then show ?thesis
        using \<open>grants_ok s\<close> fresh up unfolding grants_ok_def grant_ok_def
        by (cases "j = i"; cases "m = n") simp_all
    qed
  qed
next
  case (Vote c n x s i)
  have "\<not> n < m" if "(i, m, c', vo) \<in> grants s" for m c' vo
    using grant_ballot [OF Vote.prems(1) that] Vote.hyps by simp
  then show ?case
    using Vote.prems(1) unfolding grants_ok_def grant_ok_def by (simp, blast)
qed (auto simp: grants_ok_def grant_ok_def)

lemma proposals_mono:
  "proposals_ok quorum s \<Longrightarrow> proposed s' = proposed s \<Longrightarrow> grants s \<subseteq> grants s' \<Longrightarrow>
   proposals_ok quorum s'"
  unfolding proposals_ok_def by (simp add: subset_eq) meson

lemma proposals_step:
  assumes "paxos_step quorum s s'" and "proposals_ok quorum s"
  shows "proposals_ok quorum s'"
  using assms
proof (induction rule: paxos_step.induct)
  case (Grant s i n c)
  show ?case
    by (rule proposals_mono [OF Grant.prems]) auto
next
  case (Propose Q s c n x)
  then show ?case
    unfolding proposals_ok_def may_propose_def by (simp, blast)
qed (auto simp: proposals_ok_def)

subsection \<open>Agreement\<close>

text \<open>The interface of a quorum system: what the proof needs of it is that two quorums intersect.\<close>

locale quorum_system =
  fixes quorum :: "'i set \<Rightarrow> bool"
  assumes quorums_meet: "quorum P \<Longrightarrow> quorum Q \<Longrightarrow> \<exists>i. i \<in> P \<and> i \<in> Q"
begin

text \<open>Proposals with the same number agree, whoever makes them.\<close>

lemma one_value_per_ballot:
  assumes "proposals_ok quorum s" and "grants_ok s"
    and "(c, n, x) \<in> proposed s" and "(d, n, y) \<in> proposed s"
  shows "x = y"
proof -
  obtain P Q where "quorum P" and P: "\<And>i. i \<in> P \<Longrightarrow> \<exists>vo. (i, n, c, vo) \<in> grants s"
    and "quorum Q" and Q: "\<And>i. i \<in> Q \<Longrightarrow> \<exists>vo. (i, n, d, vo) \<in> grants s"
    using assms(1,3,4) unfolding proposals_ok_def by metis
  then obtain i where "i \<in> P" and "i \<in> Q"
    using quorums_meet by blast
  then have "c = d"
    using P Q grant_unique [OF assms(2)] by blast
  then show ?thesis
    using assms(1,3,4) unfolding proposals_ok_def by metis
qed

lemma one_vote_per_ballot:
  assumes "proposals_ok quorum s" and "grants_ok s" and "acceptors_ok s"
    and "(i, n, x) \<in> voted s" and "(j, n, y) \<in> voted s"
  shows "x = y"
  using vote_proposed [OF assms(3)] one_value_per_ballot [OF assms(1,2)] assms(4,5) by blast

text \<open>
  The heart of the protocol: the value a proposer takes from the grants of a quorum is safe. Without
  reported votes no one in the quorum has voted below the ballot; otherwise the vote with the highest
  ballot is already safe below it, and nothing has been voted between the two.
\<close>

lemma proposal_safe:
  assumes "proposals_ok quorum s" and grants: "grants_ok s" and "acceptors_ok s"
    and votes: "\<And>i k z. (i, k, z) \<in> voted s \<Longrightarrow> safe quorum s k z"
    and "quorum Q" and may: "may_propose s Q c n x"
  shows "safe quorum s n x"
  unfolding safe_def
proof (intro allI impI)
  fix m assume "m < n"
  have granted: "\<exists>vo. (i, n, c, vo) \<in> grants s" if "i \<in> Q" for i
    using may that unfolding may_propose_def by blast
  then have ballots: "m < ballot s i" if "i \<in> Q" for i
    using grant_ballot [OF grants] that \<open>m < n\<close> order_less_le_trans by blast
  have report: "\<exists>w\<in>reported s Q c n. m \<le> fst w" if "i \<in> Q" and "(i, m, y) \<in> voted s" for i y
  proof -
    obtain vo where vo: "(i, n, c, vo) \<in> grants s"
      using granted \<open>i \<in> Q\<close> by blast
    then obtain k z where "vo = Some (k, z)" and "m \<le> k"
      using grant_highest [OF grants vo \<open>(i, m, y) \<in> voted s\<close> \<open>m < n\<close>] by blast
    then have "(k, z) \<in> reported s Q c n"
      using vo \<open>i \<in> Q\<close> unfolding reported_def by blast
    then show ?thesis
      using \<open>m \<le> k\<close> by (intro bexI) simp_all
  qed
  show "\<exists>Q. quorum Q \<and> (\<forall>i\<in>Q. m < ballot s i \<and> (\<forall>y. (i, m, y) \<in> voted s \<longrightarrow> y = x))"
  proof (cases "\<exists>i\<in>Q. \<exists>y. (i, m, y) \<in> voted s")
    case False
    then show ?thesis
      using \<open>quorum Q\<close> ballots by blast
  next
    case True
    then have "reported s Q c n \<noteq> {}"
      using report by blast
    then obtain k where k: "(k, x) \<in> reported s Q c n" "\<And>w. w \<in> reported s Q c n \<Longrightarrow> fst w \<le> k"
      using may unfolding may_propose_def by blast
    then obtain j where j: "(j, k, x) \<in> voted s"
      using grant_voted [OF grants] unfolding reported_def by blast
    have "m \<le> k"
      using True report k(2) order_trans by blast
    then show ?thesis
    proof (cases "m = k")
      case True
      then show ?thesis
        using \<open>quorum Q\<close> ballots one_vote_per_ballot [OF assms(1-3) _ j] by blast
    next
      case False
      then show ?thesis
        using votes [OF j] \<open>m \<le> k\<close> unfolding safe_def by (simp add: order_less_le)
    qed
  qed
qed

definition paxos_inv :: "('i, 'c, 'n::linorder, 'v) paxos \<Rightarrow> bool" where
  "paxos_inv s \<longleftrightarrow> acceptors_ok s \<and> grants_ok s \<and> proposals_ok quorum s \<and>
     (\<forall>c n x. (c, n, x) \<in> proposed s \<longrightarrow> safe quorum s n x) \<and>
     (\<forall>i x. settled s i = Some x \<longrightarrow> (\<exists>n. chosen quorum s n x))"

lemma inv_vote_safe: "paxos_inv s \<Longrightarrow> (i, k, z) \<in> voted s \<Longrightarrow> safe quorum s k z"
  unfolding paxos_inv_def using vote_proposed by metis

lemma inv_step:
  assumes step: "paxos_step quorum s s'" and inv: "paxos_inv s"
  shows "paxos_inv s'"
proof -
  have new: "safe quorum s n x" if "(c, n, x) \<in> proposed s'" for c n x
    using step that inv
  proof (cases rule: paxos_step.cases)
    case (Propose Q c' n' x')
    then show ?thesis
      using inv that inv_vote_safe [OF inv] proposal_safe [of s Q c' n' x']
      unfolding paxos_inv_def by auto
  qed (use that inv in \<open>auto simp: paxos_inv_def\<close>)
  have "\<exists>n. chosen quorum s n x" if "settled s' i = Some x" for i x
    using step that inv
    by (cases rule: paxos_step.cases) (auto simp: paxos_inv_def split: if_splits)
  then have settled': "\<exists>n. chosen quorum s' n x" if "settled s' i = Some x" for i x
    using that chosen_stable [OF step] by metis
  show ?thesis
    using inv acceptors_step [OF step] grants_step [OF step] proposals_step [OF step]
      safe_stable [OF step] new settled' unfolding paxos_inv_def by metis
qed

lemma inv_reachable:
  assumes "paxos_reachable quorum s"
  shows "paxos_inv s"
proof -
  obtain s0 where "paxos_init s0" and steps: "(paxos_step quorum)\<^sup>*\<^sup>* s0 s"
    using assms unfolding paxos_reachable_def by blast
  from steps show ?thesis
  proof (induction rule: rtranclp_induct)
    case base
    then show ?case
      using \<open>paxos_init s0\<close>
      by (simp add: paxos_init_def paxos_inv_def acceptors_ok_def grants_ok_def proposals_ok_def)
  qed (use inv_step in blast)
qed

theorem chosen_unique:
  assumes "paxos_reachable quorum s" and "chosen quorum s m y" and "chosen quorum s n x"
  shows "x = y"
proof -
  have inv: "paxos_inv s"
    by (rule inv_reachable) fact
  have up: "x = y" if "chosen quorum s m y" and "chosen quorum s n x" and "m < n" for m n x y
  proof -
    obtain P where "quorum P" and P: "\<And>i. i \<in> P \<Longrightarrow> (i, m, y) \<in> voted s"
      using \<open>chosen quorum s m y\<close> unfolding chosen_def by blast
    obtain j where "(j, n, x) \<in> voted s"
      using \<open>chosen quorum s n x\<close> quorums_meet unfolding chosen_def by blast
    then have "safe quorum s n x"
      by (rule inv_vote_safe [OF inv])
    then obtain Q where "quorum Q" and Q: "\<And>i y. i \<in> Q \<Longrightarrow> (i, m, y) \<in> voted s \<Longrightarrow> y = x"
      using \<open>m < n\<close> unfolding safe_def by blast
    then show ?thesis
      using P Q quorums_meet [OF \<open>quorum P\<close> \<open>quorum Q\<close>] by blast
  qed
  show ?thesis
  proof (cases m n rule: linorder_cases)
    case equal
    obtain i j where "(i, m, y) \<in> voted s" and "(j, n, x) \<in> voted s"
      using assms(2,3) quorums_meet unfolding chosen_def by blast
    with equal show ?thesis
      using inv one_vote_per_ballot [of s j n x i y] unfolding paxos_inv_def by simp
  qed (use up assms(2,3) in blast)+
qed

theorem settled_unique:
  assumes "paxos_reachable quorum s" and "settled s i = Some x" and "settled s j = Some y"
  shows "x = y"
  using inv_reachable [OF assms(1)] chosen_unique [OF assms(1)] assms(2,3) unfolding paxos_inv_def by blast

end

end
