(* ===== verification/Log_Paxos.thy ===== *)
theory Log_Paxos
  imports Log_Replica Log_Consensus Paxos_Spec
begin

section \<open>Agreement of the replicated log\<close>

text \<open>
  The composition of the replicas with the processes of the consensus: a network of replicas, each
  running the handlers of \<open>src/log/replica.cpp\<close>, and proposers that run the promise, write and learn
  phases of \<open>src/log/consensus.cpp\<close> and \<open>src/log/coordinator.cpp\<close>. For a position \<open>p\<close> that is not
  truncated the system refines \<^emph>\<open>Paxos\<close> (theory \<open>Paxos_Spec\<close>), so that all replicas that learn \<open>p\<close>
  learn the same value, as long as no replica accepts a write before it has handled the promise
  request of the same proposal. The last section shows that this condition is needed: the write
  handler does not raise the promise of the replica.
\<close>

record ('i, 'c, 's) log_system =
  nodes :: "'i \<Rightarrow> 's replica"
  promise_acks :: "('c \<times> PromiseRequest \<times> 'i \<times> PromiseResponse) set"
  writes :: "('c \<times> Action \<times> WriteRequest) set"
  write_acks :: "('c \<times> WriteRequest \<times> 'i \<times> WriteResponse) set"
  lessons :: "Action set"

text \<open>The responses \<open>xs\<close> that proposer \<open>c\<close> receives to request \<open>q\<close>, at most one of each replica.\<close>

definition responses :: "('c \<times> 'q \<times> 'i \<times> 'm) set \<Rightarrow> 'c \<Rightarrow> 'q \<Rightarrow> ('i \<times> 'm) list \<Rightarrow> bool" where
  "responses A c q xs \<longleftrightarrow> distinct (map fst xs) \<and> (\<forall>(i, m)\<in>set xs. (c, q, i, m) \<in> A)"

definition unused :: "('i, 'c, 's) log_system \<Rightarrow> 'c \<Rightarrow> u64 \<Rightarrow> bool" where
  "unused s c n \<longleftrightarrow> (\<forall>a w. (c, a, w) \<in> writes s \<longrightarrow> wq_proposal w \<noteq> n)"

text \<open>
  A step of the system at position \<open>p\<close>, for quorums of \<open>k\<close> replicas. With \<open>ordered\<close>, a replica
  handles a write only when the promise that governs \<open>p\<close> is at least its proposal, which holds when
  the promise request of the proposer was handled before. Requests for other positions are arbitrary.
\<close>

inductive log_step ::
  "'s storage_ops \<Rightarrow> ('s \<Rightarrow> u64 \<Rightarrow> Action option) \<Rightarrow> bool \<Rightarrow> nat \<Rightarrow> u64 \<Rightarrow>
   ('i, 'c, 's) log_system \<Rightarrow> ('i, 'c, 's) log_system \<Rightarrow> bool"
  for ops view ordered k p where
  PromiseReq:
    "pq_position q \<noteq> Some max_u64 \<Longrightarrow> promise ops (nodes s i) q = Ok (r, m) \<Longrightarrow> log_begin r \<le> p \<Longrightarrow>
     log_step ops view ordered k p s
       (s\<lparr>nodes := (nodes s)(i := r),
         promise_acks := promise_acks s \<union> {(c, q, i, x) | x. m = Some x}\<rparr>)"
| FillWrite:
    "responses (promise_acks s) c \<lparr>pq_proposal = n, pq_position = Some p\<rparr> xs \<Longrightarrow>
     run_received explicit_received (map snd xs) (new_ExplicitPromiseProcess k n p) = Ok e \<Longrightarrow>
     checkPromisePhase (ep_promise e) (new_FillProcess k n p) = Ok f \<Longrightarrow> fp_phase f = Writing a \<Longrightarrow>
     write_request n a = Ok w \<Longrightarrow> unused s c n \<Longrightarrow>
     log_step ops view ordered k p s (s\<lparr>writes := insert (c, a, w) (writes s)\<rparr>)"
| FillLearn:
    "responses (promise_acks s) c \<lparr>pq_proposal = n, pq_position = Some p\<rparr> xs \<Longrightarrow>
     run_received explicit_received (map snd xs) (new_ExplicitPromiseProcess k n p) = Ok e \<Longrightarrow>
     checkPromisePhase (ep_promise e) (new_FillProcess k n p) = Ok f \<Longrightarrow> fp_phase f = Learning a \<Longrightarrow>
     log_step ops view ordered k p s (s\<lparr>lessons := insert (learn a) (lessons s)\<rparr>)"
| CoordinatorWrite:
    "responses (promise_acks s) c \<lparr>pq_proposal = n, pq_position = None\<rparr> xs \<Longrightarrow>
     run_received implicit_received (map snd xs) (new_ImplicitPromiseProcess k n) = Ok e \<Longrightarrow>
     ip_promise e = Ready res \<Longrightarrow> pr_okay res \<Longrightarrow> pr_position res = Some h \<Longrightarrow> h < p \<Longrightarrow>
     position a = p \<Longrightarrow> action_type a \<noteq> None \<Longrightarrow> \<not> is_learned a \<Longrightarrow>
     write_request n a = Ok w \<Longrightarrow> unused s c n \<Longrightarrow>
     log_step ops view ordered k p s (s\<lparr>writes := insert (c, a, w) (writes s)\<rparr>)"
| WriteReq:
    "(c, a, w) \<in> writes s \<Longrightarrow> (ordered \<longrightarrow> wq_proposal w \<le> governing view (nodes s i) p) \<Longrightarrow>
     replica_write ops (nodes s i) w = Ok (r, m) \<Longrightarrow> log_begin r \<le> p \<Longrightarrow>
     log_step ops view ordered k p s
       (s\<lparr>nodes := (nodes s)(i := r),
         write_acks := write_acks s \<union> {(c, w, i, x) | x. m = Some x}\<rparr>)"
| WriteLearn:
    "(c, a, w) \<in> writes s \<Longrightarrow> responses (write_acks s) c w ys \<Longrightarrow>
     run_received write_received (map snd ys) (new_WriteProcess k (wq_proposal w) a) = Ok e \<Longrightarrow>
     wp_promise e = Ready res \<Longrightarrow> wr_okay res \<Longrightarrow>
     log_step ops view ordered k p s (s\<lparr>lessons := insert (learn a) (lessons s)\<rparr>)"
| LearnedMsg:
    "a \<in> lessons s \<Longrightarrow> learned_message ops (nodes s i) a = Ok r \<Longrightarrow> log_begin r \<le> p \<Longrightarrow>
     log_step ops view ordered k p s (s\<lparr>nodes := (nodes s)(i := r)\<rparr>)"
| OtherWrite:
    "request_ok w \<Longrightarrow> wq_position w \<noteq> p \<Longrightarrow>
     replica_write ops (nodes s i) w = Ok (r, m) \<Longrightarrow> log_begin r \<le> p \<Longrightarrow>
     log_step ops view ordered k p s (s\<lparr>nodes := (nodes s)(i := r)\<rparr>)"
| OtherLearned:
    "wf_action a \<Longrightarrow> position a \<noteq> p \<Longrightarrow>
     learned_message ops (nodes s i) a = Ok r \<Longrightarrow> log_begin r \<le> p \<Longrightarrow>
     log_step ops view ordered k p s (s\<lparr>nodes := (nodes s)(i := r)\<rparr>)"

text \<open>No replica knows the position, and nothing has been sent.\<close>

definition log_init ::
  "('s \<Rightarrow> bool) \<Rightarrow> ('s \<Rightarrow> u64 \<Rightarrow> Action option) \<Rightarrow> u64 \<Rightarrow> ('i, 'c, 's) log_system \<Rightarrow> bool" where
  "log_init valid view p s \<longleftrightarrow>
     (\<forall>i. replica_inv valid view (nodes s i) \<and> log_begin (nodes s i) \<le> p \<and> known view (nodes s i) p = None) \<and>
     promise_acks s = {} \<and> writes s = {} \<and> write_acks s = {} \<and> lessons s = {}"

definition log_reachable ::
  "'s storage_ops \<Rightarrow> ('s \<Rightarrow> bool) \<Rightarrow> ('s \<Rightarrow> u64 \<Rightarrow> Action option) \<Rightarrow> bool \<Rightarrow> nat \<Rightarrow> u64 \<Rightarrow>
   ('i, 'c, 's) log_system \<Rightarrow> bool" where
  "log_reachable ops valid view ordered k p s \<longleftrightarrow>
     (\<exists>s0. log_init valid view p s0 \<and> (log_step ops view ordered k p)\<^sup>*\<^sup>* s0 s)"

text \<open>The value a replica has learned at a position.\<close>

definition learned_at :: "('s \<Rightarrow> u64 \<Rightarrow> Action option) \<Rightarrow> 's replica \<Rightarrow> u64 \<Rightarrow> Val \<Rightarrow> bool" where
  "learned_at view r p x \<longleftrightarrow>
     (\<exists>a. known view r p = Some a \<and> is_learned a \<and> action_value a = Some x)"

subsection \<open>The quorums\<close>

definition majority :: "'i::finite set \<Rightarrow> bool" where
  "majority Q \<longleftrightarrow> CARD('i) < 2 * card Q"

interpretation maj: quorum_system "majority :: 'i::finite set \<Rightarrow> bool"
proof
  fix P Q :: "'i set"
  assume "majority P" and "majority Q"
  then have "CARD('i) < card P + card Q"
    by (simp add: majority_def)
  moreover have "card (P \<union> Q) \<le> CARD('i)"
    by (rule card_mono) auto
  ultimately have "P \<inter> Q \<noteq> {}"
    using card_Un_disjoint [of P Q] by auto
  then show "\<exists>i. i \<in> P \<and> i \<in> Q"
    by blast
qed

lemma responses_majority:
  fixes xs :: "('i::finite \<times> 'm) list"
  assumes "CARD('i) < 2 * k" and "responses A c q xs" and "prefix ms (map snd xs)"
    and "k \<le> length (filter P ms)"
  obtains Q where "majority Q"
    and "\<And>i. i \<in> Q \<Longrightarrow> \<exists>m. (c, q, i, m) \<in> A \<and> m \<in> set ms \<and> P m"
    and "\<And>m. m \<in> set ms \<Longrightarrow> P m \<Longrightarrow> \<exists>i\<in>Q. (c, q, i, m) \<in> A"
proof -
  obtain xs' where ms: "ms = map snd xs'" and xs': "prefix xs' xs"
    using assms(3) by (auto simp: prefix_def append_eq_map_conv map_eq_append_conv)
  then have d: "distinct (map fst xs')" and A: "\<And>i m. (i, m) \<in> set xs' \<Longrightarrow> (c, q, i, m) \<in> A"
    using assms(2) by (auto simp: responses_def prefix_def)
  define Q where "Q = set (map fst (filter (P \<circ> snd) xs'))"
  have "distinct (map fst (filter (P \<circ> snd) xs'))"
    using d by (rule distinct_map_filter)
  then have "card Q = length (filter P ms)"
    unfolding Q_def ms by (simp only: distinct_card length_map filter_map)
  with assms(1,4) have "majority Q"
    by (simp add: majority_def)
  then show ?thesis
    by (rule that) (use A in \<open>force simp: Q_def ms\<close>)+
qed

subsection \<open>The simulation\<close>

text \<open>
  The abstract state \<open>t\<close> of a system \<open>s\<close>: a replica that has not learned the position is an acceptor
  whose ballot is the governing promise and whose last vote is the recorded one; the messages sent
  are covered by the history.
\<close>

definition acceptor_of ::
  "('s \<Rightarrow> u64 \<Rightarrow> Action option) \<Rightarrow> u64 \<Rightarrow> 's replica \<Rightarrow> u64 \<Rightarrow> (u64 \<times> Val) option \<Rightarrow> Val option \<Rightarrow> bool"
  where
  "acceptor_of view p r b v st \<longleftrightarrow>
     (case st of
        None \<Rightarrow> b = governing view r p \<and> v = vote (known view r p) \<and>
          (\<forall>a. known view r p = Some a \<longrightarrow>
             \<not> is_learned a \<and> (performed a \<noteq> None \<longrightarrow> action_value a \<noteq> None))
      | Some x \<Rightarrow> learned_at view r p x)"

definition decided :: "('i::finite, 'c, u64, Val) paxos \<Rightarrow> Val \<Rightarrow> bool" where
  "decided t x \<longleftrightarrow> (\<exists>n. chosen majority t n x)"

definition ack_covered ::
  "u64 \<Rightarrow> ('i::finite, 'c, u64, Val) paxos \<Rightarrow> 'c \<Rightarrow> PromiseRequest \<Rightarrow> 'i \<Rightarrow> PromiseResponse \<Rightarrow> bool" where
  "ack_covered p t c q i m \<longleftrightarrow>
     (\<not> pr_okay m \<longrightarrow> pr_type m = Some IGNORED \<or> pr_type m = Some REJECT) \<and>
     (pr_okay m \<longrightarrow>
        (pq_position q = Some p \<longrightarrow>
           (case pr_action m of
              None \<Rightarrow> (i, pq_proposal q, c, None) \<in> grants t
            | Some a \<Rightarrow>
                if is_learned a then \<exists>x. action_value a = Some x \<and> decided t x
                else (i, pq_proposal q, c, vote (Some a)) \<in> grants t \<and>
                  (performed a \<noteq> None \<longrightarrow> action_value a \<noteq> None))) \<and>
        (pq_position q = None \<longrightarrow>
           (\<forall>e. pr_position m = Some e \<longrightarrow> e < p \<longrightarrow> (i, pq_proposal q, c, None) \<in> grants t)))"

definition write_covered ::
  "u64 \<Rightarrow> ('i::finite, 'c, u64, Val) paxos \<Rightarrow> 'c \<Rightarrow> Action \<Rightarrow> WriteRequest \<Rightarrow> bool" where
  "write_covered p t c a w \<longleftrightarrow>
     request_ok w \<and> wq_position w = p \<and> wq_learned w = None \<and> position a = p \<and>
     action_value a = Some (request_value w) \<and> (c, wq_proposal w, request_value w) \<in> proposed t"

definition lesson_covered :: "u64 \<Rightarrow> ('i::finite, 'c, u64, Val) paxos \<Rightarrow> Action \<Rightarrow> bool" where
  "lesson_covered p t a \<longleftrightarrow>
     position a = p \<and> p \<noteq> max_u64 \<and> learned a = Some True \<and>
     (\<exists>x. action_value a = Some x \<and> decided t x)"

definition history_of ::
  "u64 \<Rightarrow> ('i::finite, 'c, 's) log_system \<Rightarrow> ('i, 'c, u64, Val) paxos \<Rightarrow> bool" where
  "history_of p s t \<longleftrightarrow>
     (\<forall>c q i m. (c, q, i, m) \<in> promise_acks s \<longrightarrow> ack_covered p t c q i m) \<and>
     (\<forall>c a w. (c, a, w) \<in> writes s \<longrightarrow> write_covered p t c a w) \<and>
     (\<forall>c n x. (c, n, x) \<in> proposed t \<longrightarrow> \<not> unused s c n) \<and>
     (\<forall>c w i m. (c, w, i, m) \<in> write_acks s \<longrightarrow>
        (\<not> wr_okay m \<longrightarrow> wr_type m = Some IGNORED \<or> wr_type m = Some REJECT) \<and>
        (wr_okay m \<longrightarrow> (i, wq_proposal w, request_value w) \<in> voted t)) \<and>
     (\<forall>a\<in>lessons s. lesson_covered p t a)"

definition simulates ::
  "('s \<Rightarrow> bool) \<Rightarrow> ('s \<Rightarrow> u64 \<Rightarrow> Action option) \<Rightarrow> u64 \<Rightarrow>
   ('i::finite, 'c, 's) log_system \<Rightarrow> ('i, 'c, u64, Val) paxos \<Rightarrow> bool" where
  "simulates valid view p s t \<longleftrightarrow>
     (\<forall>i. replica_inv valid view (nodes s i) \<and> log_begin (nodes s i) \<le> p \<and>
        acceptor_of view p (nodes s i) (ballot t i) (last_vote t i) (settled t i)) \<and>
     history_of p s t"

text \<open>What one replica does is matched by at most one step of its acceptor.\<close>

lemma history_step:
  assumes "paxos_step majority t t'" and "proposed t' = proposed t" and "history_of p s t"
  shows "history_of p s t'"
proof -
  have mono: "grants t \<subseteq> grants t'" "voted t \<subseteq> voted t'"
    using assms(1) by (induction rule: paxos_step.induct) auto
  have stable: "decided t x \<Longrightarrow> decided t' x" for x
    using chosen_stable [OF assms(1)] unfolding decided_def by blast
  have "ack_covered p t c q i m \<Longrightarrow> ack_covered p t' c q i m" for c q i m
    using mono(1) stable unfolding ack_covered_def
    by (cases "pr_action m") (auto split: if_splits)
  moreover have "lesson_covered p t a \<Longrightarrow> lesson_covered p t' a" for a
    using stable unfolding lesson_covered_def by blast
  moreover have "write_covered p t' c a w = write_covered p t c a w" for c a w
    using assms(2) by (simp add: write_covered_def)
  ultimately show ?thesis
    using assms(2,3) mono(2) unfolding history_of_def by (simp, meson subsetD)
qed

definition matched ::
  "('s \<Rightarrow> bool) \<Rightarrow> ('s \<Rightarrow> u64 \<Rightarrow> Action option) \<Rightarrow> u64 \<Rightarrow>
   ('i::finite, 'c, u64, Val) paxos \<Rightarrow> ('i, 'c, 's) log_system \<Rightarrow> bool" where
  "matched valid view p t s' \<longleftrightarrow>
     (\<exists>t'. (t' = t \<or> paxos_step majority t t') \<and> simulates valid view p s' t')"

lemma matched_node:
  assumes sim: "simulates valid view p s t" and inv: "replica_inv valid view r" and b: "log_begin r \<le> p"
    and step: "t' = t \<or> paxos_step majority t t'"
    and others: "\<And>j. j \<noteq> i \<Longrightarrow> ballot t' j = ballot t j \<and> last_vote t' j = last_vote t j \<and> settled t' j = settled t j"
    and acc: "acceptor_of view p r (ballot t' i) (last_vote t' i) (settled t' i)"
    and nodes: "nodes s' = (nodes s)(i := r)"
    and hist: "history_of p s' t'"
  shows "matched valid view p t s'"
proof -
  have "simulates valid view p s' t'"
    using sim inv b others acc hist unfolding simulates_def nodes by auto
  then show ?thesis
    using step unfolding matched_def by blast
qed

text \<open>An acceptor whose replica advances without a new vote.\<close>

lemma learned_at_advance:
  "learned_at view r p x \<Longrightarrow> advances view r r' \<Longrightarrow> log_begin r' \<le> p \<Longrightarrow> learned_at view r' p x"
  by (force simp: learned_at_def advances_def)

lemma governing_advance: "advances view r r' \<Longrightarrow> log_begin r' \<le> p \<Longrightarrow> governing view r p \<le> governing view r' p"
  by (simp add: advances_def)

lemma acceptor_None:
  "acceptor_of view p r b v None \<longleftrightarrow> b = governing view r p \<and> v = vote (known view r p) \<and>
     (\<forall>a. known view r p = Some a \<longrightarrow> \<not> is_learned a \<and> (performed a \<noteq> None \<longrightarrow> action_value a \<noteq> None))"
  by (simp add: acceptor_of_def)

lemma acceptor_Some [simp]: "acceptor_of view p r b v (Some x) \<longleftrightarrow> learned_at view r p x"
  by (simp add: acceptor_of_def)

lemma acceptor_promised:
  assumes acc: "acceptor_of view p r b v None" and only: "only_promised view r r' p"
  shows "acceptor_of view p r' (governing view r' p) v None"
proof -
  have "\<not> is_learned a' \<and> (performed a' \<noteq> None \<longrightarrow> action_value a' \<noteq> None)"
    if "known view r' p = Some a'" for a'
    using acc only that unfolding acceptor_None
    by (cases "known view r p") (auto simp: only_promised_def is_learned_def)
  then show ?thesis
    using acc only_promised_vote [OF only] by (simp add: acceptor_None)
qed

text \<open>The replica \<open>i\<close> advances to \<open>r\<close> and sends nothing that concerns the position.\<close>

lemma matched_advance:
  assumes sim: "simulates valid view p s t" and inv: "replica_inv valid view r" and b: "log_begin r \<le> p"
    and adv: "advances view (nodes s i) r" and only: "only_promised view (nodes s i) r p"
    and nodes: "nodes s' = (nodes s)(i := r)"
    and hist: "\<And>t'. history_of p s t' \<Longrightarrow> t' = t \<or> paxos_step majority t t' \<Longrightarrow> history_of p s' t'"
  shows "matched valid view p t s'"
proof (cases "settled t i")
  case None
  then have acc: "acceptor_of view p (nodes s i) (ballot t i) (last_vote t i) None"
    using sim by (metis simulates_def)
  let ?t = "t\<lparr>ballot := (ballot t)(i := governing view r p)\<rparr>"
  have "ballot t i \<le> governing view r p"
    using acc governing_advance [OF adv b] by (simp add: acceptor_None)
  then have step: "paxos_step majority t ?t"
    by (rule paxos_step.Advance)
  have "history_of p s ?t"
    by (rule history_step [OF step]) (use sim in \<open>simp_all add: simulates_def\<close>)
  then show ?thesis
    using step acceptor_promised [OF acc only] None
    by (intro matched_node [OF sim inv b _ _ _ nodes hist, of ?t]) simp_all
next
  case (Some x)
  then have "learned_at view (nodes s i) p x"
    using sim by (metis simulates_def acceptor_Some)
  then have "learned_at view r p x"
    using adv b by (rule learned_at_advance)
  then show ?thesis
    using Some sim by (intro matched_node [OF sim inv b _ _ _ nodes hist, of t]) (simp_all add: simulates_def)
qed

lemma matched_same:
  assumes sim: "simulates valid view p s t" and inv: "replica_inv valid view r" and b: "log_begin r \<le> p"
    and same: "known view r p = known view (nodes s i) p" "metadata r = metadata (nodes s i)"
    and nodes: "nodes s' = (nodes s)(i := r)" and hist: "history_of p s' t"
  shows "matched valid view p t s'"
proof -
  have "governing view r p = governing view (nodes s i) p"
    using same by (intro governing_cong) (simp_all add: last_promised_def)
  then have "acceptor_of view p r = acceptor_of view p (nodes s i)"
    using same by (simp add: acceptor_of_def learned_at_def fun_eq_iff split: option.split)
  then show ?thesis
    using sim by (intro matched_node [OF sim inv b _ _ _ nodes hist]) (simp_all add: simulates_def)
qed

text \<open>What the history gains by a message.\<close>

lemma unused_cong: "writes s' = writes s \<Longrightarrow> unused s' = unused s"
  by (simp add: unused_def fun_eq_iff)

lemma history_promise:
  assumes "history_of p s t" and "\<And>x. m = Some x \<Longrightarrow> ack_covered p t c q i x"
  shows "history_of p (s\<lparr>nodes := N, promise_acks := promise_acks s \<union> {(c, q, i, x) | x. m = Some x}\<rparr>) t"
  using assms unused_cong [of "s\<lparr>nodes := N, promise_acks := promise_acks s \<union> {(c, q, i, x) | x. m = Some x}\<rparr>" s]
  unfolding history_of_def by auto

lemma history_write:
  assumes "history_of p s t"
    and "\<And>x. m = Some x \<Longrightarrow> (\<not> wr_okay x \<longrightarrow> wr_type x = Some IGNORED \<or> wr_type x = Some REJECT) \<and>
      (wr_okay x \<longrightarrow> (i, wq_proposal w, request_value w) \<in> voted t)"
  shows "history_of p (s\<lparr>nodes := N, write_acks := write_acks s \<union> {(c, w, i, x) | x. m = Some x}\<rparr>) t"
  using assms unused_cong [of "s\<lparr>nodes := N, write_acks := write_acks s \<union> {(c, w, i, x) | x. m = Some x}\<rparr>" s]
  unfolding history_of_def by auto

lemma history_nodes: "history_of p (s\<lparr>nodes := N\<rparr>) t = history_of p s t"
  using unused_cong [of "s\<lparr>nodes := N\<rparr>" s] unfolding history_of_def by simp

lemma history_lesson:
  "history_of p s t \<Longrightarrow> lesson_covered p t a \<Longrightarrow> history_of p (s\<lparr>lessons := insert a (lessons s)\<rparr>) t"
  using unused_cong [of "s\<lparr>lessons := insert a (lessons s)\<rparr>" s] unfolding history_of_def by simp

lemma voted_mono: "t' = t \<or> paxos_step quorum t t' \<Longrightarrow> voted t \<subseteq> voted t'"
  by (auto elim: paxos_step.cases)

lemma settled_decided:
  assumes "maj.paxos_inv t" and "settled t i = Some x" and "t' = t \<or> paxos_step majority t t'"
  shows "decided t' x"
  using assms chosen_stable unfolding maj.paxos_inv_def decided_def by metis

subsection \<open>The replica handlers refine the acceptor\<close>

text \<open>A granted promise for the position, explicit or implicit, is a grant of the acceptor.\<close>

lemma matched_grant:
  assumes sim: "simulates valid view p s t" and inv: "replica_inv valid view r" and b: "log_begin r \<le> p"
    and none: "settled t i = None" and only: "only_promised view (nodes s i) r p"
    and g: "governing view (nodes s i) p < n" "governing view r p = n"
    and m: "\<And>t' x. m = Some x \<Longrightarrow> (i, n, c, last_vote t i) \<in> grants t' \<Longrightarrow> ack_covered p t' c q i x"
  shows "matched valid view p t
    (s\<lparr>nodes := (nodes s)(i := r), promise_acks := promise_acks s \<union> {(c, q, i, x) | x. m = Some x}\<rparr>)"
proof -
  have acc: "acceptor_of view p (nodes s i) (ballot t i) (last_vote t i) None"
    using sim none by (metis simulates_def)
  let ?t = "t\<lparr>ballot := (ballot t)(i := n), grants := insert (i, n, c, last_vote t i) (grants t)\<rparr>"
  have step: "paxos_step majority t ?t"
    by (rule paxos_step.Grant) (use acc g in \<open>simp add: acceptor_None\<close>)
  have h: "history_of p s ?t"
    by (rule history_step [OF step]) (use sim in \<open>simp_all add: simulates_def\<close>)
  show ?thesis
  proof (rule matched_node [OF sim inv b, of ?t])
    show "history_of p (s\<lparr>nodes := (nodes s)(i := r),
        promise_acks := promise_acks s \<union> {(c, q, i, x) | x. m = Some x}\<rparr>) ?t"
      by (rule history_promise [OF h m]) simp_all
  qed (use step acceptor_promised [OF acc only] none g in simp_all)
qed

lemma refused_covered: "promise_refused view r q x r' \<Longrightarrow> \<not> pr_okay x \<Longrightarrow> ack_covered p t c q i x"
  by (auto simp: promise_refused_def ack_covered_def split: if_splits)

lemma known_end: "known view r p = Some a \<Longrightarrow> p \<le> log_end r"
  by (simp add: known_def split: if_splits)

lemma known_above: "log_end r < p \<Longrightarrow> known view r p = None"
  by (auto simp: known_def)

lemma granted_covered:
  assumes x: "promise_granted view r q x r'" "pr_okay x" and b: "log_begin r \<le> p"
    and acc: "acceptor_of view p r b v st"
    and unsettled: "st = None \<Longrightarrow> pq_position q = Some p \<or> pq_position q = None \<and> log_end r < p \<Longrightarrow>
      (i, pq_proposal q, c, v) \<in> grants t"
    and settled: "\<And>y. st = Some y \<Longrightarrow> decided t y"
  shows "ack_covered p t c q i x"
proof (cases st)
  case None
  then have "v = vote (known view r p)" and "\<And>a. known view r p = Some a \<Longrightarrow>
      \<not> is_learned a \<and> (performed a \<noteq> None \<longrightarrow> action_value a \<noteq> None)"
    using acc by (simp_all add: acceptor_None)
  then show ?thesis
    using x b unsettled [OF None] known_above [of r p view]
    by (auto simp: ack_covered_def promise_granted_def vote_def leD split: option.splits if_splits)
next
  case (Some y)
  then obtain a where "known view r p = Some a" "is_learned a" "action_value a = Some y"
    using acc by (auto simp: learned_at_def)
  then show ?thesis
    using x b settled [OF Some] known_end [of view r p a]
    by (auto simp: ack_covered_def promise_granted_def leD split: option.splits)
qed

lemma bind_Ok: "bind_outcome x f = Ok y \<longleftrightarrow> (\<exists>z. x = Ok z \<and> f z = Ok y)"
  by (cases x) simp_all

lemma write_replies:
  assumes run: "replica_write ops r0 w = Ok (r, Some x)" and bad: "\<not> wr_okay x"
  shows "wr_type x = Some IGNORED \<or> wr_type x = Some REJECT"
  using assms
  by (auto simp: replica_write_def Let_def persist_reply_def bind_Ok write_response_def
      split: if_splits outcome.splits option.splits)

context log_storage
begin

lemma implicit_known:
  assumes "replica_inv valid view r" and "promise ops r q = Ok (r', m)" and "pq_position q = None"
  shows "known view r' = known view r"
proof (cases "status r = VOTING")
  case True
  show ?thesis
    by (rule promise_implicit_ok [OF assms(1) True assms(3)]) (use assms(2) in simp)
qed (use assms in \<open>simp add: promise_def\<close>)

lemma promise_matched:
  assumes sim: "simulates valid view p s t" and t: "maj.paxos_inv t"
    and q: "pq_position q \<noteq> Some max_u64" and run: "promise ops (nodes s i) q = Ok (r, m)"
    and b: "log_begin r \<le> p"
  shows "matched valid view p t
    (s\<lparr>nodes := (nodes s)(i := r), promise_acks := promise_acks s \<union> {(c, q, i, x) | x. m = Some x}\<rparr>)"
proof -
  let ?r = "nodes s i"
  have inv: "replica_inv valid view ?r" and b0: "log_begin ?r \<le> p"
    and acc: "acceptor_of view p ?r (ballot t i) (last_vote t i) (settled t i)"
    using sim by (simp_all add: simulates_def)
  obtain inv': "replica_inv valid view r" and adv: "advances view ?r r"
    and only: "only_promised view ?r r p"
    and m: "\<And>x. m = Some x \<Longrightarrow>
      if pr_okay x then promise_granted view ?r q x r else promise_refused view ?r q x r"
    by (rule promise_ok [OF inv q]) (use run b in auto)
  show ?thesis
  proof (cases "settled t i = None \<and> (\<exists>x. m = Some x \<and> pr_okay x) \<and>
      (pq_position q = Some p \<or> pq_position q = None \<and> log_end ?r < p)")
    case True
    then obtain x where x: "m = Some x" "pr_okay x" "promise_granted view ?r q x r"
      using m by auto
    have g: "governing view ?r p < pq_proposal q" "governing view r p = pq_proposal q"
      using x(3) True b b0 implicit_known [OF inv run] known_above [of ?r p]
      by (auto simp: promise_granted_def governing_def leD split: if_splits)
    show ?thesis
      by (rule matched_grant [OF sim inv' b _ only g])
        (use True x granted_covered [OF x(3,2) b0 acc] in auto)
  next
    case False
    show ?thesis
    proof (rule matched_advance [OF sim inv' b adv only])
      fix t' assume "history_of p s t'" and t': "t' = t \<or> paxos_step majority t t'"
      then show "history_of p (s\<lparr>nodes := (nodes s)(i := r),
          promise_acks := promise_acks s \<union> {(c, q, i, x) | x. m = Some x}\<rparr>) t'"
      proof (rule_tac history_promise)
        fix x assume x: "m = Some x"
        show "ack_covered p t' c q i x"
        proof (cases "pr_okay x")
          case True
          then show ?thesis
            using m [OF x] False x settled_decided [OF t _ t']
            by (intro granted_covered [OF _ _ b0 acc, of q x r]) auto
        next
          case okay: False
          then show ?thesis
            using m [OF x] by (intro refused_covered) simp_all
        qed
      qed
    qed simp
  qed
qed

lemma write_matched:
  assumes sim: "simulates valid view p s t" and t: "maj.paxos_inv t"
    and w: "(c, a, w) \<in> writes s" and ordered: "wq_proposal w \<le> governing view (nodes s i) p"
    and run: "replica_write ops (nodes s i) w = Ok (r, m)" and b: "log_begin r \<le> p"
  shows "matched valid view p t
    (s\<lparr>nodes := (nodes s)(i := r), write_acks := write_acks s \<union> {(c, w, i, x) | x. m = Some x}\<rparr>)"
proof -
  let ?r = "nodes s i" and ?n = "wq_proposal w" and ?x = "request_value w"
  have inv: "replica_inv valid view ?r" and hist: "history_of p s t"
    and acc: "acceptor_of view p ?r (ballot t i) (last_vote t i) (settled t i)"
    using sim by (simp_all add: simulates_def)
  have w': "request_ok w" "wq_position w = p" "wq_learned w = None" "(c, ?n, ?x) \<in> proposed t"
    using hist w by (auto simp: history_of_def write_covered_def)
  obtain inv': "replica_inv valid view r" and adv: "advances view ?r r"
    and okay: "\<And>x. m = Some x \<Longrightarrow> wr_okay x \<Longrightarrow> write_accepted view ?r w r"
    and change: "known view r p = known view ?r p \<or>
      (\<exists>a. known view r p = Some a \<and> vote (Some a) = Some (?n, ?x) \<and> learned a = None \<and>
         promised a = governing view ?r p \<and> governing view ?r p \<le> ?n)"
    by (rule write_ok [OF inv w'(1)]) (use run b w' in auto)
  have replies: "m = Some x \<Longrightarrow> \<not> wr_okay x \<Longrightarrow> wr_type x = Some IGNORED \<or> wr_type x = Some REJECT" for x
    using write_replies run by blast
  show ?thesis
  proof (cases "known view r p = known view ?r p")
    case True
    have ack: "(i, ?n, ?x) \<in> voted t" if "m = Some x" "wr_okay x" for x
    proof -
      have "vote (known view ?r p) = Some (?n, ?x)" and "\<And>y. \<not> learned_at view ?r p y"
        using okay [OF that] w'(2) True b by (auto simp: write_accepted_def learned_at_def)
      then have "last_vote t i = Some (?n, ?x)"
        using acc by (cases "settled t i") (simp_all add: acceptor_None)
      then show ?thesis
        using t last_vote_voted [of t] by (simp add: maj.paxos_inv_def)
    qed
    show ?thesis
    proof (rule matched_advance [OF sim inv' b adv])
      show "only_promised view ?r r p"
        using True by (simp add: only_promised_def)
      fix t' assume "history_of p s t'" and "t' = t \<or> paxos_step majority t t'"
      then show "history_of p (s\<lparr>nodes := (nodes s)(i := r),
          write_acks := write_acks s \<union> {(c, w, i, x) | x. m = Some x}\<rparr>) t'"
        using ack subsetD [OF voted_mono [of t' t]] replies by (intro history_write) simp_all
    qed simp
  next
    case False
    then obtain a where a: "known view r p = Some a" "vote (Some a) = Some (?n, ?x)" "learned a = None"
      "promised a = governing view ?r p" "governing view ?r p \<le> ?n"
      using change by blast
    have "settled t i = None"
    proof (cases "settled t i")
      case (Some y)
      then have "learned_at view r p y"
        using acc learned_at_advance [OF _ adv b] by simp
      then show ?thesis
        using a by (simp add: learned_at_def is_learned_def)
    qed
    let ?t = "t\<lparr>last_vote := (last_vote t)(i := Some (?n, ?x)), voted := insert (i, ?n, ?x) (voted t)\<rparr>"
    have step: "paxos_step majority t ?t"
      by (rule paxos_step.Vote [OF w'(4)])
        (use acc ordered a(5) \<open>settled t i = None\<close> in \<open>simp add: acceptor_None\<close>)
    have h: "history_of p s ?t"
      by (rule history_step [OF step _ hist]) simp
    have acc': "acceptor_of view p r (ballot t i) (Some (?n, ?x)) None"
      using acc a \<open>settled t i = None\<close>
      by (auto simp: acceptor_None governing_def is_learned_def vote_def)
    show ?thesis
    proof (rule matched_node [OF sim inv' b, of ?t])
      show "history_of p (s\<lparr>nodes := (nodes s)(i := r),
          write_acks := write_acks s \<union> {(c, w, i, x) | x. m = Some x}\<rparr>) ?t"
        using replies by (intro history_write [OF h]) simp
    qed (use step acc' \<open>settled t i = None\<close> in simp_all)
  qed
qed

lemma learned_matched:
  assumes sim: "simulates valid view p s t" and a: "a \<in> lessons s"
    and run: "learned_message ops (nodes s i) a = Ok r" and b: "log_begin r \<le> p"
  shows "matched valid view p t (s\<lparr>nodes := (nodes s)(i := r)\<rparr>)"
proof -
  let ?r = "nodes s i"
  have inv: "replica_inv valid view ?r" and hist: "history_of p s t"
    using sim by (simp_all add: simulates_def)
  then obtain n x where a': "position a = p" "p \<noteq> max_u64" "learned a = Some True" "action_value a = Some x"
    and x: "chosen majority t n x"
    using a by (auto simp: history_of_def lesson_covered_def decided_def)
  have wf: "wf_action a"
    using a' by (auto simp: wf_action_def is_truncate_def action_value_def)
  obtain inv': "replica_inv valid view r" and meta: "metadata r = metadata ?r"
    and change: "known view r p = known view ?r p \<or> known view r p = Some a"
    by (rule learned_message_ok [OF inv wf a'(3)]) (use run a' b in \<open>auto simp: leD\<close>)
  from change show ?thesis
  proof
    assume same: "known view r p = known view ?r p"
    show ?thesis
      by (rule matched_same [OF sim inv' b same meta]) (use hist in \<open>simp_all add: history_nodes\<close>)
  next
    assume k: "known view r p = Some a"
    let ?t = "t\<lparr>settled := (settled t)(i := Some x)\<rparr>"
    have step: "paxos_step majority t ?t"
      by (rule paxos_step.Learn [OF x])
    have "history_of p s ?t"
      by (rule history_step [OF step _ hist]) simp
    then show ?thesis
      using step k a' by (intro matched_node [OF sim inv' b, of ?t])
        (simp_all add: history_nodes learned_at_def is_learned_def)
  qed
qed

lemma other_write_matched:
  assumes sim: "simulates valid view p s t" and w: "request_ok w" "wq_position w \<noteq> p"
    and run: "replica_write ops (nodes s i) w = Ok (r, m)" and b: "log_begin r \<le> p"
  shows "matched valid view p t (s\<lparr>nodes := (nodes s)(i := r)\<rparr>)"
proof -
  have inv: "replica_inv valid view (nodes s i)"
    using sim by (simp add: simulates_def)
  obtain "replica_inv valid view r" "advances view (nodes s i) r" "known view r p = known view (nodes s i) p"
    by (rule write_ok [OF inv w(1)]) (use run b w in auto)
  then show ?thesis
    by (intro matched_advance [OF sim _ b]) (simp_all add: only_promised_def history_nodes)
qed

lemma other_learned_matched:
  assumes sim: "simulates valid view p s t" and a: "wf_action a" "position a \<noteq> p"
    and run: "learned_message ops (nodes s i) a = Ok r" and b: "log_begin r \<le> p"
  shows "matched valid view p t (s\<lparr>nodes := (nodes s)(i := r)\<rparr>)"
proof -
  have inv: "replica_inv valid view (nodes s i)"
    using sim by (simp add: simulates_def)
  have l: "learned a = Some True"
    using run by (simp add: learned_message_def split: if_splits)
  obtain "replica_inv valid view r" "metadata r = metadata (nodes s i)"
    "known view r p = known view (nodes s i) p"
    by (rule learned_message_ok [OF inv a(1) l]) (use run b a in auto)
  then show ?thesis
    using sim by (intro matched_same [OF sim _ b]) (simp_all add: history_nodes simulates_def)
qed

end

subsection \<open>The proposers refine the abstract proposer\<close>

lemma write_request_value:
  assumes "write_request n a = Ok w" and "action_type a \<noteq> None"
  shows "wq_position w = position a" "wq_proposal w = n" "wq_learned w = None"
    "action_value a = Some (request_value w)" "position a \<noteq> max_u64 \<Longrightarrow> request_ok w"
  using assms
  by (auto simp: write_request_def Let_def action_value_def request_value_def request_ok_def
      split: ActionType.splits if_splits)

lemma performed_value [simp]: "action_value (a\<lparr>promised := n, performed := k\<rparr>) = action_value a"
  by (simp add: action_value_def split: option.splits ActionType.splits)

lemma learned_value [simp]: "action_value (a\<lparr>learned := l\<rparr>) = action_value a"
  by (simp add: action_value_def split: option.splits ActionType.splits)

lemma fill_writing:
  assumes "checkPromisePhase f (new_FillProcess k n p) = Ok g" and "fp_phase g = Writing a"
  obtains res where "f = Ready res" "pr_okay res" "position a = p" "action_type a \<noteq> None"
    "\<And>b. pr_action res = Some b \<Longrightarrow> \<not> is_learned b \<and> action_value a = action_value b"
  using assms
  by (cases f) (auto simp: checkPromisePhase_def new_FillProcess_def runWritePhase_def runLearnPhase_def
      retry_def fill_fail_def nop_action_def is_learned_def Let_def
      split: if_splits option.splits)

lemma fill_learning:
  assumes "checkPromisePhase f (new_FillProcess k n p) = Ok g" and "fp_phase g = Learning a"
  obtains res b where "f = Ready res" "pr_okay res" "pr_action res = Some b" "is_learned b"
    "position a = p" "learned a = Some True" "action_value a = action_value b"
  using assms
  by (cases f) (auto simp: checkPromisePhase_def new_FillProcess_def runWritePhase_def runLearnPhase_def
      retry_def fill_fail_def nop_action_def is_learned_def Let_def
      split: if_splits option.splits)

lemma answer_okay:
  assumes "history_of p s t" and "(c, q, i, m) \<in> promise_acks s"
    and "pr_type m \<noteq> Some IGNORED" and "\<not> isRejectedPromise m"
  shows "ack_covered p t c q i m" and "pr_okay m"
proof -
  show "ack_covered p t c q i m"
    using assms unfolding history_of_def by blast
  then show "pr_okay m"
    using assms(3,4) by (auto simp: ack_covered_def isRejectedPromise_def)
qed

lemma history_propose:
  assumes "history_of p s t" and "request_ok w" "wq_position w = p" "wq_learned w = None"
    "position a = p" "action_value a = Some (request_value w)"
  shows "history_of p (s\<lparr>writes := insert (c, a, w) (writes s)\<rparr>)
    (t\<lparr>proposed := insert (c, wq_proposal w, request_value w) (proposed t)\<rparr>)"
proof -
  let ?t = "t\<lparr>proposed := insert (c, wq_proposal w, request_value w) (proposed t)\<rparr>"
  have "decided ?t x = decided t x" for x
    by (simp add: decided_def chosen_def)
  then have "ack_covered p ?t = ack_covered p t" "lesson_covered p ?t = lesson_covered p t"
    by (simp_all add: ack_covered_def lesson_covered_def fun_eq_iff split: option.split)
  moreover have "unused (s\<lparr>writes := insert (c, a, w) (writes s)\<rparr>) d n \<longleftrightarrow>
      unused s d n \<and> (d, n) \<noteq> (c, wq_proposal w)" for d n
    by (auto simp: unused_def)
  moreover have "write_covered p t d b v \<Longrightarrow> write_covered p ?t d b v" for d b v
    by (simp add: write_covered_def)
  moreover have "write_covered p ?t c a w"
    using assms by (simp add: write_covered_def)
  ultimately show ?thesis
    using assms(1) unfolding history_of_def by auto
qed

lemma propose_matched:
  assumes sim: "simulates valid view p s t" and Q: "majority Q" and may: "may_propose t Q c n (request_value w)"
    and w: "write_request n a = Ok w" "action_type a \<noteq> None" "position a = p" "p \<noteq> max_u64"
  shows "matched valid view p t (s\<lparr>writes := insert (c, a, w) (writes s)\<rparr>)"
proof -
  let ?t = "t\<lparr>proposed := insert (c, n, request_value w) (proposed t)\<rparr>"
  note val = write_request_value [OF w(1,2)]
  have step: "paxos_step majority t ?t"
    by (rule paxos_step.Propose) (rule Q, rule may)
  have "history_of p (s\<lparr>writes := insert (c, a, w) (writes s)\<rparr>) ?t"
    using history_propose [of p s t w a c] sim val w by (simp add: simulates_def)
  then have "simulates valid view p (s\<lparr>writes := insert (c, a, w) (writes s)\<rparr>) ?t"
    using sim by (simp add: simulates_def)
  then show ?thesis
    using step unfolding matched_def by blast
qed

text \<open>A quorum of answers to a fill; the value of the fill is the one a Paxos proposer takes.\<close>

lemma fill_quorum:
  fixes s :: "('i::finite, 'c, 's) log_system"
  assumes hist: "history_of p s t" and k: "CARD('i) < 2 * k"
    and xs: "responses (promise_acks s) c \<lparr>pq_proposal = n, pq_position = Some p\<rparr> xs"
    and ms: "prefix ms (map snd xs)" "k \<le> length (answered ms)" "granted_by n p (set (answered ms)) ao"
  obtains Q where "majority Q"
    and "\<And>i. i \<in> Q \<Longrightarrow> \<exists>m\<in>set (answered ms). (i, n, c, vote (pr_action m)) \<in> grants t"
    and "\<And>m. m \<in> set (answered ms) \<Longrightarrow> \<exists>i\<in>Q. (i, n, c, vote (pr_action m)) \<in> grants t"
proof -
  let ?q = "\<lparr>pq_proposal = n, pq_position = Some p\<rparr>"
  obtain Q where Q: "majority Q"
    and ack: "\<And>i. i \<in> Q \<Longrightarrow> \<exists>m. (c, ?q, i, m) \<in> promise_acks s \<and> m \<in> set ms \<and> pr_type m \<noteq> Some IGNORED"
    and answer: "\<And>m. m \<in> set ms \<Longrightarrow> pr_type m \<noteq> Some IGNORED \<Longrightarrow> \<exists>i\<in>Q. (c, ?q, i, m) \<in> promise_acks s"
    using responses_majority [OF k xs ms(1) ms(2) [unfolded answered_def]] by blast
  have grant: "(i, n, c, vote (pr_action m)) \<in> grants t"
    if "(c, ?q, i, m) \<in> promise_acks s" "m \<in> set (answered ms)" for i m
  proof -
    have m: "pr_type m \<noteq> Some IGNORED" "\<not> isRejectedPromise m" "\<And>a. pr_action m = Some a \<Longrightarrow> \<not> is_learned a"
      using that(2) ms(3) by (auto simp: granted_by_def answered_def)
    from answer_okay [OF hist that(1) this(1,2)] m(3) show ?thesis
      by (auto simp: ack_covered_def vote_def split: option.splits)
  qed
  show ?thesis
    by (rule that [OF Q]) (use ack answer grant in \<open>fastforce simp: answered_def\<close>)+
qed

lemma reported_answer:
  assumes t: "grants_ok t" and v: "v \<in> reported t Q c n"
    and Q: "\<And>i. i \<in> Q \<Longrightarrow> \<exists>m\<in>A. (i, n, c, vote (pr_action m)) \<in> grants t"
  shows "\<exists>m\<in>A. vote (pr_action m) = Some v"
proof -
  obtain i where i: "i \<in> Q" "(i, n, c, Some v) \<in> grants t"
    using v by (auto simp: reported_def)
  then obtain m where "m \<in> A" "(i, n, c, vote (pr_action m)) \<in> grants t"
    using Q by blast
  then show ?thesis
    using grant_unique [OF t i(2)] by blast
qed

lemma fill_may_propose:
  fixes s :: "('i::finite, 'c, 's) log_system"
  assumes hist: "history_of p s t" and t: "maj.paxos_inv t" and k: "CARD('i) < 2 * k"
    and xs: "responses (promise_acks s) c \<lparr>pq_proposal = n, pq_position = Some p\<rparr> xs"
    and ms: "prefix ms (map snd xs)" "k \<le> length (answered ms)" "granted_by n p (set (answered ms)) ao"
    and unused: "unused s c n" and x: "\<And>b. ao = Some b \<Longrightarrow> action_value b = Some x"
  obtains Q where "majority Q" and "may_propose t Q c n x"
proof -
  obtain Q where Q: "majority Q"
    and grant: "\<And>i. i \<in> Q \<Longrightarrow> \<exists>m\<in>set (answered ms). (i, n, c, vote (pr_action m)) \<in> grants t"
    and answer: "\<And>m. m \<in> set (answered ms) \<Longrightarrow> \<exists>i\<in>Q. (i, n, c, vote (pr_action m)) \<in> grants t"
    by (rule fill_quorum [OF hist k xs ms]) blast
  have reported: "\<exists>m\<in>set (answered ms). vote (pr_action m) = Some v" if "v \<in> reported t Q c n" for v
    using t by (intro reported_answer [OF _ that grant]) (simp_all add: maj.paxos_inv_def)
  have "reported t Q c n = {} \<or> (\<exists>k. (k, x) \<in> reported t Q c n \<and> (\<forall>w\<in>reported t Q c n. fst w \<le> k))"
  proof (cases ao)
    case None
    then have "vote (pr_action m) = None" if "m \<in> set (answered ms)" for m
      using ms(3) that by (cases "pr_action m") (auto simp: granted_by_def vote_def)
    then show ?thesis
      using reported by fastforce
  next
    case (Some b)
    then obtain m k where m: "m \<in> set (answered ms)" "pr_action m = Some b" and b: "performed b = Some k"
      and max: "\<And>m' b'. m' \<in> set (answered ms) \<Longrightarrow> pr_action m' = Some b' \<Longrightarrow> performed b' \<noteq> None \<Longrightarrow>
        the (performed b') \<le> k"
      using ms(3) by (auto simp: granted_by_def)
    have "(k, x) \<in> reported t Q c n"
      using answer [OF m(1)] m b x [OF Some] by (auto simp: reported_def vote_def)
    moreover have "fst w \<le> k" if w: "w \<in> reported t Q c n" for w
      using reported [OF w] max by (fastforce simp: vote_def Option.bind_eq_Some_conv)
    ultimately show ?thesis
      by blast
  qed
  moreover have "(c, n, y) \<notin> proposed t" for y
    using hist unused unfolding history_of_def by blast
  moreover have "\<forall>i\<in>Q. \<exists>vo. (i, n, c, vo) \<in> grants t"
    using grant by blast
  ultimately show ?thesis
    using that [OF Q] unfolding may_propose_def by blast
qed

lemma fill_write_matched:
  fixes s :: "('i::finite, 'c, 's) log_system"
  assumes sim: "simulates valid view p s t" and t: "maj.paxos_inv t" and k: "CARD('i) < 2 * k" "p \<noteq> max_u64"
    and xs: "responses (promise_acks s) c \<lparr>pq_proposal = n, pq_position = Some p\<rparr> xs"
    and run: "run_received explicit_received (map snd xs) (new_ExplicitPromiseProcess k n p) = Ok e"
    and fill: "checkPromisePhase (ep_promise e) (new_FillProcess k n p) = Ok f" "fp_phase f = Writing a"
    and w: "write_request n a = Ok w" and unused: "unused s c n"
  shows "matched valid view p t (s\<lparr>writes := insert (c, a, w) (writes s)\<rparr>)"
proof -
  have hist: "history_of p s t"
    using sim by (simp add: simulates_def)
  obtain res where res: "ep_promise e = Ready res" "pr_okay res" and a: "position a = p" "action_type a \<noteq> None"
    and b: "\<And>b. pr_action res = Some b \<Longrightarrow> \<not> is_learned b \<and> action_value a = action_value b"
    by (rule fill_writing [OF fill]) blast
  obtain ms where ms: "prefix ms (map snd xs)" "k \<le> length (answered ms)"
    "granted_by n p (set (answered ms)) (pr_action res)"
    using explicit_run_all [OF run] res b
    by (auto simp: explicit_run_def explicit_inv_def explicit_result_def)
  have "action_value b = Some (request_value w)" if "pr_action res = Some b" for b
    using b [OF that] write_request_value(4) [OF w a(2)] by simp
  then obtain Q where "majority Q" "may_propose t Q c n (request_value w)"
    by (rule fill_may_propose [OF hist t k(1) xs ms unused]) blast+
  then show ?thesis
    by (rule propose_matched [OF sim _ _ w a(2,1) k(2)])
qed

lemma coordinator_write_matched:
  fixes s :: "('i::finite, 'c, 's) log_system"
  assumes sim: "simulates valid view p s t" and t: "maj.paxos_inv t" and k: "CARD('i) < 2 * k" "p \<noteq> max_u64"
    and xs: "responses (promise_acks s) c \<lparr>pq_proposal = n, pq_position = None\<rparr> xs"
    and run: "run_received implicit_received (map snd xs) (new_ImplicitPromiseProcess k n) = Ok e"
    and res: "ip_promise e = Ready res" "pr_okay res" "pr_position res = Some h" "h < p"
    and a: "position a = p" "action_type a \<noteq> None"
    and w: "write_request n a = Ok w" and unused: "unused s c n"
  shows "matched valid view p t (s\<lparr>writes := insert (c, a, w) (writes s)\<rparr>)"
proof -
  let ?q = "\<lparr>pq_proposal = n, pq_position = None\<rparr>"
  have hist: "history_of p s t"
    using sim by (simp add: simulates_def)
  obtain ms where ms: "prefix ms (map snd xs)" "k \<le> length (answered ms)"
    and ends: "\<And>m. m \<in> set (answered ms) \<Longrightarrow> \<not> isRejectedPromise m \<and> (\<exists>e. pr_position m = Some e \<and> e \<le> h)"
    using implicit_run_all [OF run] res
    by (auto simp: implicit_run_def implicit_inv_def implicit_result_def)
  obtain Q where Q: "majority Q"
    and ack: "\<And>i. i \<in> Q \<Longrightarrow> \<exists>m. (c, ?q, i, m) \<in> promise_acks s \<and> m \<in> set ms \<and> pr_type m \<noteq> Some IGNORED"
    using responses_majority [OF k(1) xs ms(1) ms(2) [unfolded answered_def]] by blast
  have grant: "(i, n, c, None) \<in> grants t" if "i \<in> Q" for i
  proof -
    obtain m where m: "(c, ?q, i, m) \<in> promise_acks s" "m \<in> set (answered ms)" "pr_type m \<noteq> Some IGNORED"
      using ack [OF \<open>i \<in> Q\<close>] by (auto simp: answered_def)
    then obtain e where "pr_position m = Some e" "e < p"
      using ends [OF m(2)] res(4) by (meson order_le_less_trans)
    then show ?thesis
      using answer_okay [OF hist m(1,3)] ends [OF m(2)] by (simp add: ack_covered_def)
  qed
  have "grants_ok t"
    using t by (simp add: maj.paxos_inv_def)
  then have "reported t Q c n = {}"
    using grant grant_unique [of t _ n c] unfolding reported_def by blast
  then have "may_propose t Q c n (request_value w)"
    using grant hist unused unfolding may_propose_def history_of_def by blast
  then show ?thesis
    by (rule propose_matched [OF sim Q _ w a(2,1) k(2)])
qed

lemma lesson_matched:
  assumes sim: "simulates valid view p s t" and "lesson_covered p t a"
  shows "matched valid view p t (s\<lparr>lessons := insert a (lessons s)\<rparr>)"
  using assms history_lesson unfolding matched_def simulates_def by fastforce

lemma fill_learn_matched:
  assumes sim: "simulates valid view p s t" and p: "p \<noteq> max_u64"
    and xs: "responses (promise_acks s) c \<lparr>pq_proposal = n, pq_position = Some p\<rparr> xs"
    and run: "run_received explicit_received (map snd xs) (new_ExplicitPromiseProcess k n p) = Ok e"
    and fill: "checkPromisePhase (ep_promise e) (new_FillProcess k n p) = Ok f" "fp_phase f = Learning a"
  shows "matched valid view p t (s\<lparr>lessons := insert (learn a) (lessons s)\<rparr>)"
proof -
  obtain res b where res: "ep_promise e = Ready res" "pr_okay res" "pr_action res = Some b" "is_learned b"
    and a: "position a = p" "learned a = Some True" "action_value a = action_value b"
    by (rule fill_learning [OF fill]) blast
  have "\<not> granted_by n p A (Some b)" for A
    using res(4) by (auto simp: granted_by_def)
  then have "res \<in> set (map snd xs)"
    using explicit_run_all [OF run] res by (auto simp: explicit_run_def explicit_inv_def explicit_result_def)
  then obtain i where "(c, \<lparr>pq_proposal = n, pq_position = Some p\<rparr>, i, res) \<in> promise_acks s"
    using xs by (auto simp: responses_def)
  then have "\<exists>x. action_value b = Some x \<and> decided t x"
    using sim res unfolding simulates_def history_of_def ack_covered_def by fastforce
  then have "lesson_covered p t (learn a)"
    using a p by (simp add: lesson_covered_def learn_def is_learned_def)
  then show ?thesis
    by (rule lesson_matched [OF sim])
qed

lemma write_learn_matched:
  fixes s :: "('i::finite, 'c, 's) log_system"
  assumes sim: "simulates valid view p s t" and k: "CARD('i) < 2 * k" "p \<noteq> max_u64"
    and w: "(c, a, w) \<in> writes s" and ys: "responses (write_acks s) c w ys"
    and run: "run_received write_received (map snd ys) (new_WriteProcess k (wq_proposal w) a) = Ok e"
    and res: "wp_promise e = Ready res" "wr_okay res"
  shows "matched valid view p t (s\<lparr>lessons := insert (learn a) (lessons s)\<rparr>)"
proof -
  have hist: "history_of p s t"
    using sim by (simp add: simulates_def)
  obtain ms where ms: "prefix ms (map snd ys)" "k \<le> length (filter (\<lambda>m. wr_type m \<noteq> Some IGNORED) ms)"
    and acc: "\<And>m. m \<in> set ms \<Longrightarrow> wr_type m \<noteq> Some IGNORED \<Longrightarrow> \<not> isRejectedWrite m"
    using write_run_all [OF run] res by (auto simp: write_run_def write_inv_def write_quorum_def)
  obtain Q where Q: "majority Q"
    and ack: "\<And>i. i \<in> Q \<Longrightarrow> \<exists>m. (c, w, i, m) \<in> write_acks s \<and> m \<in> set ms \<and> wr_type m \<noteq> Some IGNORED"
    using responses_majority [OF k(1) ys ms] by blast
  have "(i, wq_proposal w, request_value w) \<in> voted t" if i: "i \<in> Q" for i
  proof -
    obtain m where m: "(c, w, i, m) \<in> write_acks s" "wr_type m \<noteq> Some IGNORED" "\<not> isRejectedWrite m"
      using ack [OF i] acc by blast
    have "(\<not> wr_okay m \<longrightarrow> wr_type m = Some IGNORED \<or> wr_type m = Some REJECT) \<and>
        (wr_okay m \<longrightarrow> (i, wq_proposal w, request_value w) \<in> voted t)"
      using hist m(1) unfolding history_of_def by blast
    then show ?thesis
      using m(2,3) by (auto simp: isRejectedWrite_def)
  qed
  then have "decided t (request_value w)"
    using Q unfolding decided_def chosen_def by blast
  moreover have "position a = p" "action_value a = Some (request_value w)"
    using hist w by (auto simp: history_of_def write_covered_def)
  ultimately have "lesson_covered p t (learn a)"
    using k(2) by (simp add: lesson_covered_def learn_def is_learned_def)
  then show ?thesis
    by (rule lesson_matched [OF sim])
qed

subsection \<open>Refinement and agreement\<close>

context log_storage
begin

lemma step_matched:
  fixes s :: "('i::finite, 'c, 's) log_system"
  assumes k: "CARD('i) < 2 * k" "p \<noteq> max_u64" and sim: "simulates valid view p s t" and t: "maj.paxos_inv t"
    and step: "log_step ops view True k p s s'"
  shows "matched valid view p t s'"
  using step
proof (cases rule: log_step.cases)
  case PromiseReq
  then show ?thesis
    using promise_matched [OF sim t] by simp
next
  case FillWrite
  then show ?thesis
    using fill_write_matched [OF sim t k] by simp
next
  case FillLearn
  then show ?thesis
    using fill_learn_matched [OF sim k(2)] by simp
next
  case CoordinatorWrite
  then show ?thesis
    using coordinator_write_matched [OF sim t k] by simp
next
  case WriteReq
  then show ?thesis
    using write_matched [OF sim t] by simp
next
  case WriteLearn
  then show ?thesis
    using write_learn_matched [OF sim k] by simp
next
  case LearnedMsg
  then show ?thesis
    using learned_matched [OF sim] by simp
next
  case OtherWrite
  then show ?thesis
    using other_write_matched [OF sim] by simp
next
  case OtherLearned
  then show ?thesis
    using other_learned_matched [OF sim] by simp
qed

lemma log_refines_paxos:
  fixes s :: "('i::finite, 'c, 's) log_system"
  assumes k: "CARD('i) < 2 * k" "p \<noteq> max_u64" and reach: "log_reachable ops valid view True k p s"
  shows "\<exists>t. paxos_reachable majority t \<and> simulates valid view p s t"
proof -
  obtain s0 where init: "log_init valid view p s0" and steps: "(log_step ops view True k p)\<^sup>*\<^sup>* s0 s"
    using reach unfolding log_reachable_def by blast
  from steps show ?thesis
  proof (induction rule: rtranclp_induct)
    case base
    let ?t = "\<lparr>ballot = (\<lambda>i. governing view (nodes s0 i) p), last_vote = (\<lambda>_. None), grants = {},
      proposed = {}, voted = {}, settled = (\<lambda>_. None)\<rparr>"
    have "paxos_reachable majority ?t"
      unfolding paxos_reachable_def by (intro exI [of _ ?t]) (simp add: paxos_init_def)
    moreover have "simulates valid view p s0 ?t"
      using init by (simp add: log_init_def simulates_def history_of_def acceptor_None vote_def)
    ultimately show ?case
      by blast
  next
    case (step s1 s2)
    then obtain t where t: "paxos_reachable majority t" "simulates valid view p s1 t"
      by blast
    have "matched valid view p t s2"
      by (rule step_matched [OF k t(2) maj.inv_reachable [OF t(1)] step(2)])
    then obtain t' where "t' = t \<or> paxos_step majority t t'" "simulates valid view p s2 t'"
      unfolding matched_def by blast
    moreover from this(1) have "paxos_reachable majority t'"
      using t(1) unfolding paxos_reachable_def by (meson rtranclp.rtrancl_into_rtrancl)
    ultimately show ?case
      by blast
  qed
qed

lemma log_agrees:
  fixes s :: "('i::finite, 'c, 's) log_system"
  assumes "CARD('i) < 2 * k" "p \<noteq> max_u64" "log_reachable ops valid view True k p s"
    and i: "learned_at view (nodes s i) p x" and j: "learned_at view (nodes s j) p y"
  shows "x = y"
proof -
  obtain t :: "('i, 'c, u64, Val) paxos"
    where t: "paxos_reachable majority t" and sim: "simulates valid view p s t"
    using log_refines_paxos [OF assms(1-3)] by blast
  have "settled t l = Some z" if "learned_at view (nodes s l) p z" for l z
  proof -
    have "acceptor_of view p (nodes s l) (ballot t l) (last_vote t l) (settled t l)"
      using sim by (simp add: simulates_def)
    with that show ?thesis
      by (cases "settled t l") (auto simp: acceptor_None learned_at_def)
  qed
  with i j show ?thesis
    using maj.settled_unique [OF t] by blast
qed

end

end
