(* ===== verification/Log_Scenario.thy ===== *)
theory Log_Scenario
  imports Log_Paxos
begin

section \<open>Runs of the replicated log\<close>

text \<open>
  Executions of the composed system on replicas over an in-memory database that never fails, to apply
  the agreement theorem and to show that its condition on the order of requests is needed.
\<close>

subsection \<open>Replicas whose storage does not fail\<close>

type_synonym mem_replica = "((string \<times> Rec) list, Rec) LevelDBStorage replica"

text \<open>
  A voting replica with promise \<open>l\<close>, log \<open>0..e\<close> and record \<open>ko\<close> at position 1, which is the position
  of the examples.
\<close>

definition replica_at :: "u64 \<Rightarrow> u64 \<Rightarrow> Action option \<Rightarrow> mem_replica \<Rightarrow> bool" where
  "replica_at l e ko r \<longleftrightarrow>
     ldb_inv r \<and> db_api (storage r) = mem_leveldb \<and> status r = VOTING \<and> last_promised r = l \<and>
     log_begin r = 0 \<and> log_end r = e \<and> known leveldb_view r 1 = ko"

lemma replica_at_governing:
  "replica_at l e ko r \<Longrightarrow> governing leveldb_view r 1 = (case ko of None \<Rightarrow> l | Some a \<Rightarrow> promised a)"
  by (simp add: replica_at_def governing_def split: option.split)

lemma fresh_at: "replica_at 0 0 None fresh_replica"
  using fresh_inv fresh_known [of 1]
  by (simp add: replica_at_def) (simp add: fresh_replica_def status_def last_promised_def)

lemma mem_persist_action:
  assumes "db_api s = mem_leveldb" and "\<not> deletes a" and "wf_action a"
  shows "\<exists>s'. leveldb_persist_action a s = (Ok (), s') \<and> db_api s' = mem_leveldb"
  using assms by (auto simp: mem_eval deletes_def wf_action_def)

lemma mem_persist_metadata:
  "db_api s = mem_leveldb \<Longrightarrow>
   \<exists>s'. leveldb_persist_metadata m s = (Ok (), s') \<and> db_api s' = mem_leveldb"
  by (simp add: leveldb_persist_metadata_def mem_leveldb_def encode_False)

lemma replica_at_persist:
  assumes r: "replica_at l e ko r" and a: "position a = 1" "\<not> deletes a" "truncation a = 0"
    and l: "\<And>b. ko = Some b \<Longrightarrow> is_learned b \<Longrightarrow> is_learned a"
  shows "\<exists>r'. persist LevelDBStorage_ops r a = Ok (True, r') \<and> replica_at l (max e 1) (Some a) r'"
proof -
  have inv: "ldb_inv r" and k: "known leveldb_view r 1 = ko"
    using r by (simp_all add: replica_at_def)
  have wf: "wf_action a"
    using a by (auto simp: wf_action_def deletes_def)
  obtain s' where s': "leveldb_persist_action a (storage r) = (Ok (), s')" "db_api s' = mem_leveldb"
    using mem_persist_action [OF _ a(2) wf, of "storage r"] r by (auto simp: replica_at_def)
  then have run: "persist LevelDBStorage_ops r a = Ok (True, persisted a (r\<lparr>storage := s'\<rparr>))"
    by (simp add: persist_def LevelDBStorage_ops_simps)
  have L: "is_learned a" if "log_begin r \<le> position a" "position a \<le> log_end r"
    "position a \<notin> holes r" "position a \<notin> unlearned r"
    using inv_known(1) [OF inv that] l k a(1) by auto
  show ?thesis
  proof (rule ldb.persist_cases [OF inv wf L])
    fix r' assume "persist LevelDBStorage_ops r a = Ok (True, r')" and "ldb_inv r'"
      and "log_begin r' = max (log_begin r) (truncation a)" "log_end r' = max (log_end r) (position a)"
      and "metadata r' = metadata r"
      and "\<forall>p. log_begin r' \<le> p \<longrightarrow>
         known leveldb_view r' p = (if p = position a then Some a else known leveldb_view r p)"
    then have "replica_at l (max e 1) (Some a) r'"
      using r a run s'(2) by (auto simp: replica_at_def status_def last_promised_def)
    with \<open>persist LevelDBStorage_ops r a = Ok (True, r')\<close> show ?thesis
      by blast
  next
    fix r' assume "persist LevelDBStorage_ops r a = Ok (False, r')"
    with run show ?thesis
      by simp
  qed
qed

lemma replica_at_implicit:
  assumes r: "replica_at l e ko r" and n: "l < n"
  shows "\<exists>r'. promise LevelDBStorage_ops r \<lparr>pq_proposal = n, pq_position = None\<rparr> =
    Ok (r', Some (promise_accept n (Some e) None)) \<and> replica_at n e ko r'"
proof -
  let ?q = "\<lparr>pq_proposal = n, pq_position = None\<rparr>"
  have inv: "ldb_inv r" and v: "status r = VOTING"
    using r by (simp_all add: replica_at_def)
  obtain s' where s': "leveldb_persist_metadata \<lparr>meta_status = VOTING, meta_promised = n\<rparr> (storage r) = (Ok (), s')"
    "db_api s' = mem_leveldb"
    using mem_persist_metadata r by (metis replica_at_def)
  define r' where "r' = r\<lparr>storage := s', metadata := (metadata r)\<lparr>meta_promised := n\<rparr>\<rparr>"
  have facts: "last_promised r = l" "log_end r = e" "log_begin r = 0"
    using r by (simp_all add: replica_at_def)
  then have run: "promise LevelDBStorage_ops r ?q = Ok (r', Some (promise_accept n (Some e) None))"
    using v n s' by (simp add: promise_def promise_implicit_def updatePromised_def LevelDBStorage_ops_simps
        leD r'_def)
  have r': "db_api (storage r') = mem_leveldb" "status r' = VOTING" "last_promised r' = n"
      "log_begin r' = 0" "log_end r' = e"
    using v s' facts by (simp_all add: r'_def status_def last_promised_def)
  have "ldb_inv r' \<and> known leveldb_view r' = known leveldb_view r"
    by (rule ldb.promise_implicit_ok [OF inv v, of ?q]) (use run in simp_all)
  then show ?thesis
    using run r r' by (auto simp: replica_at_def)
qed

lemma replica_at_read: "replica_at l e ko r \<Longrightarrow> read LevelDBStorage_ops r 1 = Ok ko"
  using ldb.read_known [of r 1] by (simp add: replica_at_def)

lemma replica_at_facts:
  assumes "replica_at l e ko r"
  shows "status r = VOTING" "last_promised r = l" "log_begin r = 0"
  using assms by (simp_all add: replica_at_def)

lemma replica_at_explicit:
  assumes r: "replica_at l e ko r" and n: "(case ko of None \<Rightarrow> l | Some a \<Rightarrow> promised a) < n"
    and a: "\<And>a. ko = Some a \<Longrightarrow> position a = 1 \<and> \<not> is_learned a"
  shows "\<exists>r'. promise LevelDBStorage_ops r \<lparr>pq_proposal = n, pq_position = Some 1\<rparr> =
      Ok (r', Some (promise_accept n (if ko = None then Some 1 else None) ko)) \<and>
    replica_at l (max e 1) (Some (case ko of None \<Rightarrow> new_action 1 n | Some a \<Rightarrow> a\<lparr>promised := n\<rparr>)) r'"
proof -
  let ?a = "case ko of None \<Rightarrow> new_action 1 n | Some a \<Rightarrow> a\<lparr>promised := n\<rparr>"
  have "position ?a = 1" "\<not> is_learned ?a"
    using a by (auto simp: is_learned_def split: option.splits)
  then obtain r' where "persist LevelDBStorage_ops r ?a = Ok (True, r')" "replica_at l (max e 1) (Some ?a) r'"
    using replica_at_persist [OF r, of ?a] a by (auto simp: deletes_def truncation_def)
  moreover have "\<not> n \<le> (case ko of None \<Rightarrow> l | Some a \<Rightarrow> promised a)"
    using n by (simp add: linorder_not_le)
  ultimately show ?thesis
    using a replica_at_read [OF r] replica_at_facts [OF r]
    by (cases ko) (simp_all add: promise_def promise_explicit_def persist_reply_def)
qed

lemma replica_at_write:
  assumes r: "replica_at l e ko r" and n: "(case ko of None \<Rightarrow> l | Some a \<Rightarrow> promised a) \<le> wq_proposal w"
    and a: "\<And>a. ko = Some a \<Longrightarrow> position a = 1 \<and> \<not> is_learned a"
    and w: "wq_position w = 1" "wq_learned w = None"
    and set: "set_request w (case ko of None \<Rightarrow> new_action 1 l | Some a \<Rightarrow> a) = Ok b" "position b = 1"
  shows "\<exists>r'. replica_write LevelDBStorage_ops r w = Ok (r', Some (write_response ACCEPT (wq_proposal w) 1)) \<and>
    replica_at l (max e 1) (Some b) r'"
proof -
  have "\<not> is_learned b"
    using set w by (auto simp: set_request_def is_learned_def Let_def split: ActionType.splits if_splits)
  then obtain r' where "persist LevelDBStorage_ops r b = Ok (True, r')" "replica_at l (max e 1) (Some b) r'"
    using replica_at_persist [OF r set(2)] a by (auto simp: deletes_def truncation_def)
  moreover have "\<not> wq_proposal w < (case ko of None \<Rightarrow> l | Some a \<Rightarrow> promised a)"
    using n by (simp add: linorder_not_less)
  ultimately show ?thesis
    using a w set replica_at_read [OF r] replica_at_facts [OF r]
    by (cases ko) (simp_all add: replica_write_def persist_reply_def)
qed

lemma replica_at_learned:
  assumes r: "replica_at l e ko r" and a: "position a = 1" "\<not> deletes a" "learned a = Some True"
  shows "\<exists>r'. learned_message LevelDBStorage_ops r a = Ok r' \<and> replica_at l (max e 1) (Some a) r'"
proof -
  have "truncation a = 0"
    using a by (simp add: truncation_def deletes_def)
  then show ?thesis
    using replica_at_persist [OF r a(1,2)] a(3) by (auto simp: learned_message_def is_learned_def)
qed

subsection \<open>Runs of three replicas\<close>

datatype node = R1 | R2 | R3

lemma UNIV_node: "UNIV = {R1, R2, R3}"
  using node.exhaust by auto

instantiation node :: finite
begin

instance
  by standard (unfold UNIV_node, simp)

end

lemma card_node: "CARD(node) = 3"
  unfolding UNIV_node by simp

type_synonym node_state = "u64 \<times> u64 \<times> Action option"

text \<open>
  \<open>run ordered N A W B L\<close>: a state is reached in which the replicas are as \<open>N\<close> says and the messages
  sent are \<open>A\<close>, \<open>W\<close>, \<open>B\<close> and \<open>L\<close>. Position 1, quorums of two.
\<close>

definition state_is ::
  "(node \<Rightarrow> node_state) \<Rightarrow> (nat \<times> PromiseRequest \<times> node \<times> PromiseResponse) set \<Rightarrow>
   (nat \<times> Action \<times> WriteRequest) set \<Rightarrow> (nat \<times> WriteRequest \<times> node \<times> WriteResponse) set \<Rightarrow>
   Action set \<Rightarrow> (node, nat, ((string \<times> Rec) list, Rec) LevelDBStorage) log_system \<Rightarrow> bool" where
  "state_is N A W B L s \<longleftrightarrow>
     (\<forall>i. case N i of (l, e, ko) \<Rightarrow> replica_at l e ko (nodes s i)) \<and>
     promise_acks s = A \<and> writes s = W \<and> write_acks s = B \<and> lessons s = L"

definition run ::
  "bool \<Rightarrow> (node \<Rightarrow> node_state) \<Rightarrow> (nat \<times> PromiseRequest \<times> node \<times> PromiseResponse) set \<Rightarrow>
   (nat \<times> Action \<times> WriteRequest) set \<Rightarrow> (nat \<times> WriteRequest \<times> node \<times> WriteResponse) set \<Rightarrow>
   Action set \<Rightarrow> bool" where
  "run ordered N A W B L \<longleftrightarrow>
     (\<exists>s. log_reachable LevelDBStorage_ops leveldb_valid leveldb_view ordered 2 1 s \<and> state_is N A W B L s)"

lemma state_node: "state_is N A W B L s \<Longrightarrow> N i = (l, e, ko) \<Longrightarrow> replica_at l e ko (nodes s i)"
  unfolding state_is_def by (metis case_prod_conv)

lemma run_step:
  assumes "run ordered N A W B L"
    and step: "\<And>s. state_is N A W B L s \<Longrightarrow>
      \<exists>s'. log_step LevelDBStorage_ops leveldb_view ordered 2 1 s s' \<and> state_is N' A' W' B' L' s'"
  shows "run ordered N' A' W' B' L'"
proof -
  obtain s s' where "log_reachable LevelDBStorage_ops leveldb_valid leveldb_view ordered 2 1 s"
    "log_step LevelDBStorage_ops leveldb_view ordered 2 1 s s'" "state_is N' A' W' B' L' s'"
    using assms unfolding run_def by blast
  then show ?thesis
    unfolding run_def log_reachable_def by (meson rtranclp.rtrancl_into_rtrancl)
qed

lemma run_init: "run ordered (\<lambda>_. (0, 0, None)) {} {} {} {}"
proof -
  let ?s = "\<lparr>nodes = (\<lambda>_. fresh_replica), promise_acks = {}, writes = {}, write_acks = {}, lessons = {}\<rparr>"
  have "log_init leveldb_valid leveldb_view 1 ?s"
    using fresh_at by (simp add: log_init_def replica_at_def)
  then have "log_reachable LevelDBStorage_ops leveldb_valid leveldb_view ordered 2 1 ?s"
    unfolding log_reachable_def by blast
  then show ?thesis
    using fresh_at unfolding run_def state_is_def by (intro exI [of _ ?s]) simp
qed

lemma run_promise:
  assumes run: "run ordered N A W B L" and i: "N i = (l, e, ko)" and q: "pq_position q \<noteq> Some max_u64"
    and r: "\<And>r. replica_at l e ko r \<Longrightarrow>
      \<exists>r'. promise LevelDBStorage_ops r q = Ok (r', Some m) \<and> replica_at l' e' ko' r'"
  shows "run ordered (N(i := (l', e', ko'))) (insert (c, q, i, m) A) W B L"
proof (rule run_step [OF run])
  fix s assume s: "state_is N A W B L s"
  obtain r' where r': "promise LevelDBStorage_ops (nodes s i) q = Ok (r', Some m)" "replica_at l' e' ko' r'"
    using r [OF state_node [OF s i]] by blast
  have "log_begin r' \<le> 1"
    using replica_at_facts [OF r'(2)] by simp
  note step = log_step.PromiseReq [OF q r'(1) this, where c = c]
  show "\<exists>s'. log_step LevelDBStorage_ops leveldb_view ordered 2 1 s s' \<and>
      state_is (N(i := (l', e', ko'))) (insert (c, q, i, m) A) W B L s'"
    by (rule exI, rule conjI, rule step) (use s r'(2) in \<open>auto simp: state_is_def\<close>)
qed

lemma run_implicit:
  "run ordered N A W B L \<Longrightarrow> N i = (l, e, ko) \<Longrightarrow> l < n \<Longrightarrow>
   run ordered (N(i := (n, e, ko)))
     (insert (c, \<lparr>pq_proposal = n, pq_position = None\<rparr>, i, promise_accept n (Some e) None) A) W B L"
  by (rule run_promise) (assumption | simp | erule replica_at_implicit)+

lemma run_explicit:
  "run ordered N A W B L \<Longrightarrow> N i = (l, e, ko) \<Longrightarrow> (case ko of None \<Rightarrow> l | Some a \<Rightarrow> promised a) < n \<Longrightarrow>
   (\<And>a. ko = Some a \<Longrightarrow> position a = 1 \<and> \<not> is_learned a) \<Longrightarrow>
   run ordered (N(i := (l, max e 1, Some (case ko of None \<Rightarrow> new_action 1 n | Some a \<Rightarrow> a\<lparr>promised := n\<rparr>))))
     (insert (c, \<lparr>pq_proposal = n, pq_position = Some 1\<rparr>, i,
        promise_accept n (if ko = None then Some 1 else None) ko) A) W B L"
  by (rule run_promise, assumption+) (simp, erule replica_at_explicit)

lemma run_write:
  assumes run: "run ordered N A W B L" and w: "(c, a, w) \<in> W" "wq_position w = 1" "wq_learned w = None"
    and i: "N i = (l, e, ko)" and n: "(case ko of None \<Rightarrow> l | Some a \<Rightarrow> promised a) \<le> wq_proposal w"
    and ordered: "ordered \<Longrightarrow> wq_proposal w \<le> (case ko of None \<Rightarrow> l | Some a \<Rightarrow> promised a)"
    and ko: "\<And>a. ko = Some a \<Longrightarrow> position a = 1 \<and> \<not> is_learned a"
    and set: "set_request w (case ko of None \<Rightarrow> new_action 1 l | Some a \<Rightarrow> a) = Ok b" "position b = 1"
  shows "run ordered (N(i := (l, max e 1, Some b))) A W
    (insert (c, w, i, write_response ACCEPT (wq_proposal w) 1) B) L"
proof (rule run_step [OF run])
  fix s assume s: "state_is N A W B L s"
  note r = state_node [OF s i]
  obtain r' where r': "replica_write LevelDBStorage_ops (nodes s i) w =
      Ok (r', Some (write_response ACCEPT (wq_proposal w) 1))" "replica_at l (max e 1) (Some b) r'"
    using replica_at_write [OF r n ko w(2,3) set] by blast
  have "log_begin r' \<le> 1" "(c, a, w) \<in> writes s"
    "ordered \<longrightarrow> wq_proposal w \<le> governing leveldb_view (nodes s i) 1"
    using replica_at_facts [OF r'(2)] s w ordered replica_at_governing [OF r] by (simp_all add: state_is_def)
  note step = log_step.WriteReq [OF this(2,3) r'(1) this(1)]
  show "\<exists>s'. log_step LevelDBStorage_ops leveldb_view ordered 2 1 s s' \<and>
      state_is (N(i := (l, max e 1, Some b))) A W
        (insert (c, w, i, write_response ACCEPT (wq_proposal w) 1) B) L s'"
    by (rule exI, rule conjI, rule step) (use s r'(2) in \<open>auto simp: state_is_def\<close>)
qed

lemma run_learned:
  assumes run: "run ordered N A W B L" and a: "a \<in> L" "position a = 1" "\<not> deletes a" "learned a = Some True"
    and i: "N i = (l, e, ko)"
  shows "run ordered (N(i := (l, max e 1, Some a))) A W B L"
proof (rule run_step [OF run])
  fix s assume s: "state_is N A W B L s"
  obtain r' where r': "learned_message LevelDBStorage_ops (nodes s i) a = Ok r'"
    "replica_at l (max e 1) (Some a) r'"
    using replica_at_learned [OF state_node [OF s i] a(2-4)] by blast
  have "log_begin r' \<le> 1" "a \<in> lessons s"
    using replica_at_facts [OF r'(2)] s a by (simp_all add: state_is_def)
  note step = log_step.LearnedMsg [OF this(2) r'(1) this(1)]
  show "\<exists>s'. log_step LevelDBStorage_ops leveldb_view ordered 2 1 s s' \<and>
      state_is (N(i := (l, max e 1, Some a))) A W B L s'"
    by (rule exI, rule conjI, rule step) (use s r'(2) in \<open>auto simp: state_is_def\<close>)
qed

text \<open>An append at position 1, as written with proposal \<open>n\<close> under promise \<open>l\<close>, and its request.\<close>

definition stored :: "u64 \<Rightarrow> u64 \<Rightarrow> string \<Rightarrow> Action" where
  "stored l n bs =
     (new_action 1 l)\<lparr>performed := Some n, action_type := Some APPEND,
       action_append := Some \<lparr>bytes = bs, cksum = None\<rparr>\<rparr>"

definition append_request :: "u64 \<Rightarrow> string \<Rightarrow> WriteRequest" where
  "append_request n bs =
     \<lparr>wq_proposal = n, wq_position = 1, wq_learned = None, wq_type = APPEND, wq_nop = None,
      wq_append = Some \<lparr>bytes = bs, cksum = None\<rparr>, wq_truncate = None\<rparr>"

lemma stored_simps [simp]:
  "position (stored l n bs) = 1" "promised (stored l n bs) = l" "performed (stored l n bs) = Some n"
  "learned (stored l n bs) = None" "\<not> is_learned (stored l n bs)"
  "action_type (stored l n bs) = Some APPEND"
  "(stored l n bs)\<lparr>promised := k\<rparr> = stored k n bs"
  "(stored l n bs)\<lparr>performed := Some m\<rparr> = stored l m bs"
  "write_request m (stored l n bs) = Ok (append_request m bs)"
  "set_request (append_request m bs) (new_action 1 l) = Ok (stored l m bs)"
  "set_request (append_request m bs) (stored l n bs') = Ok (stored l m bs)"
  "\<not> is_learned (new_action p l)"
  by (simp_all add: stored_def append_request_def new_action_def write_request_def set_request_def
      is_learned_def)

lemma append_request_simps [simp]:
  "wq_position (append_request n bs) = 1" "wq_proposal (append_request n bs) = n"
  "wq_learned (append_request n bs) = None"
  by (simp_all add: append_request_def)

lemma run_coordinate:
  assumes run: "run ordered N A W B L" and "i \<noteq> j" and c: "\<And>a w. (c, a, w) \<in> W \<Longrightarrow> wq_proposal w \<noteq> n"
    and acks: "(c, \<lparr>pq_proposal = n, pq_position = None\<rparr>, i, promise_accept n (Some 0) None) \<in> A"
      "(c, \<lparr>pq_proposal = n, pq_position = None\<rparr>, j, promise_accept n (Some 0) None) \<in> A"
  shows "run ordered N A (insert (c, stored n n bs, append_request n bs) W) B L"
proof (rule run_step [OF run])
  fix s assume s: "state_is N A W B L s"
  let ?xs = "[(i, promise_accept n (Some 0) None), (j, promise_accept n (Some 0) None)]"
  obtain e where e: "run_received implicit_received (map snd ?xs) (new_ImplicitPromiseProcess 2 n) = Ok e"
    "ip_promise e = Ready (promise_result ACCEPT True 0 (Some 0) None)"
    by (simp add: implicit_received_def implicit_finish_def new_ImplicitPromiseProcess_def
        promise_accept_def isRejectedPromise_def raise_option_def Let_def)
  have "responses (promise_acks s) c \<lparr>pq_proposal = n, pq_position = None\<rparr> ?xs" "unused s c n"
    using s acks \<open>i \<noteq> j\<close> c by (auto simp: responses_def state_is_def unused_def)
  note step = log_step.CoordinatorWrite [OF this(1) e _ _ _ _ _ _ _ this(2), of 0 1 "stored n n bs"]
  show "\<exists>s'. log_step LevelDBStorage_ops leveldb_view ordered 2 1 s s' \<and>
      state_is N A (insert (c, stored n n bs, append_request n bs) W) B L s'"
    by (rule exI, rule conjI, rule step) (use s in \<open>auto simp: state_is_def promise_result_def\<close>)
qed

lemma run_fill:
  assumes run: "run ordered N A W B L" and "i \<noteq> j" and c: "\<And>a w. (c, a, w) \<in> W \<Longrightarrow> wq_proposal w \<noteq> n"
    and acks: "(c, \<lparr>pq_proposal = n, pq_position = Some 1\<rparr>, i, promise_accept n (Some 1) None) \<in> A"
      "(c, \<lparr>pq_proposal = n, pq_position = Some 1\<rparr>, j, promise_accept n None (Some (stored l m bs))) \<in> A"
  shows "run ordered N A (insert (c, stored n n bs, append_request n bs) W) B L"
proof (rule run_step [OF run])
  fix s assume s: "state_is N A W B L s"
  let ?xs = "[(i, promise_accept n (Some 1) None), (j, promise_accept n None (Some (stored l m bs)))]"
  obtain e where e: "run_received explicit_received (map snd ?xs) (new_ExplicitPromiseProcess 2 n 1) = Ok e"
    "ep_promise e = Ready (promise_result ACCEPT True 0 None (Some (stored l m bs)))"
    by (simp add: explicit_received_def explicit_finish_def explicit_ack_def new_ExplicitPromiseProcess_def
        promise_accept_def isRejectedPromise_def Let_def)
  have f: "checkPromisePhase (ep_promise e) (new_FillProcess 2 n 1) =
      Ok ((new_FillProcess 2 n 1)\<lparr>fp_phase := Writing (stored n n bs)\<rparr>)"
    unfolding e(2) by (simp add: checkPromisePhase_def promise_result_def new_FillProcess_def
        runWritePhase_def Let_def)
  have "responses (promise_acks s) c \<lparr>pq_proposal = n, pq_position = Some 1\<rparr> ?xs" "unused s c n"
    using s acks \<open>i \<noteq> j\<close> c by (auto simp: responses_def state_is_def unused_def)
  note step = log_step.FillWrite [OF this(1) e(1) f _ _ this(2), of "stored n n bs"]
  show "\<exists>s'. log_step LevelDBStorage_ops leveldb_view ordered 2 1 s s' \<and>
      state_is N A (insert (c, stored n n bs, append_request n bs) W) B L s'"
    by (rule exI, rule conjI, rule step) (use s in \<open>auto simp: state_is_def\<close>)
qed

lemma run_write_learn:
  assumes run: "run ordered N A W B L" and "i \<noteq> j" and w: "(c, stored l n bs, append_request n bs) \<in> W"
    and acks: "(c, append_request n bs, i, write_response ACCEPT n 1) \<in> B"
      "(c, append_request n bs, j, write_response ACCEPT n 1) \<in> B"
  shows "run ordered N A W B (insert (learn (stored l n bs)) L)"
proof (rule run_step [OF run])
  fix s assume s: "state_is N A W B L s"
  let ?ys = "[(i, write_response ACCEPT n 1), (j, write_response ACCEPT n 1)]"
  obtain e where e: "run_received write_received (map snd ?ys)
      (new_WriteProcess 2 (wq_proposal (append_request n bs)) (stored l n bs)) = Ok e"
    "wp_promise e = Ready (write_result ACCEPT True 0)"
    by (simp add: write_received_def write_finish_def new_WriteProcess_def write_response_def
        isRejectedWrite_def Let_def)
  have "(c, stored l n bs, append_request n bs) \<in> writes s"
    "responses (write_acks s) c (append_request n bs) ?ys"
    using s acks \<open>i \<noteq> j\<close> w by (auto simp: responses_def state_is_def)
  note step = log_step.WriteLearn [OF this e]
  show "\<exists>s'. log_step LevelDBStorage_ops leveldb_view ordered 2 1 s s' \<and>
      state_is N A W B (insert (learn (stored l n bs)) L) s'"
    by (rule exI, rule conjI, rule step) (use s in \<open>auto simp: state_is_def write_result_def\<close>)
qed

lemma run_learned_at:
  assumes "run ordered N A W B L" and "N i = (l, e, Some a)" "is_learned a" "action_value a = Some x"
    and "N j = (l', e', Some b)" "is_learned b" "action_value b = Some y"
  shows "\<exists>s :: (node, nat, ((string \<times> Rec) list, Rec) LevelDBStorage) log_system.
    log_reachable LevelDBStorage_ops leveldb_valid leveldb_view ordered 2 1 s \<and>
    learned_at leveldb_view (nodes s i) 1 x \<and> learned_at leveldb_view (nodes s j) 1 y"
proof -
  obtain s :: "(node, nat, ((string \<times> Rec) list, Rec) LevelDBStorage) log_system"
    where s: "log_reachable LevelDBStorage_ops leveldb_valid leveldb_view ordered 2 1 s" "state_is N A W B L s"
    using assms(1) unfolding run_def by blast
  have "known leveldb_view (nodes s i) 1 = Some a" "known leveldb_view (nodes s j) 1 = Some b"
    using state_node [OF s(2) assms(2)] state_node [OF s(2) assms(5)] by (simp_all add: replica_at_def)
  then show ?thesis
    using s(1) assms unfolding learned_at_def by blast
qed

lemma learn_stored [simp]:
  "is_learned (learn (stored l n bs))" "learned (learn (stored l n bs)) = Some True"
  "position (learn (stored l n bs)) = 1" "\<not> deletes (learn (stored l n bs))"
  "action_value (learn (stored l n bs)) = Some (VAppend \<lparr>bytes = bs, cksum = None\<rparr>)"
  by (simp_all add: learn_def stored_def is_learned_def deletes_def is_truncate_def is_tombstone_def
      action_value_def new_action_def)

text \<open>Coordinator 0 is elected with proposal 3 by two replicas, which accept and learn its append.\<close>

lemma ordered_run:
  "\<exists>N A W B L. run True N A W B L \<and>
     N R1 = (3, 1, Some (learn (stored 3 3 ''a''))) \<and> N R3 = (3, 1, Some (learn (stored 3 3 ''a'')))"
proof -
  note run = run_init [of True]
  note run = run_implicit [OF run, where i = R1 and l = 0 and e = 0 and ko = None and n = 3 and c = 0, simplified]
  note run = run_implicit [OF run, where i = R3 and l = 0 and e = 0 and ko = None and n = 3 and c = 0, simplified]
  note run = run_coordinate [OF run, where i = R1 and j = R3 and c = 0 and n = 3 and bs = "''a''", simplified]
  note run = run_write [OF run, where i = R1 and c = 0 and a = "stored 3 3 ''a''" and w = "append_request 3 ''a''"
    and l = 3 and e = 0 and ko = None and b = "stored 3 3 ''a''", simplified]
  note run = run_write [OF run, where i = R3 and c = 0 and a = "stored 3 3 ''a''" and w = "append_request 3 ''a''"
    and l = 3 and e = 0 and ko = None and b = "stored 3 3 ''a''", simplified]
  note run = run_write_learn [OF run, where i = R1 and j = R3 and c = 0 and l = 3 and n = 3 and bs = "''a''", simplified]
  note run = run_learned [OF run, where i = R1 and a = "learn (stored 3 3 ''a'')" and l = 3 and e = 1 and ko = "Some (stored 3 3 ''a'')", simplified]
  note run = run_learned [OF run, where i = R3 and a = "learn (stored 3 3 ''a'')" and l = 3 and e = 1 and ko = "Some (stored 3 3 ''a'')", simplified]
  show ?thesis
    by (intro exI, rule conjI, rule run) simp
qed

text \<open>
  Coordinator 0 is elected with proposal 3 by \<open>R1\<close> and \<open>R3\<close> and sends a write; coordinator 1 is elected
  with proposal 5 by \<open>R1\<close> and \<open>R2\<close>, and \<open>R2\<close> and \<open>R3\<close> accept and learn its write. The late write of
  coordinator 0 reaches \<open>R3\<close>, which has not promised 5 and overwrites the vote. A fill with proposal 6
  by \<open>R1\<close> and \<open>R3\<close> then finds the write of coordinator 0.
\<close>

lemma unordered_run:
  "\<exists>N A W B L. run False N A W B L \<and>
     N R1 = (5, 1, Some (learn (stored 6 6 ''a''))) \<and> N R2 = (5, 1, Some (learn (stored 5 5 ''b'')))"
proof -
  note run = run_init [of False]
  note run = run_implicit [OF run, where i = R1 and l = 0 and e = 0 and ko = None and n = 3 and c = 0, simplified]
  note run = run_implicit [OF run, where i = R3 and l = 0 and e = 0 and ko = None and n = 3 and c = 0, simplified]
  note run = run_coordinate [OF run, where i = R1 and j = R3 and c = 0 and n = 3 and bs = "''a''", simplified]
  note run = run_implicit [OF run, where i = R1 and l = 3 and e = 0 and ko = None and n = 5 and c = 1, simplified]
  note run = run_implicit [OF run, where i = R2 and l = 0 and e = 0 and ko = None and n = 5 and c = 1, simplified]
  note run = run_coordinate [OF run, where i = R1 and j = R2 and c = 1 and n = 5 and bs = "''b''", simplified]
  note run = run_write [OF run, where i = R2 and c = 1 and a = "stored 5 5 ''b''" and w = "append_request 5 ''b''"
    and l = 5 and e = 0 and ko = None and b = "stored 5 5 ''b''", simplified]
  note run = run_write [OF run, where i = R3 and c = 1 and a = "stored 5 5 ''b''" and w = "append_request 5 ''b''"
    and l = 3 and e = 0 and ko = None and b = "stored 3 5 ''b''", simplified]
  note run = run_write_learn [OF run, where i = R2 and j = R3 and c = 1 and l = 5 and n = 5 and bs = "''b''", simplified]
  note run = run_learned [OF run, where i = R2 and a = "learn (stored 5 5 ''b'')" and l = 5 and e = 1 and ko = "Some (stored 5 5 ''b'')", simplified]
  note run = run_write [OF run, where i = R3 and c = 0 and a = "stored 3 3 ''a''" and w = "append_request 3 ''a''"
    and l = 3 and e = 1 and ko = "Some (stored 3 5 ''b'')" and b = "stored 3 3 ''a''", simplified]
  note run = run_explicit [OF run, where i = R1 and l = 5 and e = 0 and ko = None and n = 6 and c = 2, simplified]
  note run = run_explicit [OF run, where i = R3 and l = 3 and e = 1 and ko = "Some (stored 3 3 ''a'')" and n = 6 and c = 2, simplified]
  note run = run_fill [OF run, where i = R1 and j = R3 and c = 2 and n = 6 and l = 3 and m = 3 and bs = "''a''", simplified]
  note run = run_write [OF run, where i = R1 and c = 2 and a = "stored 6 6 ''a''" and w = "append_request 6 ''a''"
    and l = 5 and e = 1 and ko = "Some (new_action 1 6)" and b = "stored 6 6 ''a''", simplified]
  note run = run_write [OF run, where i = R3 and c = 2 and a = "stored 6 6 ''a''" and w = "append_request 6 ''a''"
    and l = 3 and e = 1 and ko = "Some (stored 6 3 ''a'')" and b = "stored 6 6 ''a''", simplified]
  note run = run_write_learn [OF run, where i = R1 and j = R3 and c = 2 and l = 6 and n = 6 and bs = "''a''", simplified]
  note run = run_learned [OF run, where i = R1 and a = "learn (stored 6 6 ''a'')" and l = 5 and e = 1 and ko = "Some (stored 6 6 ''a'')", simplified]
  show ?thesis
    by (intro exI, rule conjI, rule run) simp
qed

subsection \<open>Properties\<close>





text \<open>
  Property C18. Without the condition on the order of requests the log loses a chosen value: with three
  replicas and quorums of two there is an execution in which two replicas have learned different
  values at the same position. The write handler accepts a proposal above the promise of the replica
  without raising the promise, so that a later write with a lower proposal overwrites the vote.
\<close>

theorem unordered_writes_disagree:
  "\<exists>(s :: (node, nat, ((string \<times> Rec) list, Rec) LevelDBStorage) log_system) x y.
     log_reachable LevelDBStorage_ops leveldb_valid leveldb_view False 2 1 s \<and>
     learned_at leveldb_view (nodes s R1) 1 x \<and> learned_at leveldb_view (nodes s R2) 1 y \<and> x \<noteq> y"
proof -
  obtain N A W B L where run: "run False N A W B L" and N: "N R1 = (5, 1, Some (learn (stored 6 6 ''a'')))"
    "N R2 = (5, 1, Some (learn (stored 5 5 ''b'')))"
    using unordered_run by blast
  show ?thesis
    using run_learned_at [OF run N(1) _ _ N(2)] by fastforce
qed

end
