(* ===== verification/Log_Reader.thy ===== *)
theory Log_Reader
  imports Log_Replica
begin

section \<open>Reading the log\<close>

text \<open>
  \<open>LogReaderProcess\<close> of \<open>src/log/log.cpp\<close>: what a client reads from its replica, on top of the ranged \<open>read\<close>
  of the replica. The local replica has recovered.
\<close>

text \<open>\<open>__read\<close>: \<open>p\<close> is the position that comes next.\<close>

fun reader_entries :: "u64 \<Rightarrow> Action list \<Rightarrow> (u64 \<times> string) list outcome" where
  "reader_entries p [] = Ok []"
| "reader_entries p (a # as) =
     (if performed a = None \<or> learned a = None \<or> learned a = Some False
      then Error ''Bad read range (includes pending entries)''
      else if p \<noteq> position a then Error ''Bad read range (includes missing entries)''
      else
        (case action_type a of
           None \<Rightarrow> Abort
         | Some ty \<Rightarrow>
             bind_outcome (reader_entries (p + 1) as) (\<lambda>es.
               Ok (if ty = APPEND
                   then (position a, case action_append a of None \<Rightarrow> [] | Some b \<Rightarrow> bytes b) # es
                   else es))))"

definition reader_read :: "'s storage_ops \<Rightarrow> 's replica \<Rightarrow> u64 \<Rightarrow> u64 \<Rightarrow> (u64 \<times> string) list outcome" where
  "reader_read ops r f t = bind_outcome (read_range ops r f t) (reader_entries f)"

subsection \<open>Consecutive positions\<close>

fun consecutive :: "u64 \<Rightarrow> u64 list \<Rightarrow> bool" where
  "consecutive p [] \<longleftrightarrow> True"
| "consecutive p (q # qs) \<longleftrightarrow> q = p \<and> consecutive (p + 1) qs"

lemma consecutive_upt: "consecutive (word_of_nat n) (map word_of_nat [n..<n + k])"
proof (induction k arbitrary: n)
  case (Suc k)
  have "[n..<n + Suc k] = n # [Suc n..<Suc n + k]"
    by (simp add: upt_conv_Cons)
  then show ?case
    using Suc [of "Suc n"] by (simp add: add.commute)
qed simp

lemma positions_consecutive: "f \<le> t \<Longrightarrow> consecutive f (positions f t)"
  using consecutive_upt [of "unat f" "Suc (unat t) - unat f"] by (simp add: positions_def word_le_nat_alt del: upt_Suc)

lemma positions_sorted: "sorted_wrt (<) (positions f t)"
proof -
  have "(word_of_nat i :: u64) < word_of_nat j" if "i < j" "j \<le> unat t" for i j
    unfolding word_less_nat_alt using that unat_word_of_nat_le [of i t] unat_word_of_nat_le [of j t] by simp
  then show ?thesis
    unfolding positions_def sorted_wrt_map by (intro sorted_wrt_mono_rel [OF _ sorted_wrt_upt]) (auto simp del: upt_Suc)
qed

subsection \<open>What is read\<close>

definition entry_at :: "('s \<Rightarrow> u64 \<Rightarrow> Action option) \<Rightarrow> 's replica \<Rightarrow> u64 \<Rightarrow> (u64 \<times> string) option" where
  "entry_at view r p =
     (case known view r p of
        Some a \<Rightarrow>
          if action_type a = Some APPEND then Some (p, case action_append a of None \<Rightarrow> [] | Some b \<Rightarrow> bytes b) else None
      | None \<Rightarrow> None)"

lemma map_filter_set: "y \<in> set (List.map_filter g xs) \<longleftrightarrow> (\<exists>x\<in>set xs. g x = Some y)"
  by (induction xs) (auto simp: List.map_filter_simps split: option.splits)

lemma reader_entries_Cons:
  assumes "reader_entries p (a # as) = Ok es"
  obtains es' where "is_learned a" "reader_entries (p + 1) as = Ok es'"
    "es = (if action_type a = Some APPEND
           then (position a, case action_append a of None \<Rightarrow> [] | Some b \<Rightarrow> bytes b) # es' else es')"
  using assms by (cases "reader_entries (p + 1) as") (auto simp: is_learned_def split: if_splits option.splits)

lemma reader_entries_prefix:
  assumes pos: "\<And>q a. known view r q = Some a \<Longrightarrow> position a = q"
  shows "consecutive p ps \<Longrightarrow> distinct ps \<Longrightarrow> reader_entries p (List.map_filter (known view r) ps) = Ok es \<Longrightarrow>
    \<exists>qs rs. ps = qs @ rs \<and> (\<forall>q\<in>set qs. \<exists>a. known view r q = Some a \<and> is_learned a) \<and>
      (\<forall>q\<in>set rs. known view r q = None) \<and> es = List.map_filter (entry_at view r) qs"
proof (induction ps arbitrary: p es)
  case Nil
  then show ?case
    by (intro exI [of _ "[]"]) (simp add: List.map_filter_simps)
next
  case (Cons q ps)
  show ?case
  proof (cases "known view r q")
    case None
    have nil: "List.map_filter (known view r) ps = []"
    proof (rule ccontr)
      assume "List.map_filter (known view r) ps \<noteq> []"
      then obtain a as where as: "List.map_filter (known view r) ps = a # as"
        by (auto simp: neq_Nil_conv)
      then have "a \<in> set (List.map_filter (known view r) ps)"
        by simp
      then have "position a \<noteq> p"
        using pos Cons.prems(1,2) by (auto simp: map_filter_set)
      then show False
        using Cons.prems(3) None as by (auto simp: List.map_filter_simps split: if_splits)
    qed
    then have "\<forall>x\<in>set ps. known view r x = None"
      by (induction ps) (auto simp: List.map_filter_simps split: option.splits)
    then show ?thesis
      using nil None Cons.prems(3)
      by (intro exI [of _ "[]"] exI [of _ "q # ps"]) (simp add: List.map_filter_simps)
  next
    case (Some a)
    have "q = p" "position a = p"
      using Cons.prems(1) pos [OF Some] by simp_all
    have read: "reader_entries p (a # List.map_filter (known view r) ps) = Ok es"
      using Cons.prems(3) Some by (simp add: List.map_filter_simps)
    obtain es' where a: "is_learned a" "reader_entries (p + 1) (List.map_filter (known view r) ps) = Ok es'"
      "es = (if action_type a = Some APPEND
             then (position a, case action_append a of None \<Rightarrow> [] | Some b \<Rightarrow> bytes b) # es' else es')"
      by (rule reader_entries_Cons [OF read])
    have es: "es = (case entry_at view r q of Some e \<Rightarrow> e # es' | None \<Rightarrow> es')"
      using a(3) Some \<open>q = p\<close> \<open>position a = p\<close> by (simp add: entry_at_def)
    obtain qs rs where "ps = qs @ rs" "\<forall>q\<in>set qs. \<exists>a. known view r q = Some a \<and> is_learned a"
      "\<forall>q\<in>set rs. known view r q = None" "es' = List.map_filter (entry_at view r) qs"
      using Cons.IH [OF _ _ a(2)] Cons.prems(1,2) by auto
    then show ?thesis
      using a(1) es Some by (intro exI [of _ "q # qs"] exI [of _ rs]) (simp add: List.map_filter_simps split: option.splits)
  qed
qed

lemma map_filter_sorted:
  assumes "\<And>p e. g p = Some e \<Longrightarrow> fst e = p"
  shows "sorted_wrt (<) (ps :: u64 list) \<Longrightarrow> sorted_wrt (<) (map fst (List.map_filter g ps))"
proof (induction ps)
  case (Cons p ps)
  have "\<forall>e\<in>set (List.map_filter g ps). p < fst e"
  proof
    fix e assume "e \<in> set (List.map_filter g ps)"
    then obtain x where "x \<in> set ps" "g x = Some e"
      unfolding map_filter_set by blast
    then show "p < fst e"
      using Cons.prems assms [of x e] by auto
  qed
  then show ?case
    using Cons assms by (cases "g p") (auto simp: List.map_filter_simps)
qed (simp add: List.map_filter_simps)

definition sample_append :: Action where
  "sample_append =
     \<lparr>position = 0, promised = 1, performed = Some 1, learned = Some True, action_type = Some APPEND,
      action_nop = None, action_append = Some \<lparr>bytes = ''x'', cksum = None\<rparr>, action_truncate = None\<rparr>"

lemma sample_replica:
  obtains r where "persist LevelDBStorage_ops fresh_replica sample_append = Ok (True, r)" "ldb_inv r" "log_begin r = 0"
    "log_end r = 0" "known leveldb_view r 0 = Some sample_append"
proof -
  have "\<exists>s. st_persist_action LevelDBStorage_ops sample_append (storage fresh_replica) = (Ok (), s)"
    by (simp add: LevelDBStorage_ops_simps mem_eval sample_append_def is_truncate_def is_tombstone_def is_learned_def
        min_option_def fresh_replica_def)
  then have ok: "\<exists>r. persist LevelDBStorage_ops fresh_replica sample_append = Ok (True, r)"
    by (auto simp: persist_def)
  have wf: "wf_action sample_append" "is_learned sample_append"
    by (simp_all add: wf_action_def sample_append_def is_truncate_def is_learned_def)
  show thesis
  proof (rule ldb.persist_cases [OF fresh_inv wf(1) wf(2)])
    fix r
    assume r: "persist LevelDBStorage_ops fresh_replica sample_append = Ok (True, r)" "ldb_inv r"
      "log_begin r = max (log_begin fresh_replica) (truncation sample_append)"
      "log_end r = max (log_end fresh_replica) (position sample_append)"
      "\<forall>p. log_begin r \<le> p \<longrightarrow>
         known leveldb_view r p = (if p = position sample_append then Some sample_append else known leveldb_view fresh_replica p)"
    then have "log_begin r = 0" "log_end r = 0"
      by (simp_all add: fresh_replica_def truncation_def sample_append_def is_truncate_def is_tombstone_def)
    moreover have "position sample_append = 0"
      by (simp add: sample_append_def)
    ultimately show thesis
      using r(1,2) spec [OF r(5), of 0] by (intro that) simp_all
  qed (use ok in auto)
qed

text \<open>
  Property C26. A range whose last position the replica knows is read completely: reading succeeds only if all its
  positions are learned, and returns the appended entries at exactly their positions, in order.
\<close>

theorem reader_read_complete:
  assumes r: "ldb_inv r" "log_begin r \<le> f" "f \<le> t" "t \<le> log_end r" and t: "known leveldb_view r t \<noteq> None"
    and es: "reader_read LevelDBStorage_ops r f t = Ok es"
  shows "(\<forall>p. f \<le> p \<longrightarrow> p \<le> t \<longrightarrow> (\<exists>a. known leveldb_view r p = Some a \<and> is_learned a)) \<and>
    es = List.map_filter (entry_at leveldb_view r) (positions f t) \<and> sorted_wrt (<) (map fst es)"
proof -
  have pos: "position a = q" if "known leveldb_view r q = Some a" for q a
    using that r(1) ldb.view_position by (auto simp: known_def replica_inv_def split: if_splits)
  have sorted: "sorted_wrt (<) (positions f t)" and distinct: "distinct (positions f t)"
    using positions_sorted strict_sorted_iff by blast+
  have "reader_entries f (List.map_filter (known leveldb_view r) (positions f t)) = Ok es"
    using es ldb.read_range_known [OF r] by (simp add: reader_read_def)
  then obtain qs rs where q: "positions f t = qs @ rs" "\<forall>q\<in>set qs. \<exists>a. known leveldb_view r q = Some a \<and> is_learned a"
    "\<forall>q\<in>set rs. known leveldb_view r q = None" "es = List.map_filter (entry_at leveldb_view r) qs"
    using reader_entries_prefix [OF pos positions_consecutive [OF r(3)] distinct] by blast
  have "t \<in> set qs"
    using q(1,3) t set_positions [of t f t] r(3) by auto
  then have "t < x \<and> x \<le> t" if "x \<in> set rs" for x
    using that sorted q(1) set_positions [of x f t] by (auto simp: sorted_wrt_append)
  then have "rs = []"
    by (cases rs) force+
  moreover have "fst e = p" if "entry_at leveldb_view r p = Some e" for p e
    using that by (auto simp: entry_at_def split: option.splits if_splits)
  ultimately show ?thesis
    using q sorted map_filter_sorted [of "entry_at leveldb_view r" qs] set_positions [of _ f t] by auto
qed

theorem reader_read_complete_witness:
  "\<exists>r es. persist LevelDBStorage_ops fresh_replica sample_append = Ok (True, r) \<and>
     reader_read LevelDBStorage_ops r 0 0 = Ok es \<and> es = [(0, ''x'')] \<and> sorted_wrt (<) (map fst es)"
proof -
  obtain r where r: "persist LevelDBStorage_ops fresh_replica sample_append = Ok (True, r)" "ldb_inv r" "log_begin r = 0"
    "log_end r = 0" "known leveldb_view r 0 = Some sample_append"
    by (rule sample_replica)
  have p: "positions 0 0 = [0]"
    by (simp add: positions_def)
  have b: "log_begin r \<le> 0" "(0 :: u64) \<le> 0" "0 \<le> log_end r" "known leveldb_view r 0 \<noteq> None"
    using r by simp_all
  have "\<exists>es. reader_read LevelDBStorage_ops r 0 0 = Ok es"
    using ldb.read_range_known [OF r(2) b(1-3)] r(5) by (simp add: reader_read_def p List.map_filter_simps sample_append_def)
  then obtain es where es: "reader_read LevelDBStorage_ops r 0 0 = Ok es" ..
  show ?thesis
    using reader_read_complete [OF r(2) b es] r(1,5) es
    by (auto simp: p List.map_filter_simps entry_at_def sample_append_def)
qed

text \<open>
  Missing positions at the end of the range go unnoticed, although the code has a message for
  ranges that include missing entries.
\<close>

theorem reader_ignores_missing:
  "reader_read LevelDBStorage_ops fresh_replica 0 0 = Ok [] \<and> missing fresh_replica 0"
proof -
  have "read_range LevelDBStorage_ops fresh_replica 0 0 = Ok (List.map_filter (known leveldb_view fresh_replica) (positions 0 0))"
    by (rule ldb.read_range_known [OF fresh_inv]) (simp_all add: fresh_replica_def)
  then have "reader_read LevelDBStorage_ops fresh_replica 0 0 = Ok []"
    by (simp add: reader_read_def fresh_known positions_def List.map_filter_simps)
  moreover have "missing fresh_replica 0"
    by (simp add: missing_def fresh_replica_def)
  ultimately show ?thesis
    by simp
qed


end
