(* ===== verification/Protobuf_File.thy ===== *)
theory Protobuf_File
  imports Mesos_Prelude
begin

section \<open>Files of protobuf messages\<close>

text \<open>
  \<open>protobuf::write\<close> and \<open>protobuf::read\<close> of \<open>3rdparty/stout/include/stout/protobuf.hpp\<close>: a message is
  written as its size in four bytes, little endian, followed by its bytes. A file is the string of its
  bytes. Serialization is a parameter. A write can fail after any number of bytes, a read with any
  error; both are parameters of the operations. Messages are initialized, and seeking back to a saved
  offset does not fail.
\<close>

definition le_bytes :: "32 word \<Rightarrow> string" where
  "le_bytes w = map (\<lambda>i. char_of (unat w div 256 ^ i)) [0..<4]"

definition le_word :: "string \<Rightarrow> 32 word" where
  "le_word bs = word_of_nat (\<Sum>i<length bs. of_char (bs ! i) * 256 ^ i)"

definition frame :: "string \<Rightarrow> string" where
  "frame d = le_bytes (word_of_nat (length d)) @ d"

text \<open>The result of the write and the content of the file after it, which is appended to.\<close>

definition pb_write :: "(nat \<times> string) option \<Rightarrow> string \<Rightarrow> string \<Rightarrow> unit outcome \<times> string" where
  "pb_write fault d content =
     (case fault of
        None \<Rightarrow> (Ok (), content @ frame d)
      | Some (k, e) \<Rightarrow>
          (Error (if k < 4 then ''Failed to write size: '' @ e else ''Failed to write/serialize message''),
           content @ take k (frame d)))"

text \<open>\<open>os::read(fd, size)\<close>: none at the end of the file, and fewer bytes when it ends early.\<close>

definition os_read :: "(nat \<Rightarrow> string option) \<Rightarrow> string \<Rightarrow> nat \<Rightarrow> nat \<Rightarrow> string option outcome" where
  "os_read rd content off n =
     (if n = 0 then Ok (Some [])
      else
        (case rd off of
           Some e \<Rightarrow> Error e
         | None \<Rightarrow>
             (let d = take n (drop off content) in Ok (if d = [] then None else Some d))))"

definition max_int :: nat where
  "max_int = 2 ^ 31 - 1"

text \<open>The result of the read and the offset of the file descriptor after it.\<close>

definition pb_read ::
  "(string \<Rightarrow> 'r option) \<Rightarrow> (nat \<Rightarrow> string option) \<Rightarrow> string \<Rightarrow> bool \<Rightarrow> bool \<Rightarrow> nat \<Rightarrow>
   'r option outcome \<times> nat" where
  "pb_read parse rd content ignorePartial undoFailed off =
     (let failed = (\<lambda>n. if undoFailed then off else off + n) in
      case os_read rd content off 4 of
        Abort \<Rightarrow> (Abort, off)
      | Error e \<Rightarrow> (Error (''Failed to read size: '' @ e), failed 0)
      | Ok None \<Rightarrow> (Ok None, off)
      | Ok (Some b) \<Rightarrow>
          if length b < 4 then
            (if ignorePartial then Ok None
             else Error ''Failed to read size: hit EOF unexpectedly, possible corruption'',
             failed (length b))
          else
            (let size = unat (le_word b) in
             case os_read rd content (off + 4) size of
               Abort \<Rightarrow> (Abort, off)
             | Error e \<Rightarrow> (Error (''Failed to read message: '' @ e), failed 4)
             | Ok r \<Rightarrow>
                 (let d = (case r of None \<Rightarrow> [] | Some d \<Rightarrow> d) in
                  if r = None \<or> length d < size then
                    (if ignorePartial then Ok None
                     else Error ''Failed to read message: hit EOF unexpectedly, possible corruption'',
                     failed (4 + length d))
                  else if max_int < length d then (Abort, off)
                  else
                    (case parse d of
                       None \<Rightarrow> (Error ''Failed to deserialize message'', failed (4 + size))
                     | Some x \<Rightarrow> (Ok (Some x), off + 4 + size)))))"

subsection \<open>Frames\<close>

lemma length_le_bytes [simp]: "length (le_bytes w) = 4"
  by (simp add: le_bytes_def)

lemma le_bytes_nonempty [simp]: "le_bytes w \<noteq> []"
  using length_le_bytes [of w] by fastforce

lemma length_frame [simp]: "length (frame d) = 4 + length d"
  by (simp add: frame_def)

lemma sum_digits: "(\<Sum>i<k. (n div 256 ^ i mod 256) * 256 ^ i) = n mod (256 ^ k :: nat)"
proof (induction k)
  case (Suc k)
  have "n mod 256 ^ Suc k = 256 ^ k * (n div 256 ^ k mod 256) + n mod 256 ^ k"
    by (simp only: power_Suc2 mod_mult2_eq)
  with Suc show ?case
    by (simp add: mult.commute)
qed simp

lemma le_word_bytes [simp]: "le_word (le_bytes w) = w"
proof -
  define n where "n = unat w"
  have n: "n < 256 ^ 4"
    using unsigned_less [of w] by (simp add: n_def)
  have "(\<Sum>i<4. (n div 256 ^ i mod 256) * 256 ^ i) = n"
    using n unfolding sum_digits by simp
  moreover have "le_word (le_bytes w) = word_of_nat (\<Sum>i<4. (n div 256 ^ i mod 256) * 256 ^ i)"
    by (simp add: le_word_def le_bytes_def n_def)
  ultimately show ?thesis
    by (simp add: n_def)
qed

lemma os_read_append:
  assumes "rd (length c) = None" and "n \<noteq> 0" and "n \<le> length d"
  shows "os_read rd (c @ d @ e) (length c) n = Ok (Some (take n d))"
proof -
  have "take n d \<noteq> []"
    using assms by auto
  then show ?thesis
    using assms by (simp add: os_read_def Let_def)
qed

text \<open>A frame that was written completely is read back, and the offset moves behind it.\<close>

lemma pb_read_frame:
  assumes rd: "rd = (\<lambda>_. None)" and d: "length d \<le> max_int" and p: "parse d = Some x"
  shows "pb_read parse rd (c @ frame d @ e) ip uf (length c) = (Ok (Some x), length c + 4 + length d)"
proof -
  have size: "unat (word_of_nat (length d) :: 32 word) = length d"
    using d by (simp add: unat_of_nat max_int_def)
  have 1: "os_read rd (c @ frame d @ e) (length c) 4 = Ok (Some (le_bytes (word_of_nat (length d))))"
    using os_read_append [of rd c 4 "le_bytes (word_of_nat (length d))" "d @ e"] rd by (simp add: frame_def)
  have 2: "os_read rd (c @ frame d @ e) (length c + 4) (length d) = Ok (Some d)"
    using os_read_append [of rd "c @ le_bytes (word_of_nat (length d))" "length d" d e] rd
    by (cases "d = []") (simp_all add: frame_def os_read_def)
  show ?thesis
    using 1 2 p d by (simp add: pb_read_def Let_def size leD)
qed

text \<open>A frame that was written in part is not read, and the offset stays before it.\<close>

lemma pb_read_partial:
  assumes rd: "rd = (\<lambda>_. None)" and d: "length d < 2 ^ 32" and k: "k < length (frame d)"
  shows "pb_read parse rd (c @ take k (frame d)) True True (length c) = (Ok None, length c)"
proof (cases "k < 4")
  case True
  have "os_read rd (c @ take k (frame d)) (length c) 4 =
      Ok (if k = 0 then None else Some (take k (frame d)))"
    using True k rd by (cases "k = 0") (simp_all add: os_read_def Let_def frame_def)
  then show ?thesis
    using True k by (auto simp: pb_read_def Let_def)
next
  case False
  define b where "b = le_bytes (word_of_nat (length d))"
  define d' where "d' = take (k - 4) d"
  have f: "take k (frame d) = b @ d'" and "length d' < length d"
    using False k by (simp_all add: frame_def b_def d'_def)
  have size: "unat (le_word b) = length d"
    using d by (simp add: b_def unat_of_nat)
  have 1: "os_read rd (c @ b @ d') (length c) 4 = Ok (Some b)"
    using os_read_append [of rd c 4 b d'] rd by (simp add: b_def)
  have 2: "os_read rd (c @ b @ d') (length c + 4) (length d) = Ok (if d' = [] then None else Some d')"
    using rd \<open>length d' < length d\<close> by (auto simp: os_read_def Let_def b_def)
  show ?thesis
    using 1 2 \<open>length d' < length d\<close> by (simp add: pb_read_def Let_def f size)
qed

lemma pb_read_end:
  "rd = (\<lambda>_. None) \<Longrightarrow> pb_read parse rd c True True (length c) = (Ok None, length c)"
  by (simp add: pb_read_def os_read_def Let_def)

text \<open>A read that succeeds moves the offset forward, within the file.\<close>

lemma pb_read_advances:
  "pb_read parse rd content ip uf off = (Ok (Some x), off') \<Longrightarrow> off < off' \<and> off' \<le> length content"
  by (auto simp: pb_read_def os_read_def Let_def split: outcome.splits option.splits if_splits)

end
