(* ===== verification/Stout_Uuid.thy ===== *)
theory Stout_Uuid
  imports Mesos_Prelude
begin

section \<open>UUIDs\<close>

text \<open>
  \<open>id::UUID::fromBytes\<close> of \<open>3rdparty/stout/include/stout/uuid.hpp\<close>. A UUID is the string of its bytes;
  whether boost knows its version is a parameter.
\<close>

definition fromBytes :: "(string \<Rightarrow> bool) \<Rightarrow> string \<Rightarrow> string outcome" where
  "fromBytes version s =
     (if length s \<noteq> 16 then Error ''Not a valid UUID''
      else if \<not> version s then Error ''Not a valid UUID'' else Ok s)"

text \<open>\<open>fromBytes(...).get()\<close> and \<open>CHECK_SOME\<close>: an invalid UUID stops the process.\<close>

definition uuid_get :: "(string \<Rightarrow> bool) \<Rightarrow> string \<Rightarrow> string outcome" where
  "uuid_get version s = (case fromBytes version s of Ok x \<Rightarrow> Ok x | _ \<Rightarrow> Abort)"

lemma uuid_get_Ok: "uuid_get version s = Ok x \<longleftrightarrow> length s = 16 \<and> version s \<and> x = s"
  by (auto simp: uuid_get_def fromBytes_def)

end
