(* ===== verification/Status_Stream.thy ===== *)
theory Status_Stream
  imports Protobuf_File Stout_Uuid
begin

section \<open>Status update streams\<close>

text \<open>
  \<open>StatusUpdateStream\<close> of \<open>src/status_update_manager/status_update_manager_process.hpp\<close> with the types of
  \<open>OperationStatusUpdateManager\<close>: the updates of one stream are queued, acknowledged in order, and,
  when the stream is checkpointed, written to a file that is replayed after a restart. The fields of the
  messages that are only copied are left out, and error messages are shortened.
\<close>

datatype OperationState =
    OPERATION_UNSUPPORTED | OPERATION_PENDING | OPERATION_FINISHED | OPERATION_FAILED
  | OPERATION_ERROR | OPERATION_DROPPED | OPERATION_UNREACHABLE | OPERATION_GONE_BY_OPERATOR
  | OPERATION_RECOVERING | OPERATION_UNKNOWN

fun isTerminalState :: "OperationState \<Rightarrow> bool" where
  "isTerminalState OPERATION_DROPPED = True"
| "isTerminalState OPERATION_ERROR = True"
| "isTerminalState OPERATION_FAILED = True"
| "isTerminalState OPERATION_FINISHED = True"
| "isTerminalState OPERATION_GONE_BY_OPERATOR = True"
| "isTerminalState _ = False"

record OperationStatus =
  os_state :: OperationState
  os_message :: "string option"
  os_uuid :: "string option"

record Update =
  um_framework_id :: "string option"
  um_status :: OperationStatus
  um_latest_status :: "OperationStatus option"

datatype RecordType = UPDATE | ACK

record CheckpointRecord =
  rc_type :: RecordType
  rc_update :: "Update option"
  rc_uuid :: "string option"

text \<open>The message that an unset field reads as.\<close>

definition default_update :: Update where
  "default_update =
     \<lparr>um_framework_id = None,
      um_status = \<lparr>os_state = OPERATION_UNSUPPORTED, os_message = None, os_uuid = None\<rparr>,
      um_latest_status = None\<rparr>"

text \<open>
  What the code does not define: the paths of the streams, whether \<open>boost\<close> knows the version of a UUID,
  and the serialization of records.
\<close>

record 'id env =
  getPath :: "'id \<Rightarrow> string"
  uuid_version :: "string \<Rightarrow> bool"
  serialize :: "CheckpointRecord \<Rightarrow> string"
  parse :: "string \<Rightarrow> CheckpointRecord option"

definition env_ok :: "'id env \<Rightarrow> bool" where
  "env_ok E \<longleftrightarrow>
     inj (getPath E) \<and> (\<forall>r. parse E (serialize E r) = Some r)"

text \<open>Records that protobuf can serialize and parse: those within the limit of an \<open>int\<close>.\<close>

definition fits :: "'id env \<Rightarrow> CheckpointRecord \<Rightarrow> bool" where
  "fits E r \<longleftrightarrow> length (serialize E r) \<le> max_int"

text \<open>\<open>update.status().uuid().value()\<close>, and the \<open>CHECK_SOME\<close> of its conversion.\<close>

definition update_uuid :: "'id env \<Rightarrow> Update \<Rightarrow> string outcome" where
  "update_uuid E u =
     uuid_get (uuid_version E) (case os_uuid (um_status u) of None \<Rightarrow> [] | Some b \<Rightarrow> b)"

text \<open>The results of the calls to the operating system; \<open>None\<close> is success.\<close>

record io =
  io_mkdir :: "string option"
  io_open :: "string option"
  io_write :: "(nat \<times> string) option"
  io_dir_exists :: bool
  io_read :: "nat \<Rightarrow> string option"
  io_lseek :: "string option"
  io_ftruncate :: "string option"
  io_rm :: "string option"

record stream =
  st_terminated :: bool
  st_frameworkId :: "string option"
  st_timeout :: "nat option"
  st_pending :: "Update list"
  st_path :: "string option"
  st_received :: "string set"
  st_acknowledged :: "string set"
  st_error :: "string option"

definition new_stream :: "string option \<Rightarrow> stream" where
  "new_stream path =
     \<lparr>st_terminated = False, st_frameworkId = None, st_timeout = None, st_pending = [],
      st_path = path, st_received = {}, st_acknowledged = {}, st_error = None\<rparr>"

definition checkpointed :: "stream \<Rightarrow> bool" where
  "checkpointed s \<longleftrightarrow> st_path s \<noteq> None"

type_synonym files = "string \<rightharpoonup> string"

definition create ::
  "io \<Rightarrow> string option \<Rightarrow> string option \<Rightarrow> files \<Rightarrow> stream outcome \<times> files" where
  "create io frameworkId path fs =
     (case path of
        None \<Rightarrow> (Ok ((new_stream None)\<lparr>st_frameworkId := frameworkId\<rparr>), fs)
      | Some f \<Rightarrow>
          if fs f \<noteq> None then (Error (''The file '' @ f @ '' already exists''), fs)
          else
            (case io_mkdir io of
               Some e \<Rightarrow> (Error (''Failed to create '' @ f @ '': '' @ e), fs)
             | None \<Rightarrow>
                 (case io_open io of
                    Some e \<Rightarrow> (Error (''Failed to open '' @ f @ '' : '' @ e), fs)
                  | None \<Rightarrow>
                      (Ok ((new_stream (Some f))\<lparr>st_frameworkId := frameworkId\<rparr>), fs(f \<mapsto> [])))))"

definition stream_next :: "stream \<Rightarrow> Update option outcome" where
  "stream_next s =
     (case st_error s of
        Some e \<Rightarrow> Error e
      | None \<Rightarrow> Ok (case st_pending s of [] \<Rightarrow> None | u # us \<Rightarrow> Some u))"

text \<open>\<open>_handle\<close>.\<close>

definition apply_record :: "'id env \<Rightarrow> Update \<Rightarrow> RecordType \<Rightarrow> stream \<Rightarrow> stream outcome" where
  "apply_record E u t s =
     (if st_error s \<noteq> None then Abort
      else
        (case update_uuid E u of
           Ok x \<Rightarrow>
             (case t of
                UPDATE \<Rightarrow>
                  Ok (s\<lparr>st_frameworkId :=
                          (case um_framework_id u of None \<Rightarrow> st_frameworkId s | Some f \<Rightarrow> Some f),
                        st_received := insert x (st_received s), st_pending := st_pending s @ [u]\<rparr>)
              | ACK \<Rightarrow>
                  Ok (s\<lparr>st_acknowledged := insert x (st_acknowledged s), st_pending := tl (st_pending s),
                        st_terminated := (st_terminated s \<or> isTerminalState (os_state (um_status u)))\<rparr>))
         | _ \<Rightarrow> Abort))"

definition checkpoint_record :: "Update \<Rightarrow> RecordType \<Rightarrow> CheckpointRecord" where
  "checkpoint_record u t =
     (case t of
        UPDATE \<Rightarrow> \<lparr>rc_type = UPDATE, rc_update = Some u, rc_uuid = None\<rparr>
      | ACK \<Rightarrow> \<lparr>rc_type = ACK, rc_update = None, rc_uuid = os_uuid (um_status u)\<rparr>)"

definition handle ::
  "'id env \<Rightarrow> io \<Rightarrow> Update \<Rightarrow> RecordType \<Rightarrow> stream \<Rightarrow> files \<Rightarrow> unit outcome \<times> stream \<times> files" where
  "handle E io u t s fs =
     (if st_error s \<noteq> None then (Abort, s, fs)
      else
        (let go = (\<lambda>fs. case apply_record E u t s of Ok s \<Rightarrow> (Ok (), s, fs) | _ \<Rightarrow> (Abort, s, fs)) in
         case st_path s of
           None \<Rightarrow> go fs
         | Some f \<Rightarrow>
             (case pb_write (io_write io) (serialize E (checkpoint_record u t))
                     (case fs f of None \<Rightarrow> [] | Some c \<Rightarrow> c) of
                (Ok _, c) \<Rightarrow> go (fs(f \<mapsto> c))
              | (Error e, c) \<Rightarrow>
                  (let err = ''Failed to write to file '' @ f @ '': '' @ e in
                   (Error err, s\<lparr>st_error := Some err\<rparr>, fs(f \<mapsto> c)))
              | (Abort, c) \<Rightarrow> (Abort, s, fs))))"

definition stream_update ::
  "'id env \<Rightarrow> io \<Rightarrow> Update \<Rightarrow> stream \<Rightarrow> files \<Rightarrow> bool outcome \<times> stream \<times> files" where
  "stream_update E io u s fs =
     (case st_error s of
        Some e \<Rightarrow> (Error e, s, fs)
      | None \<Rightarrow>
          if os_uuid (um_status u) = None then (Error ''Status update is missing uuid'', s, fs)
          else
            (case update_uuid E u of
               Ok x \<Rightarrow>
                 if x \<in> st_acknowledged s then (Ok False, s, fs)
                 else if x \<in> st_received s then (Ok False, s, fs)
                 else
                   (case handle E io u UPDATE s fs of
                      (Ok _, s, fs) \<Rightarrow> (Ok True, s, fs)
                    | (Error e, s, fs) \<Rightarrow> (Error e, s, fs)
                    | (Abort, s, fs) \<Rightarrow> (Abort, s, fs))
             | _ \<Rightarrow> (Abort, s, fs)))"

definition stream_acknowledgement ::
  "'id env \<Rightarrow> io \<Rightarrow> string \<Rightarrow> stream \<Rightarrow> files \<Rightarrow> bool outcome \<times> stream \<times> files" where
  "stream_acknowledgement E io uuid s fs =
     (case stream_next s of
        Abort \<Rightarrow> (Abort, s, fs)
      | Error e \<Rightarrow> (Error e, s, fs)
      | Ok None \<Rightarrow> (Error ''Unexpected acknowledgment'', s, fs)
      | Ok (Some u) \<Rightarrow>
          if uuid \<in> st_acknowledged s then (Ok False, s, fs)
          else
            (case update_uuid E u of
               Ok x \<Rightarrow>
                 if uuid \<noteq> x then (Ok False, s, fs)
                 else
                   (case handle E io u ACK s fs of
                      (Ok _, s, fs) \<Rightarrow> (Ok True, s, fs)
                    | (Error e, s, fs) \<Rightarrow> (Error e, s, fs)
                    | (Abort, s, fs) \<Rightarrow> (Abort, s, fs))
             | _ \<Rightarrow> (Abort, s, fs)))"

subsection \<open>Replaying a file\<close>

text \<open>
  The loop of \<open>recover\<close>: the stream, the updates read, the error that ended the loop, if any, and the
  offset behind the last record.
\<close>

function replay ::
  "'id env \<Rightarrow> (nat \<Rightarrow> string option) \<Rightarrow> string \<Rightarrow> nat \<Rightarrow> stream \<Rightarrow> Update list \<Rightarrow>
   (stream \<times> Update list \<times> string option \<times> nat) outcome" where
  "replay E rd content off s us =
     (case pb_read (parse E) rd content True True off of
        (Abort, off') \<Rightarrow> Abort
      | (Error e, off') \<Rightarrow> Ok (s, us, Some e, off')
      | (Ok None, off') \<Rightarrow> Ok (s, us, None, off')
      | (Ok (Some r), off') \<Rightarrow>
          (case rc_type r of
             ACK \<Rightarrow>
               (case stream_next s of
                  Abort \<Rightarrow> Abort
                | Error e \<Rightarrow> Error e
                | Ok None \<Rightarrow> Error ''Unexpected acknowledgment''
                | Ok (Some u) \<Rightarrow>
                    (case apply_record E u ACK s of
                       Ok s \<Rightarrow> replay E rd content off' s us
                     | Error e \<Rightarrow> Error e
                     | Abort \<Rightarrow> Abort))
           | UPDATE \<Rightarrow>
               (let u = (case rc_update r of None \<Rightarrow> default_update | Some u \<Rightarrow> u) in
                case apply_record E u UPDATE s of
                  Ok s \<Rightarrow> replay E rd content off' s (us @ [u])
                | Error e \<Rightarrow> Error e
                | Abort \<Rightarrow> Abort)))"
  by pat_completeness auto

termination
  by (relation "measure (\<lambda>(E, rd, content, off, s, us). length content - off)")
    (auto dest!: pb_read_advances [OF sym])

declare replay.simps [simp del]

record StreamState =
  ss_updates :: "Update list"
  ss_error :: bool
  ss_terminated :: bool

text \<open>
  \<open>recover\<close>: the file is truncated to the records that were read. A file without updates is removed.
\<close>

definition stream_recover ::
  "'id env \<Rightarrow> io \<Rightarrow> string \<Rightarrow> bool \<Rightarrow> files \<Rightarrow> (stream \<times> StreamState) option outcome \<times> files" where
  "stream_recover E io path strict fs =
     (if io_dir_exists io \<and> fs path = None then (Ok None, fs)
      else
        (case fs path of
           None \<Rightarrow> (Error (''Failed to open '' @ path), fs)
         | Some content \<Rightarrow>
             (case io_open io of
                Some e \<Rightarrow> (Error (''Failed to open '' @ path @ '': '' @ e), fs)
              | None \<Rightarrow>
                  (case replay E (io_read io) content 0 (new_stream (Some path)) [] of
                     Abort \<Rightarrow> (Abort, fs)
                   | Error e \<Rightarrow> (Error e, fs)
                   | Ok (s, us, err, off) \<Rightarrow>
                       (case io_lseek io of
                          Some e \<Rightarrow> (Error (''Failed to lseek file '' @ path @ '': '' @ e), fs)
                        | None \<Rightarrow>
                            (case io_ftruncate io of
                               Some e \<Rightarrow> (Error (''Failed to truncate file '' @ path @ '': '' @ e), fs)
                             | None \<Rightarrow>
                                 (let fs = fs(path \<mapsto> take off content) in
                                  if err \<noteq> None \<and> strict
                                  then (Error (''Failed to read file '' @ path @ '': '' @ the err), fs)
                                  else if us = [] then
                                    (case io_rm io of
                                       Some e \<Rightarrow> (Error (''Failed to remove file '' @ path @ '': '' @ e), fs)
                                     | None \<Rightarrow> (Ok None, fs(path := None)))
                                  else
                                    (Ok (Some (s, \<lparr>ss_updates = us, ss_error = (err \<noteq> None),
                                                   ss_terminated = st_terminated s\<rparr>)), fs))))))))"

subsection \<open>Records and their replay\<close>

text \<open>The file of a stream as a list of records, and what the records do to a stream.\<close>

definition frames :: "'id env \<Rightarrow> CheckpointRecord list \<Rightarrow> string" where
  "frames E rs = concat (map (\<lambda>r. frame (serialize E r)) rs)"

lemma frames_simps [simp]:
  "frames E [] = []" "frames E (r # rs) = frame (serialize E r) @ frames E rs"
  "frames E (rs @ qs) = frames E rs @ frames E qs"
  by (simp_all add: frames_def)

definition record_update :: "CheckpointRecord \<Rightarrow> Update" where
  "record_update r = (case rc_update r of None \<Rightarrow> default_update | Some u \<Rightarrow> u)"

definition record_step :: "'id env \<Rightarrow> CheckpointRecord \<Rightarrow> stream \<Rightarrow> stream outcome" where
  "record_step E r s =
     (case rc_type r of
        ACK \<Rightarrow>
          bind_outcome (stream_next s) (\<lambda>uo.
            case uo of
              None \<Rightarrow> Error ''Unexpected acknowledgment''
            | Some u \<Rightarrow> apply_record E u ACK s)
      | UPDATE \<Rightarrow> apply_record E (record_update r) UPDATE s)"

fun apply_all :: "'id env \<Rightarrow> CheckpointRecord list \<Rightarrow> stream \<Rightarrow> stream outcome" where
  "apply_all E [] s = Ok s"
| "apply_all E (r # rs) s = bind_outcome (record_step E r s) (apply_all E rs)"

definition record_updates :: "CheckpointRecord list \<Rightarrow> Update list" where
  "record_updates rs = map record_update (filter (\<lambda>r. rc_type r = UPDATE) rs)"

lemma record_updates_simps [simp]:
  "record_updates [] = []"
  "record_updates (r # rs) = (if rc_type r = UPDATE then [record_update r] else []) @ record_updates rs"
  "record_updates (rs @ qs) = record_updates rs @ record_updates qs"
  by (simp_all add: record_updates_def)

lemma bind_outcome_Ok: "bind_outcome x f = Ok y \<longleftrightarrow> (\<exists>z. x = Ok z \<and> f z = Ok y)"
  by (cases x) simp_all

lemma apply_all_append:
  "apply_all E (rs @ qs) s = bind_outcome (apply_all E rs s) (apply_all E qs)"
proof (induction rs arbitrary: s)
  case (Cons r rs)
  then show ?case
    by (cases "record_step E r s") simp_all
qed simp

lemma replay_record:
  assumes "pb_read (parse E) rd content True True off = (Ok (Some r), off')" and "record_step E r s = Ok s'"
  shows "replay E rd content off s us =
    replay E rd content off' s' (if rc_type r = UPDATE then us @ [record_update r] else us)"
proof (cases "rc_type r")
  case UPDATE
  then show ?thesis
    using assms by (subst replay.simps) (simp add: record_step_def record_update_def)
next
  case ACK
  then obtain u where "stream_next s = Ok (Some u)" "apply_record E u ACK s = Ok s'"
    using assms(2) by (auto simp: record_step_def bind_outcome_Ok split: option.splits)
  then show ?thesis
    using assms ACK by (subst replay.simps) simp
qed

lemma replay_frames:
  assumes E: "env_ok E" and "\<forall>r\<in>set rs. fits E r" and "apply_all E rs s = Ok s'" and content: "content = c @ frames E rs @ tail"
    and stop: "pb_read (parse E) (\<lambda>_. None) content True True (length (c @ frames E rs)) =
      (Ok None, length (c @ frames E rs))"
  shows "replay E (\<lambda>_. None) content (length c) s us =
    Ok (s', us @ record_updates rs, None, length (c @ frames E rs))"
  using assms
proof (induction rs arbitrary: c s us)
  case Nil
  then show ?case
    by (subst replay.simps) simp
next
  case (Cons r rs)
  let ?c = "c @ frame (serialize E r)"
  obtain s1 where s1: "record_step E r s = Ok s1" "apply_all E rs s1 = Ok s'"
    using Cons.prems(3) by (auto simp: bind_outcome_Ok)
  have "parse E (serialize E r) = Some r" "length (serialize E r) \<le> max_int"
    using E Cons.prems(2) by (simp_all add: env_ok_def fits_def)
  then have read: "pb_read (parse E) (\<lambda>_. None) content True True (length c) = (Ok (Some r), length ?c)"
    using pb_read_frame [of "\<lambda>_. None" "serialize E r" "parse E" r c "frames E rs @ tail"]
    by (simp add: Cons.prems(4))
  have "replay E (\<lambda>_. None) content (length ?c) s1 us' =
      Ok (s', us' @ record_updates rs, None, length (?c @ frames E rs))" for us'
    by (rule Cons.IH [OF E _ s1(2)]) (use Cons.prems in \<open>simp_all add: add.assoc\<close>)
  then show ?case
    unfolding replay_record [OF read s1(1)] by simp
qed

subsection \<open>The invariant of a stream\<close>

text \<open>
  \<open>H\<close> are the updates the stream has accepted and \<open>A\<close> the acknowledged ones. An update is proper when it
  has no latest status, which the manager adds to what it forwards, and its records fit. \<open>next_op\<close> is an operation
  that the stream may perform next.
\<close>

definition proper :: "'id env \<Rightarrow> Update \<Rightarrow> bool" where
  "proper E u \<longleftrightarrow> um_latest_status u = None \<and> (\<forall>t. fits E (checkpoint_record u t))"

definition stream_ok :: "'id env \<Rightarrow> stream \<Rightarrow> Update list \<Rightarrow> Update list \<Rightarrow> bool" where
  "stream_ok E s H A \<longleftrightarrow>
     H = A @ st_pending s \<and> (\<forall>u\<in>set H. proper E u) \<and>
     (\<forall>u\<in>set H. \<exists>x. update_uuid E u = Ok x) \<and> distinct (map (update_uuid E) H) \<and>
     (\<forall>x. x \<in> st_received s \<longleftrightarrow> Ok x \<in> update_uuid E ` set H) \<and>
     (\<forall>x. x \<in> st_acknowledged s \<longleftrightarrow> Ok x \<in> update_uuid E ` set A) \<and>
     (st_terminated s \<longleftrightarrow> (\<exists>u\<in>set A. isTerminalState (os_state (um_status u))))"

definition next_op :: "'id env \<Rightarrow> stream \<Rightarrow> Update \<Rightarrow> RecordType \<Rightarrow> bool" where
  "next_op E s u t \<longleftrightarrow>
     (case t of
        UPDATE \<Rightarrow>
          um_framework_id u = st_frameworkId s \<and> proper E u \<and>
          (\<exists>x. update_uuid E u = Ok x \<and> x \<notin> st_received s)
      | ACK \<Rightarrow> (\<exists>us. st_pending s = u # us))"

definition after_H :: "RecordType \<Rightarrow> Update \<Rightarrow> Update list \<Rightarrow> Update list" where
  "after_H t u H = (case t of UPDATE \<Rightarrow> H @ [u] | ACK \<Rightarrow> H)"

definition after_A :: "RecordType \<Rightarrow> Update \<Rightarrow> Update list \<Rightarrow> Update list" where
  "after_A t u A = (case t of UPDATE \<Rightarrow> A | ACK \<Rightarrow> A @ [u])"

text \<open>Two streams with the same content; only the timeout, the error and the framework may differ.\<close>

definition same_stream :: "stream \<Rightarrow> stream \<Rightarrow> bool" where
  "same_stream s s' \<longleftrightarrow>
     st_pending s = st_pending s' \<and> st_received s = st_received s' \<and>
     st_acknowledged s = st_acknowledged s' \<and> st_terminated s = st_terminated s' \<and> st_path s = st_path s'"

text \<open>
  The file holds the records whose replay gives the stream, and, after a failed write, a part of one
  more record.
\<close>

definition file_ok :: "'id env \<Rightarrow> stream \<Rightarrow> Update list \<Rightarrow> string \<Rightarrow> bool" where
  "file_ok E s H c \<longleftrightarrow>
     (\<exists>rs s0 tail. c = frames E rs @ tail \<and> (\<forall>r\<in>set rs. fits E r) \<and> apply_all E rs (new_stream (st_path s)) = Ok s0 \<and>
        record_updates rs = H \<and> same_stream s0 s \<and> st_error s0 = None \<and>
        (rs \<noteq> [] \<longrightarrow> st_frameworkId s0 = st_frameworkId s) \<and>
        (if st_error s = None then tail = []
         else \<exists>u t k. next_op E s u t \<and> tail = take k (frame (serialize E (checkpoint_record u t)))))"

definition stream_inv :: "'id env \<Rightarrow> stream \<Rightarrow> files \<Rightarrow> Update list \<Rightarrow> Update list \<Rightarrow> bool" where
  "stream_inv E s fs H A \<longleftrightarrow>
     stream_ok E s H A \<and> (\<forall>f. st_path s = Some f \<longrightarrow> (\<exists>c. fs f = Some c \<and> file_ok E s H c))"

lemma stream_ok_cong:
  "same_stream s s' \<Longrightarrow> stream_ok E s H A = stream_ok E s' H A"
  by (simp add: stream_ok_def same_stream_def)

lemma same_stream_simps [simp]:
  "same_stream s s" "same_stream (s\<lparr>st_error := e\<rparr>) s'= same_stream s s'"
  "same_stream s (s'\<lparr>st_error := e\<rparr>) = same_stream s s'"
  "same_stream s (s'\<lparr>st_timeout := x\<rparr>) = same_stream s s'"
  by (simp_all add: same_stream_def)

lemma apply_record_ok:
  assumes ok: "stream_ok E s H A" and e: "st_error s = None" and n: "next_op E s u t"
  obtains s' where "apply_record E u t s = Ok s'" "stream_ok E s' (after_H t u H) (after_A t u A)"
    "st_error s' = None" "st_frameworkId s' = st_frameworkId s" "st_path s' = st_path s"
    "st_timeout s' = st_timeout s"
proof (cases t)
  case UPDATE
  then obtain x where x: "update_uuid E u = Ok x" "x \<notin> st_received s" and f: "um_framework_id u = st_frameworkId s"
    and l: "proper E u"
    using n by (auto simp: next_op_def)
  then have "Ok x \<notin> update_uuid E ` set H"
    using ok by (simp add: stream_ok_def)
  then have "stream_ok E (s\<lparr>st_received := insert x (st_received s), st_pending := st_pending s @ [u]\<rparr>) (H @ [u]) A"
    using ok x l unfolding stream_ok_def by (elim conjE, intro conjI) (simp_all add: image_Un)
  moreover have "apply_record E u t s =
      Ok (s\<lparr>st_received := insert x (st_received s), st_pending := st_pending s @ [u]\<rparr>)"
    using UPDATE e x f by (cases s) (simp add: apply_record_def split: option.splits)
  ultimately show ?thesis
    using that UPDATE e by (simp add: after_H_def after_A_def)
next
  case ACK
  then obtain us where us: "st_pending s = u # us"
    using n by (auto simp: next_op_def)
  then obtain x where x: "update_uuid E u = Ok x"
    using ok by (auto simp: stream_ok_def)
  have "stream_ok E (s\<lparr>st_acknowledged := insert x (st_acknowledged s), st_pending := us,
      st_terminated := st_terminated s \<or> isTerminalState (os_state (um_status u))\<rparr>) H (A @ [u])"
    using ok us x unfolding stream_ok_def
    by (elim conjE, intro conjI) (simp_all add: image_Un disj_commute)
  moreover have "apply_record E u t s = Ok (s\<lparr>st_acknowledged := insert x (st_acknowledged s), st_pending := us,
      st_terminated := st_terminated s \<or> isTerminalState (os_state (um_status u))\<rparr>)"
    using ACK e x us by (simp add: apply_record_def)
  ultimately show ?thesis
    using that ACK e by (simp add: after_H_def after_A_def)
qed

lemma apply_record_same:
  assumes "apply_record E u t s = Ok s'" and "same_stream s0 s" and "st_error s0 = None"
    and "t = UPDATE \<Longrightarrow> um_framework_id u = st_frameworkId s"
  obtains s0' where "apply_record E u t s0 = Ok s0'" "same_stream s0' s'" "st_error s0' = None"
    "st_frameworkId s0 = st_frameworkId s \<or> t = UPDATE \<and> st_frameworkId s \<noteq> None \<Longrightarrow>
     st_frameworkId s0' = st_frameworkId s'"
proof -
  obtain x where x: "update_uuid E u = Ok x" and e: "st_error s = None"
    using assms(1) by (auto simp: apply_record_def split: if_splits outcome.splits)
  show ?thesis
    using that assms x e by (cases t) (auto simp: apply_record_def same_stream_def split: option.splits)
qed

lemma record_step_checkpoint:
  assumes "next_op E s u t" and "same_stream s0 s" and "st_error s0 = None"
  shows "record_step E (checkpoint_record u t) s0 = apply_record E u t s0"
  using assms
  by (cases t) (auto simp: record_step_def checkpoint_record_def record_update_def stream_next_def
      next_op_def same_stream_def)

lemma record_updates_checkpoint [simp]: "record_updates (rs @ [checkpoint_record u t]) = after_H t u (record_updates rs)"
  by (cases t) (simp_all add: checkpoint_record_def record_update_def after_H_def)

text \<open>The records of the file and one more.\<close>

lemma records_extend:
  assumes rs: "apply_all E rs (new_stream (st_path s)) = Ok s0" and same: "same_stream s0 s"
    and e: "st_error s0 = None" and f: "rs \<noteq> [] \<Longrightarrow> st_frameworkId s0 = st_frameworkId s"
    and n: "next_op E s u t" and s': "apply_record E u t s = Ok s'"
  obtains s0' where "apply_all E (rs @ [checkpoint_record u t]) (new_stream (st_path s)) = Ok s0'"
    "same_stream s0' s'" "st_error s0' = None" "st_frameworkId s0' = st_frameworkId s'"
proof -
  have u: "t = UPDATE \<Longrightarrow> um_framework_id u = st_frameworkId s"
    using n by (simp add: next_op_def)
  obtain s0' where s0': "apply_record E u t s0 = Ok s0'" "same_stream s0' s'" "st_error s0' = None"
    and f': "st_frameworkId s0 = st_frameworkId s \<or> t = UPDATE \<and> st_frameworkId s \<noteq> None \<Longrightarrow>
      st_frameworkId s0' = st_frameworkId s'"
    using apply_record_same [OF s' same e u] by blast
  have "st_frameworkId s0 = st_frameworkId s \<or> t = UPDATE \<and> st_frameworkId s \<noteq> None"
  proof (cases "rs = []")
    case True
    then have s0: "s0 = new_stream (st_path s)"
      using rs by simp
    then have "st_pending s = []"
      using same by (simp add: same_stream_def new_stream_def)
    then have "t = UPDATE"
      using n by (cases t) (simp_all add: next_op_def)
    then show ?thesis
      using s0 by (cases "st_frameworkId s") (simp_all add: new_stream_def)
  qed (use f in simp)
  then have "st_frameworkId s0' = st_frameworkId s'"
    by (rule f')
  moreover have "apply_all E (rs @ [checkpoint_record u t]) (new_stream (st_path s)) = Ok s0'"
    using rs s0'(1) record_step_checkpoint [OF n same e] by (simp add: apply_all_append)
  ultimately show ?thesis
    using that s0' by blast
qed

lemma next_op_fits: "stream_ok E s H A \<Longrightarrow> next_op E s u t \<Longrightarrow> fits E (checkpoint_record u t)"
  by (cases t) (auto simp: stream_ok_def next_op_def proper_def)

lemma handle_ok:
  assumes inv: "stream_inv E s fs H A" and e: "st_error s = None" and n: "next_op E s u t"
  obtains
    (handled) s' fs' where "handle E io u t s fs = (Ok (), s', fs')"
      "stream_inv E s' fs' (after_H t u H) (after_A t u A)" "st_error s' = None"
      "st_frameworkId s' = st_frameworkId s" "st_path s' = st_path s" "st_timeout s' = st_timeout s"
      "\<And>g. st_path s \<noteq> Some g \<Longrightarrow> fs' g = fs g" "apply_record E u t s = Ok s'"
  | (failed) e fs' where "handle E io u t s fs = (Error e, s\<lparr>st_error := Some e\<rparr>, fs')"
      "stream_inv E (s\<lparr>st_error := Some e\<rparr>) fs' H A" "\<And>g. st_path s \<noteq> Some g \<Longrightarrow> fs' g = fs g"
proof -
  have ok: "stream_ok E s H A"
    using inv by (simp add: stream_inv_def)
  obtain s' where s': "apply_record E u t s = Ok s'" "stream_ok E s' (after_H t u H) (after_A t u A)"
    "st_error s' = None" "st_frameworkId s' = st_frameworkId s" "st_path s' = st_path s"
    "st_timeout s' = st_timeout s"
    using apply_record_ok [OF ok e n] by blast
  show ?thesis
  proof (cases "st_path s")
    case None
    then show ?thesis
      using handled [of s' fs] s' e by (simp add: handle_def stream_inv_def)
  next
    case (Some f)
    then obtain c where c: "fs f = Some c" "file_ok E s H c"
      using inv by (auto simp: stream_inv_def)
    then obtain rs s0 where rs: "c = frames E rs" "apply_all E rs (new_stream (st_path s)) = Ok s0"
      "record_updates rs = H" "same_stream s0 s" "st_error s0 = None"
      "rs \<noteq> [] \<Longrightarrow> st_frameworkId s0 = st_frameworkId s" "\<forall>r\<in>set rs. fits E r"
      using e by (auto simp: file_ok_def)
    let ?d = "serialize E (checkpoint_record u t)"
    show ?thesis
    proof (cases "io_write io")
      case w: None
      obtain s0' where "apply_all E (rs @ [checkpoint_record u t]) (new_stream (st_path s)) = Ok s0'"
        "same_stream s0' s'" "st_error s0' = None" "st_frameworkId s0' = st_frameworkId s'"
        using records_extend [OF rs(2,4-6) n s'(1)] by blast
      then have "file_ok E s' (after_H t u H) (c @ frame ?d)"
        using rs s'(3,5) next_op_fits [OF ok n] unfolding file_ok_def
        by (intro exI [of _ "rs @ [checkpoint_record u t]"] exI [of _ s0'] exI [of _ "[]"])
          (simp del: record_updates_simps)
      then show ?thesis
        using handled [of s' "fs(f \<mapsto> c @ frame ?d)"] s' e Some c w
        by (simp add: handle_def pb_write_def stream_inv_def)
    next
      case (Some ke)
      then obtain k err where w: "io_write io = Some (k, err)"
        by (cases ke) auto
      obtain er where run: "handle E io u t s fs =
          (Error er, s\<lparr>st_error := Some er\<rparr>, fs(f \<mapsto> c @ take k (frame ?d)))"
        using e w c \<open>st_path s = Some f\<close> by (simp add: handle_def pb_write_def Let_def)
      have "next_op E (s\<lparr>st_error := Some er\<rparr>) u t"
        using n by (simp add: next_op_def split: RecordType.splits)
      then have "file_ok E (s\<lparr>st_error := Some er\<rparr>) H (c @ take k (frame ?d))"
        unfolding file_ok_def using rs
        by (intro exI [of _ rs] exI [of _ s0] exI [of _ "take k (frame ?d)"]) auto
      then show ?thesis
        using failed [OF run] ok \<open>st_path s = Some f\<close>
        by (simp add: stream_inv_def stream_ok_cong [of "s\<lparr>st_error := Some er\<rparr>" s])
    qed
  qed
qed

lemma stream_ok_uuids:
  assumes "stream_ok E s H A"
  shows "Ok ` st_received s = update_uuid E ` set H" "Ok ` st_acknowledged s = update_uuid E ` set A"
proof -
  have ok: "\<exists>x. update_uuid E u = Ok x" if "u \<in> set H" for u
    using assms that unfolding stream_ok_def by blast
  have A: "set A \<subseteq> set H"
    using assms by (auto simp: stream_ok_def)
  have r: "x \<in> st_received s \<longleftrightarrow> Ok x \<in> update_uuid E ` set H"
    and a: "x \<in> st_acknowledged s \<longleftrightarrow> Ok x \<in> update_uuid E ` set A" for x
    using assms unfolding stream_ok_def by blast+
  show "Ok ` st_received s = update_uuid E ` set H"
    using r ok by (auto simp: image_iff) (metis)+
  show "Ok ` st_acknowledged s = update_uuid E ` set A"
    using a ok A by (auto simp: image_iff) (metis subsetD)+
qed

lemma uuid_pending:
  assumes ok: "stream_ok E s H A" and p: "st_pending s = u # us"
  shows "\<exists>x. update_uuid E u = Ok x \<and> x \<notin> st_acknowledged s"
proof -
  have H: "H = A @ u # us" and d: "distinct (map (update_uuid E) H)"
    and a: "\<And>x. x \<in> st_acknowledged s \<longleftrightarrow> Ok x \<in> update_uuid E ` set A"
    and ex: "\<And>v. v \<in> set H \<Longrightarrow> \<exists>x. update_uuid E v = Ok x"
    using ok unfolding stream_ok_def p by blast+
  have "u \<in> set H"
    using H by simp
  then obtain x where x: "update_uuid E u = Ok x"
    using ex by blast
  have "update_uuid E u \<notin> set (map (update_uuid E) A)"
    using d unfolding H by simp
  then show ?thesis
    using x a by simp
qed

text \<open>
  The operations of the stream: an update is queued exactly when its UUID is new, an acknowledgement
  removes the first pending update exactly when it carries its UUID.
\<close>

lemma stream_update_ok:
  assumes inv: "stream_inv E s fs H A" and u: "update_uuid E u = Ok x" "um_framework_id u = st_frameworkId s"
    "proper E u"
  obtains
    (error) e where "stream_update E io u s fs = (Error e, s, fs)" "st_error s = Some e"
  | (duplicate) "stream_update E io u s fs = (Ok False, s, fs)" "st_error s = None" "x \<in> st_received s"
  | (handled) s' fs' where "stream_update E io u s fs = (Ok True, s', fs')" "stream_inv E s' fs' (H @ [u]) A"
      "st_error s = None" "x \<notin> st_received s" "st_error s' = None" "st_frameworkId s' = st_frameworkId s"
      "st_path s' = st_path s" "st_timeout s' = st_timeout s" "\<And>g. st_path s \<noteq> Some g \<Longrightarrow> fs' g = fs g"
      "st_pending s' = st_pending s @ [u]" "st_terminated s' = st_terminated s"
  | (failed) e fs' where "stream_update E io u s fs = (Error e, s\<lparr>st_error := Some e\<rparr>, fs')"
      "stream_inv E (s\<lparr>st_error := Some e\<rparr>) fs' H A" "\<And>g. st_path s \<noteq> Some g \<Longrightarrow> fs' g = fs g"
      "st_error s = None"
proof (cases "st_error s")
  case None
  have ok: "stream_ok E s H A"
    using inv by (simp add: stream_inv_def)
  obtain b where has: "os_uuid (um_status u) = Some b"
    using u(1) by (cases "os_uuid (um_status u)") (simp_all add: update_uuid_def uuid_get_Ok)
  show ?thesis
  proof (cases "x \<in> st_received s")
    case True
    then show ?thesis
      using None has u by (intro duplicate) (simp_all add: stream_update_def)
  next
    case False
    then have "x \<notin> st_acknowledged s"
      using ok by (auto simp: stream_ok_def)
    with False have run: "stream_update E io u s fs =
        (case handle E io u UPDATE s fs of
           (Ok _, s, fs) \<Rightarrow> (Ok True, s, fs) | (Error e, s, fs) \<Rightarrow> (Error e, s, fs) | (Abort, s, fs) \<Rightarrow> (Abort, s, fs))"
      using None has u by (simp add: stream_update_def)
    have n: "next_op E s u UPDATE"
      using False u by (simp add: next_op_def)
    show ?thesis
    proof (rule handle_ok [OF inv None n, of io])
      fix s' fs' assume h: "handle E io u UPDATE s fs = (Ok (), s', fs')"
        "stream_inv E s' fs' (after_H UPDATE u H) (after_A UPDATE u A)" "st_error s' = None"
        "st_frameworkId s' = st_frameworkId s" "st_path s' = st_path s" "st_timeout s' = st_timeout s"
        "\<And>g. st_path s \<noteq> Some g \<Longrightarrow> fs' g = fs g" "apply_record E u UPDATE s = Ok s'"
      moreover have "st_pending s' = st_pending s @ [u]" "st_terminated s' = st_terminated s"
        using h(8) u None by (auto simp: apply_record_def split: if_splits outcome.splits)
      ultimately show ?thesis
        using run None False by (intro handled [of s' fs']) (simp_all add: after_H_def after_A_def)
    next
      fix e fs' assume "handle E io u UPDATE s fs = (Error e, s\<lparr>st_error := Some e\<rparr>, fs')"
        "stream_inv E (s\<lparr>st_error := Some e\<rparr>) fs' H A" "\<And>g. st_path s \<noteq> Some g \<Longrightarrow> fs' g = fs g"
      then show ?thesis
        using run None by (intro failed [of e fs']) simp_all
    qed
  qed
next
  case (Some e)
  then show ?thesis
    by (intro error [of e]) (simp_all add: stream_update_def)
qed

lemma stream_acknowledgement_ok:
  assumes inv: "stream_inv E s fs H A"
  obtains
    (error) e where "stream_acknowledgement E io x s fs = (Error e, s, fs)" "st_error s \<noteq> None \<or> st_pending s = []"
  | (duplicate) "stream_acknowledgement E io x s fs = (Ok False, s, fs)" "st_error s = None" "st_pending s \<noteq> []"
      "update_uuid E (hd (st_pending s)) \<noteq> Ok x"
  | (handled) s' fs' u where "stream_acknowledgement E io x s fs = (Ok True, s', fs')"
      "stream_inv E s' fs' H (A @ [u])" "st_pending s = u # st_pending s'" "update_uuid E u = Ok x"
      "st_error s = None" "st_error s' = None" "st_frameworkId s' = st_frameworkId s"
      "st_path s' = st_path s" "st_timeout s' = st_timeout s" "\<And>g. st_path s \<noteq> Some g \<Longrightarrow> fs' g = fs g"
  | (failed) e fs' where "stream_acknowledgement E io x s fs = (Error e, s\<lparr>st_error := Some e\<rparr>, fs')"
      "stream_inv E (s\<lparr>st_error := Some e\<rparr>) fs' H A" "\<And>g. st_path s \<noteq> Some g \<Longrightarrow> fs' g = fs g"
      "st_error s = None" "st_pending s \<noteq> []" "update_uuid E (hd (st_pending s)) = Ok x"
proof -
  have ok: "stream_ok E s H A"
    using inv by (simp add: stream_inv_def)
  consider e where "st_error s = Some e" | "st_error s = None" "st_pending s = []"
    | u us where "st_error s = None" "st_pending s = u # us"
    by (cases "st_error s"; cases "st_pending s") auto
  then show ?thesis
  proof cases
    case 3
    then obtain y where y: "update_uuid E u = Ok y" "y \<notin> st_acknowledged s"
      using uuid_pending [OF ok] by blast
    show ?thesis
    proof (cases "x = y")
      case False
      then show ?thesis
        using 3 y by (intro duplicate) (simp_all add: stream_acknowledgement_def stream_next_def)
    next
      case True
      then have run: "stream_acknowledgement E io x s fs =
        (case handle E io u ACK s fs of
           (Ok _, s, fs) \<Rightarrow> (Ok True, s, fs) | (Error e, s, fs) \<Rightarrow> (Error e, s, fs) | (Abort, s, fs) \<Rightarrow> (Abort, s, fs))"
        using 3 y by (simp add: stream_acknowledgement_def stream_next_def)
      have n: "next_op E s u ACK"
        using 3 by (simp add: next_op_def)
      show ?thesis
      proof (rule handle_ok [OF inv 3(1) n, of io])
        fix s' fs' assume h: "handle E io u ACK s fs = (Ok (), s', fs')"
          "stream_inv E s' fs' (after_H ACK u H) (after_A ACK u A)" "st_error s' = None"
          "st_frameworkId s' = st_frameworkId s" "st_path s' = st_path s" "st_timeout s' = st_timeout s"
          "\<And>g. st_path s \<noteq> Some g \<Longrightarrow> fs' g = fs g" "apply_record E u ACK s = Ok s'"
        moreover have "st_pending s = u # st_pending s'"
          using h(8) 3 y by (auto simp: apply_record_def split: if_splits outcome.splits)
        ultimately show ?thesis
          using run 3 y True by (intro handled [of s' fs' u]) (simp_all add: after_H_def after_A_def)
      next
        fix e fs' assume "handle E io u ACK s fs = (Error e, s\<lparr>st_error := Some e\<rparr>, fs')"
          "stream_inv E (s\<lparr>st_error := Some e\<rparr>) fs' H A" "\<And>g. st_path s \<noteq> Some g \<Longrightarrow> fs' g = fs g"
        then show ?thesis
          using run 3 y True by (intro failed [of e fs']) simp_all
      qed
    qed
  next
    case (1 e)
    then show ?thesis
      by (intro error [of e]) (simp_all add: stream_acknowledgement_def stream_next_def)
  next
    case 2
    then show ?thesis
      by (intro error [of "''Unexpected acknowledgment''"]) (simp_all add: stream_acknowledgement_def stream_next_def)
  qed
qed

subsection \<open>Recovery\<close>

definition io_ok :: "io \<Rightarrow> bool" where
  "io_ok io \<longleftrightarrow>
     io_open io = None \<and> io_read io = (\<lambda>_. None) \<and> io_lseek io = None \<and> io_ftruncate io = None \<and> io_rm io = None"

text \<open>
  The records in the file of a stream: those of its history, and perhaps the one whose write failed,
  which may have been written completely.
\<close>

lemma serialize_small:
  assumes "fits E r"
  shows "length (serialize E r) < 2 ^ 32"
proof -
  have "length (serialize E r) \<le> max_int"
    using assms by (simp add: fits_def)
  also have "max_int < 2 ^ 32"
    by (simp add: max_int_def)
  finally show ?thesis .
qed

text \<open>What follows the records of the history: nothing, a whole record, or a part of one.\<close>

lemma tail_cases:
  assumes ok: "stream_ok E s H A" and "if st_error s = None then tail = []
     else \<exists>u t k. next_op E s u t \<and> tail = take k (frame (serialize E (checkpoint_record u t)))"
  obtains (none) "tail = []"
  | (complete) u t where "st_error s \<noteq> None" "next_op E s u t" "tail = frame (serialize E (checkpoint_record u t))"
  | (part) u t k where "tail = take k (frame (serialize E (checkpoint_record u t)))"
      "k < length (frame (serialize E (checkpoint_record u t)))" "fits E (checkpoint_record u t)"
proof (cases "st_error s = None")
  case True
  then show ?thesis
    using assms(2) none by simp
next
  case False
  then obtain u t k where t: "next_op E s u t" "tail = take k (frame (serialize E (checkpoint_record u t)))"
    using assms(2) by auto
  show ?thesis
  proof (cases "k < length (frame (serialize E (checkpoint_record u t)))")
    case True
    then show ?thesis
      by (rule part [OF t(2)]) (rule next_op_fits [OF ok t(1)])
  next
    case gt: False
    then show ?thesis
      using t(2) by (intro complete [OF False t(1)]) simp
  qed
qed

text \<open>
  What \<open>recover\<close> gives back: the history of the stream, perhaps with the one record whose write was
  reported as failed.
\<close>

definition recovered :: "'id env \<Rightarrow> stream \<Rightarrow> Update list \<Rightarrow> Update list \<Rightarrow> Update list \<Rightarrow> Update list \<Rightarrow> bool" where
  "recovered E s H A H' A' \<longleftrightarrow>
     H' = H \<and> A' = A \<or>
     st_error s \<noteq> None \<and> (\<exists>u t. next_op E s u t \<and> H' = after_H t u H \<and> A' = after_A t u A)"

lemma file_records:
  assumes E: "env_ok E" and inv: "stream_inv E s fs H A" and f: "st_path s = Some f"
  obtains c rs tail s0 H' A' where "fs f = Some c" "c = frames E rs @ tail" "\<forall>r\<in>set rs. fits E r"
    "apply_all E rs (new_stream (Some f)) = Ok s0" "record_updates rs = H'" "stream_ok E s0 H' A'"
    "st_error s0 = None" "st_path s0 = Some f"
    "pb_read (parse E) (\<lambda>_. None) c True True (length (frames E rs)) = (Ok None, length (frames E rs))"
    "recovered E s H A H' A'" "rs \<noteq> [] \<longrightarrow> st_frameworkId s0 = st_frameworkId s"
proof -
  have ok: "stream_ok E s H A"
    using inv by (simp add: stream_inv_def)
  obtain c rs s0 tail where c: "fs f = Some c" "c = frames E rs @ tail"
    and rs: "apply_all E rs (new_stream (st_path s)) = Ok s0" "record_updates rs = H" "same_stream s0 s"
      "st_error s0 = None" "rs \<noteq> [] \<Longrightarrow> st_frameworkId s0 = st_frameworkId s" "\<forall>r\<in>set rs. fits E r"
    and tail: "if st_error s = None then tail = []
         else \<exists>u t k. next_op E s u t \<and> tail = take k (frame (serialize E (checkpoint_record u t)))"
    using inv f by (auto simp: stream_inv_def file_ok_def)
  have s0: "stream_ok E s0 H A" "st_path s0 = Some f"
    using ok rs(3) f stream_ok_cong [OF rs(3), of E] by (simp_all add: same_stream_def)
  note result = that
  have whole: thesis if stop: "pb_read (parse E) (\<lambda>_. None) c True True (length (frames E rs)) =
      (Ok None, length (frames E rs))"
    by (rule result [OF c rs(6) _ rs(2) s0(1) rs(4) s0(2) stop]) (use rs(1,5) f in \<open>simp_all add: recovered_def\<close>)
  from ok tail show ?thesis
  proof (cases rule: tail_cases)
    case none
    then show ?thesis
      using c(2) pb_read_end [of "\<lambda>_. None" "parse E" c] by (intro whole) simp
  next
    case (part u t k)
    then show ?thesis
      unfolding c(2) by (intro whole) (simp only: c(2) pb_read_partial [OF refl serialize_small])
  next
    case n: (complete u t)
    define s1 where "s1 = s\<lparr>st_error := None\<rparr>"
    have s1: "stream_ok E s1 H A" "st_error s1 = None" "next_op E s1 u t" "same_stream s0 s1"
      "st_frameworkId s1 = st_frameworkId s" "st_path s1 = st_path s"
      using ok n(2) rs(3) stream_ok_cong [of s1 s E]
      by (simp_all add: s1_def next_op_def split: RecordType.splits)
    obtain s1' where s1': "apply_record E u t s1 = Ok s1'" "stream_ok E s1' (after_H t u H) (after_A t u A)"
      "st_frameworkId s1' = st_frameworkId s1" "st_path s1' = st_path s1"
      using apply_record_ok [OF s1(1-3)] by metis
    obtain s0' where s0': "apply_all E (rs @ [checkpoint_record u t]) (new_stream (Some f)) = Ok s0'"
      "same_stream s0' s1'" "st_error s0' = None" "st_frameworkId s0' = st_frameworkId s1'"
      using records_extend [of E rs s1 s0 u t s1'] rs s1 s1'(1) f by auto
    have c': "c = frames E (rs @ [checkpoint_record u t]) @ []"
      using c n by simp
    have fit: "\<forall>r\<in>set (rs @ [checkpoint_record u t]). fits E r"
      using rs(6) next_op_fits [OF ok n(2)] by simp
    have ok': "stream_ok E s0' (after_H t u (record_updates rs)) (after_A t u A)"
      using stream_ok_cong [OF s0'(2), of E] s1'(2) rs(2) by simp
    have path': "st_path s0' = Some f"
      using s0'(2) s1' s1 f by (simp add: same_stream_def)
    have stop: "pb_read (parse E) (\<lambda>_. None) c True True (length (frames E (rs @ [checkpoint_record u t]))) =
        (Ok None, length (frames E (rs @ [checkpoint_record u t])))"
      using pb_read_end [of "\<lambda>_. None" "parse E" c] c' by simp
    have "after_H t u (record_updates rs) = after_H t u H"
      using rs(2) by simp
    moreover have "st_frameworkId s0' = st_frameworkId s"
      using s0'(4) s1'(3) s1(5) by simp
    ultimately show ?thesis
      using n(1,2)
      by (intro result [OF c(1) c' fit s0'(1) record_updates_checkpoint ok' s0'(3) path' stop]) (simp_all add: recovered_def, blast)
  qed
qed


lemma apply_record_timeout: "apply_record E u t s = Ok s' \<Longrightarrow> st_timeout s' = st_timeout s"
  by (auto simp: apply_record_def split: if_splits outcome.splits RecordType.splits)

lemma apply_all_timeout: "apply_all E rs s = Ok s' \<Longrightarrow> st_timeout s' = st_timeout s"
proof (induction rs arbitrary: s)
  case (Cons r rs)
  then obtain s1 where "record_step E r s = Ok s1" "apply_all E rs s1 = Ok s'"
    by (auto simp: bind_outcome_Ok)
  then show ?case
    using Cons.IH [of s1]
    by (auto simp: record_step_def bind_outcome_Ok apply_record_timeout split: RecordType.splits option.splits)
qed simp

lemma stream_recover_ok:
  assumes E: "env_ok E" and io: "io_ok io" and inv: "stream_inv E s fs H A" and f: "st_path s = Some f"
  obtains
    (none) A' where "recovered E s H A [] A'" "stream_recover E io f strict fs = (Ok None, fs(f := None))"
  | (restored) H' A' s' fs' where "recovered E s H A H' A'" "H' \<noteq> []"
      "stream_recover E io f strict fs =
        (Ok (Some (s', \<lparr>ss_updates = H', ss_error = False, ss_terminated = st_terminated s'\<rparr>)), fs')"
      "stream_inv E s' fs' H' A'" "st_error s' = None" "st_timeout s' = None" "st_path s' = Some f"
      "st_frameworkId s' = st_frameworkId s" "\<And>g. g \<noteq> f \<Longrightarrow> fs' g = fs g"
proof -
  obtain c rs tail s0 H' A' where c: "fs f = Some c" "c = frames E rs @ tail" "\<forall>r\<in>set rs. fits E r"
    and s0: "apply_all E rs (new_stream (Some f)) = Ok s0"
    and H': "record_updates rs = H'" and ok: "stream_ok E s0 H' A'" "st_error s0 = None" "st_path s0 = Some f"
    and stop: "pb_read (parse E) (\<lambda>_. None) c True True (length (frames E rs)) = (Ok None, length (frames E rs))"
    and rec: "recovered E s H A H' A'" and fid: "rs \<noteq> [] \<longrightarrow> st_frameworkId s0 = st_frameworkId s"
    using file_records [OF E inv f] .
  have replay: "replay E (\<lambda>_. None) c 0 (new_stream (Some f)) [] = Ok (s0, H', None, length (frames E rs))"
    using replay_frames [OF E c(3) s0, of c "[]" tail "[]"] c(2) stop H' by simp
  show ?thesis
  proof (cases "H' = []")
    case True
    then have run: "stream_recover E io f strict fs = (Ok None, fs(f := None))"
      using io replay c by (simp add: stream_recover_def io_ok_def)
    show ?thesis
      by (rule none [OF rec [unfolded True] run])
  next
    case False
    let ?fs = "fs(f \<mapsto> frames E rs)"
    have run: "stream_recover E io f strict fs =
        (Ok (Some (s0, \<lparr>ss_updates = H', ss_error = False, ss_terminated = st_terminated s0\<rparr>)), ?fs)"
      using io replay c False by (simp add: stream_recover_def io_ok_def)
    have content: "file_ok E s0 H' (frames E rs)"
      unfolding file_ok_def using s0 H' ok c(3) by (intro exI [of _ rs] exI [of _ s0] exI [of _ "[]"]) simp
    have rs: "rs \<noteq> []"
      using False H' by auto
    show ?thesis
      by (rule restored [OF rec False run])
        (use ok content fid rs apply_all_timeout [OF s0] in \<open>simp_all add: stream_inv_def new_stream_def\<close>)
  qed
qed

end
