(* ===== verification/Status_Manager.thy ===== *)
theory Status_Manager
  imports Status_Stream "HOL-Library.Word"
begin

section \<open>The status update manager\<close>

text \<open>
  \<open>StatusUpdateManagerProcess\<close> of \<open>src/status_update_manager/status_update_manager_process.hpp\<close>: the
  streams by identifier, the streams of every framework, the updates handed to the callback and the
  timers that send them again. \<open>Error\<close> is a failed future and \<open>Abort\<close> a failed check. The clock and the
  pending timers of libprocess are part of the state; a duration is a number of nanoseconds.
\<close>

record 'id manager =
  mg_streams :: "'id \<rightharpoonup> stream"
  mg_frameworkStreams :: "string \<rightharpoonup> 'id set"
  mg_paused :: bool
  mg_files :: files
  mg_now :: nat
  mg_timers :: "('id \<times> nat \<times> nat) list"
  mg_forwarded :: "Update list"

definition new_manager :: "files \<Rightarrow> nat \<Rightarrow> 'id manager" where
  "new_manager fs now =
     \<lparr>mg_streams = Map.empty, mg_frameworkStreams = Map.empty, mg_paused = False, mg_files = fs,
      mg_now = now, mg_timers = [], mg_forwarded = []\<rparr>"

definition STATUS_UPDATE_RETRY_INTERVAL_MIN :: nat where
  "STATUS_UPDATE_RETRY_INTERVAL_MIN = 10 * 10 ^ 9"

definition STATUS_UPDATE_RETRY_INTERVAL_MAX :: nat where
  "STATUS_UPDATE_RETRY_INTERVAL_MAX = 600 * 10 ^ 9"

text \<open>\<open>Timeout::in\<close> for a duration that is not negative; \<open>Time::max\<close> is the largest 64-bit duration.\<close>

definition Time_max :: nat where
  "Time_max = 2 ^ 63 - 1"

definition Timeout_in :: "nat \<Rightarrow> nat \<Rightarrow> nat" where
  "Timeout_in now d = (if now < Time_max - d then now + d else Time_max)"

subsection \<open>Forwarding\<close>

definition forward ::
  "'id \<Rightarrow> stream \<Rightarrow> Update \<Rightarrow> nat \<Rightarrow> 'id manager \<Rightarrow> nat outcome \<times> 'id manager" where
  "forward i s u d m =
     (if mg_paused m then (Abort, m)
      else if um_latest_status u \<noteq> None then (Abort, m)
      else
        (let v = u\<lparr>um_latest_status :=
                     Some (um_status (if st_pending s = [] then u else last (st_pending s)))\<rparr>;
             t = Timeout_in (mg_now m) d
         in (Ok t, m\<lparr>mg_forwarded := mg_forwarded m @ [v], mg_timers := mg_timers m @ [(i, d, t)]\<rparr>)))"

definition put_stream :: "'id \<Rightarrow> stream \<Rightarrow> 'id manager \<Rightarrow> 'id manager" where
  "put_stream i s m = m\<lparr>mg_streams := (mg_streams m)(i \<mapsto> s)\<rparr>"

text \<open>\<open>stream->timeout = forward(stream, update, duration)\<close>.\<close>

definition forward_stream ::
  "'id \<Rightarrow> stream \<Rightarrow> Update \<Rightarrow> nat \<Rightarrow> 'id manager \<Rightarrow> unit outcome \<times> 'id manager" where
  "forward_stream i s u d m =
     (case forward i s u d m of
        (Ok t, m) \<Rightarrow> (Ok (), put_stream i (s\<lparr>st_timeout := Some t\<rparr>) m)
      | (Error e, m) \<Rightarrow> (Error e, m)
      | (Abort, m) \<Rightarrow> (Abort, m))"

definition manager_timeout :: "'id \<Rightarrow> nat \<Rightarrow> 'id manager \<Rightarrow> unit outcome \<times> 'id manager" where
  "manager_timeout i d m =
     (if mg_paused m then (Ok (), m)
      else
        (case mg_streams m i of
           None \<Rightarrow> (Ok (), m)
         | Some s \<Rightarrow>
             (case st_pending s of
                [] \<Rightarrow> (Ok (), m)
              | u # us \<Rightarrow>
                  (case st_timeout s of
                     None \<Rightarrow> (Abort, m)
                   | Some t \<Rightarrow>
                       if t \<le> mg_now m
                       then forward_stream i s u (min (d * 2) STATUS_UPDATE_RETRY_INTERVAL_MAX) m
                       else (Ok (), m)))))"

subsection \<open>Streams\<close>

definition createStatusUpdateStream ::
  "'id env \<Rightarrow> io \<Rightarrow> 'id \<Rightarrow> string option \<Rightarrow> bool \<Rightarrow> 'id manager \<Rightarrow> unit outcome \<times> 'id manager" where
  "createStatusUpdateStream E io i frameworkId checkpoint m =
     (case create io frameworkId (if checkpoint then Some (getPath E i) else None) (mg_files m) of
        (Abort, fs) \<Rightarrow> (Abort, m\<lparr>mg_files := fs\<rparr>)
      | (Error e, fs) \<Rightarrow> (Error e, m\<lparr>mg_files := fs\<rparr>)
      | (Ok s, fs) \<Rightarrow>
          (let m = put_stream i s (m\<lparr>mg_files := fs\<rparr>) in
           (Ok (),
            case frameworkId of
              None \<Rightarrow> m
            | Some F \<Rightarrow>
                m\<lparr>mg_frameworkStreams := (mg_frameworkStreams m)(F \<mapsto>
                    insert i (case mg_frameworkStreams m F of None \<Rightarrow> {} | Some S \<Rightarrow> S))\<rparr>)))"

definition recoverStatusUpdateStream ::
  "'id env \<Rightarrow> io \<Rightarrow> 'id \<Rightarrow> bool \<Rightarrow> 'id manager \<Rightarrow> StreamState option outcome \<times> 'id manager" where
  "recoverStatusUpdateStream E io i strict m =
     (case stream_recover E io (getPath E i) strict (mg_files m) of
        (Abort, fs) \<Rightarrow> (Abort, m\<lparr>mg_files := fs\<rparr>)
      | (Error e, fs) \<Rightarrow> (Error e, m\<lparr>mg_files := fs\<rparr>)
      | (Ok None, fs) \<Rightarrow> (Ok None, m\<lparr>mg_files := fs\<rparr>)
      | (Ok (Some (s, state)), fs) \<Rightarrow>
          (let m = m\<lparr>mg_files := fs\<rparr> in
           if st_terminated s then (Ok (Some state), m)
           else
             (let m =
                (case st_frameworkId s of
                   None \<Rightarrow> m
                 | Some F \<Rightarrow>
                     m\<lparr>mg_frameworkStreams := (mg_frameworkStreams m)(F \<mapsto>
                         insert i (case mg_frameworkStreams m F of None \<Rightarrow> {} | Some S \<Rightarrow> S))\<rparr>)
              in
              case stream_next s of
                Abort \<Rightarrow> (Abort, m)
              | Error e \<Rightarrow> (Error e, m)
              | Ok None \<Rightarrow> (Ok (Some state), put_stream i s m)
              | Ok (Some u) \<Rightarrow>
                  if mg_paused m then (Ok (Some state), put_stream i s m)
                  else
                    (case forward_stream i s u STATUS_UPDATE_RETRY_INTERVAL_MIN m of
                       (Ok _, m) \<Rightarrow> (Ok (Some state), m)
                     | (Error e, m) \<Rightarrow> (Error e, m)
                     | (Abort, m) \<Rightarrow> (Abort, m)))))"

definition cleanupStatusUpdateStream :: "'id \<Rightarrow> 'id manager \<Rightarrow> unit outcome \<times> 'id manager" where
  "cleanupStatusUpdateStream i m =
     (case mg_streams m i of
        None \<Rightarrow> (Abort, m)
      | Some s \<Rightarrow>
          (let erase = (\<lambda>m. m\<lparr>mg_streams := (mg_streams m)(i := None)\<rparr>) in
           case st_frameworkId s of
             None \<Rightarrow> (Ok (), erase m)
           | Some F \<Rightarrow>
               (case mg_frameworkStreams m F of
                  None \<Rightarrow> (Abort, m)
                | Some S \<Rightarrow>
                    (Ok (),
                     erase (m\<lparr>mg_frameworkStreams :=
                       (mg_frameworkStreams m)(F := if S - {i} = {} then None else Some (S - {i}))\<rparr>)))))"

subsection \<open>The operations of the manager\<close>

text \<open>The second half of \<open>update\<close>, once the update is known to match its stream.\<close>

definition accept_update ::
  "'id env \<Rightarrow> io \<Rightarrow> Update \<Rightarrow> 'id \<Rightarrow> stream \<Rightarrow> 'id manager \<Rightarrow> unit outcome \<times> 'id manager" where
  "accept_update E io u i s m =
     (case stream_update E io u s (mg_files m) of
        (Abort, s, fs) \<Rightarrow> (Abort, put_stream i s (m\<lparr>mg_files := fs\<rparr>))
      | (Error e, s, fs) \<Rightarrow> (Error e, put_stream i s (m\<lparr>mg_files := fs\<rparr>))
      | (Ok False, s, fs) \<Rightarrow> (Ok (), put_stream i s (m\<lparr>mg_files := fs\<rparr>))
      | (Ok True, s, fs) \<Rightarrow>
          (let m = put_stream i s (m\<lparr>mg_files := fs\<rparr>) in
           if \<not> mg_paused m \<and> length (st_pending s) = 1
           then
             (if st_timeout s \<noteq> None then (Abort, m)
              else
                (case stream_next s of
                   Abort \<Rightarrow> (Abort, m)
                 | Error e \<Rightarrow> (Error e, m)
                 | Ok None \<Rightarrow> (Abort, m)
                 | Ok (Some v) \<Rightarrow> forward_stream i s v STATUS_UPDATE_RETRY_INTERVAL_MIN m))
           else (Ok (), m)))"

definition manager_update ::
  "'id env \<Rightarrow> io \<Rightarrow> Update \<Rightarrow> 'id \<Rightarrow> bool \<Rightarrow> 'id manager \<Rightarrow> unit outcome \<times> 'id manager" where
  "manager_update E io u i checkpoint m =
     (case (if mg_streams m i \<noteq> None then (Ok (), m)
            else createStatusUpdateStream E io i (um_framework_id u) checkpoint m) of
        (Abort, m) \<Rightarrow> (Abort, m)
      | (Error e, m) \<Rightarrow> (Error e, m)
      | (Ok _, m) \<Rightarrow>
          (case mg_streams m i of
             None \<Rightarrow> (Abort, m)
           | Some s \<Rightarrow>
               if um_latest_status u \<noteq> None then (Error ''Expected update to not contain latest_status'', m)
               else if checkpointed s \<noteq> checkpoint then (Error ''Mismatched checkpoint value'', m)
               else if (um_framework_id u \<noteq> None) \<noteq> (st_frameworkId s \<noteq> None)
               then (Error ''Mismatched framework ID'', m)
               else if um_framework_id u \<noteq> None \<and> um_framework_id u \<noteq> st_frameworkId s
               then (Error ''Mismatched framework ID'', m)
               else accept_update E io u i s m))"

definition manager_acknowledgement ::
  "'id env \<Rightarrow> io \<Rightarrow> 'id \<Rightarrow> string \<Rightarrow> 'id manager \<Rightarrow> bool outcome \<times> 'id manager" where
  "manager_acknowledgement E io i uuid m =
     (case mg_streams m i of
        None \<Rightarrow> (Error ''Cannot find the stream'', m)
      | Some s \<Rightarrow>
          (case stream_acknowledgement E io uuid s (mg_files m) of
             (Abort, s, fs) \<Rightarrow> (Abort, put_stream i s (m\<lparr>mg_files := fs\<rparr>))
           | (Error e, s, fs) \<Rightarrow> (Error e, put_stream i s (m\<lparr>mg_files := fs\<rparr>))
           | (Ok False, s, fs) \<Rightarrow> (Error ''Duplicate acknowledgement'', put_stream i s (m\<lparr>mg_files := fs\<rparr>))
           | (Ok True, s, fs) \<Rightarrow>
               (let s = s\<lparr>st_timeout := None\<rparr>; m = put_stream i s (m\<lparr>mg_files := fs\<rparr>) in
                case stream_next s of
                  Abort \<Rightarrow> (Abort, m)
                | Error e \<Rightarrow> (Error e, m)
                | Ok uo \<Rightarrow>
                    if st_terminated s
                    then
                      (case cleanupStatusUpdateStream i m of
                         (Ok _, m) \<Rightarrow> (Ok False, m)
                       | (Error e, m) \<Rightarrow> (Error e, m)
                       | (Abort, m) \<Rightarrow> (Abort, m))
                    else
                      (case uo of
                         None \<Rightarrow> (Ok True, m)
                       | Some u \<Rightarrow>
                           if mg_paused m then (Ok True, m)
                           else
                             (case forward_stream i s u STATUS_UPDATE_RETRY_INTERVAL_MIN m of
                                (Ok _, m) \<Rightarrow> (Ok True, m)
                              | (Error e, m) \<Rightarrow> (Error e, m)
                              | (Abort, m) \<Rightarrow> (Abort, m))))))"

text \<open>
  The loops over a hash map or set visit its keys in an order that the argument \<open>ord\<close> gives.
\<close>

fun cleanup_streams :: "'id list \<Rightarrow> 'id manager \<Rightarrow> unit outcome \<times> 'id manager" where
  "cleanup_streams [] m = (Ok (), m)"
| "cleanup_streams (i # is) m =
     (case cleanupStatusUpdateStream i m of
        (Ok _, m) \<Rightarrow> cleanup_streams is m
      | (Error e, m) \<Rightarrow> (Error e, m)
      | (Abort, m) \<Rightarrow> (Abort, m))"

definition manager_cleanup ::
  "('id set \<Rightarrow> 'id list) \<Rightarrow> string \<Rightarrow> 'id manager \<Rightarrow> unit outcome \<times> 'id manager" where
  "manager_cleanup ord F m =
     (case mg_frameworkStreams m F of
        None \<Rightarrow> (Ok (), m)
      | Some S \<Rightarrow> cleanup_streams (ord S) m)"

definition manager_pause :: "'id manager \<Rightarrow> 'id manager" where
  "manager_pause m = m\<lparr>mg_paused := True\<rparr>"

fun resume_streams :: "'id list \<Rightarrow> 'id manager \<Rightarrow> unit outcome \<times> 'id manager" where
  "resume_streams [] m = (Ok (), m)"
| "resume_streams (i # is) m =
     (case mg_streams m i of
        None \<Rightarrow> resume_streams is m
      | Some s \<Rightarrow>
          (case stream_next s of
             Ok (Some u) \<Rightarrow>
               (case forward_stream i s u STATUS_UPDATE_RETRY_INTERVAL_MIN m of
                  (Ok _, m) \<Rightarrow> resume_streams is m
                | (Error e, m) \<Rightarrow> (Error e, m)
                | (Abort, m) \<Rightarrow> (Abort, m))
           | _ \<Rightarrow> resume_streams is m))"

definition manager_resume :: "('id set \<Rightarrow> 'id list) \<Rightarrow> 'id manager \<Rightarrow> unit outcome \<times> 'id manager" where
  "manager_resume ord m = resume_streams (ord (dom (mg_streams m))) (m\<lparr>mg_paused := False\<rparr>)"

subsection \<open>Recovery\<close>

record ManagerStreamState =
  ms_updates :: "Update list"
  ms_terminated :: bool

record 'id ManagerState =
  ms_streams :: "'id \<rightharpoonup> ManagerStreamState option"
  ms_errors :: "32 word"

fun recover_streams ::
  "'id env \<Rightarrow> ('id \<Rightarrow> io) \<Rightarrow> ('id set \<Rightarrow> 'id list) \<Rightarrow> bool \<Rightarrow> 'id list \<Rightarrow> 'id ManagerState \<Rightarrow> 'id manager \<Rightarrow>
   'id ManagerState outcome \<times> 'id manager" where
  "recover_streams E io ord strict [] st m = (Ok st, m)"
| "recover_streams E io ord strict (i # is) st m =
     (case recoverStatusUpdateStream E (io i) i strict m of
        (Abort, m) \<Rightarrow> (Abort, m)
      | (Error e, m) \<Rightarrow>
          if strict
          then
            (case cleanup_streams (ord (dom (mg_streams m))) m of
               (Ok _, m) \<Rightarrow>
                 if dom (mg_streams m) \<noteq> {} \<or> dom (mg_frameworkStreams m) \<noteq> {} then (Abort, m)
                 else (Error (''Failed to recover stream: '' @ e), m)
             | (Error e, m) \<Rightarrow> (Error e, m)
             | (Abort, m) \<Rightarrow> (Abort, m))
          else recover_streams E io ord strict is (st\<lparr>ms_errors := ms_errors st + 1\<rparr>) m
      | (Ok None, m) \<Rightarrow>
          recover_streams E io ord strict is (st\<lparr>ms_streams := (ms_streams st)(i \<mapsto> None)\<rparr>) m
      | (Ok (Some state), m) \<Rightarrow>
          recover_streams E io ord strict is
            (st\<lparr>ms_streams := (ms_streams st)(i \<mapsto>
                  Some \<lparr>ms_updates = ss_updates state, ms_terminated = ss_terminated state\<rparr>),
                ms_errors := (if ss_error state then ms_errors st + 1 else ms_errors st)\<rparr>) m)"

definition manager_recover ::
  "'id env \<Rightarrow> ('id \<Rightarrow> io) \<Rightarrow> ('id set \<Rightarrow> 'id list) \<Rightarrow> 'id list \<Rightarrow> bool \<Rightarrow> 'id manager \<Rightarrow>
   'id ManagerState outcome \<times> 'id manager" where
  "manager_recover E io ord streamIds strict m =
     recover_streams E io ord strict streamIds \<lparr>ms_streams = Map.empty, ms_errors = 0\<rparr> m"

subsection \<open>The invariant of the manager\<close>

text \<open>
  Every stream keeps its own invariant and has the path of its identifier; a stream without pending
  updates has no timeout; the streams of a framework are those of the map with that framework; and
  every file at the path of an identifier was written by a stream.
\<close>

definition entry_ok :: "'id env \<Rightarrow> files \<Rightarrow> 'id \<Rightarrow> stream \<Rightarrow> bool" where
  "entry_ok E fs i s \<longleftrightarrow>
     (\<exists>H A. stream_inv E s fs H A) \<and> (\<forall>f. st_path s = Some f \<longrightarrow> f = getPath E i) \<and>
     (st_pending s = [] \<longrightarrow> st_timeout s = None)"

definition disk_ok :: "'id env \<Rightarrow> files \<Rightarrow> bool" where
  "disk_ok E fs \<longleftrightarrow>
     (\<forall>i. fs (getPath E i) \<noteq> None \<longrightarrow>
        (\<exists>s H A. st_path s = Some (getPath E i) \<and> stream_inv E s fs H A))"

definition frameworks_ok :: "('id \<rightharpoonup> stream) \<Rightarrow> (string \<rightharpoonup> 'id set) \<Rightarrow> bool" where
  "frameworks_ok ss fw \<longleftrightarrow>
     (\<forall>i s F. ss i = Some s \<longrightarrow> st_frameworkId s = Some F \<longrightarrow> (\<exists>S. fw F = Some S \<and> i \<in> S)) \<and>
     (\<forall>F S. fw F = Some S \<longrightarrow> S \<noteq> {} \<and> (\<forall>i\<in>S. \<exists>s. ss i = Some s \<and> st_frameworkId s = Some F))"

definition manager_inv :: "'id env \<Rightarrow> 'id manager \<Rightarrow> bool" where
  "manager_inv E m \<longleftrightarrow>
     finite (dom (mg_streams m)) \<and> (\<forall>i s. mg_streams m i = Some s \<longrightarrow> entry_ok E (mg_files m) i s) \<and>
     frameworks_ok (mg_streams m) (mg_frameworkStreams m) \<and> disk_ok E (mg_files m)"

text \<open>Every stream that can go on and has a pending update has a timer for its timeout.\<close>

definition armed_stream :: "'id manager \<Rightarrow> 'id \<Rightarrow> stream \<Rightarrow> bool" where
  "armed_stream m i s \<longleftrightarrow>
     (st_error s = None \<and> st_pending s \<noteq> [] \<longrightarrow> (\<exists>d t. st_timeout s = Some t \<and> (i, d, t) \<in> set (mg_timers m)))"

definition armed_off :: "'id set \<Rightarrow> 'id manager \<Rightarrow> bool" where
  "armed_off X m \<longleftrightarrow> (\<forall>i s. i \<notin> X \<longrightarrow> mg_streams m i = Some s \<longrightarrow> armed_stream m i s)"

abbreviation armed :: "'id manager \<Rightarrow> bool" where
  "armed \<equiv> armed_off {}"

text \<open>
  What an operation forwards: the first pending update of a stream, with the status of the last one as
  the latest status.
\<close>

definition pend :: "'id manager \<Rightarrow> 'id \<Rightarrow> Update list" where
  "pend m i = (case mg_streams m i of None \<Rightarrow> [] | Some s \<Rightarrow> st_pending s)"

definition latest :: "Update list \<Rightarrow> Update" where
  "latest us = (hd us)\<lparr>um_latest_status := Some (um_status (last us))\<rparr>"

definition forwards :: "'id manager \<Rightarrow> 'id manager \<Rightarrow> bool" where
  "forwards m m' \<longleftrightarrow>
     (\<exists>vs. mg_forwarded m' = mg_forwarded m @ vs \<and> (\<forall>v\<in>set vs. \<exists>i. pend m' i \<noteq> [] \<and> v = latest (pend m' i)))"

lemma put_stream_simps [simp]:
  "mg_streams (put_stream i s m) = (mg_streams m)(i \<mapsto> s)" "mg_files (put_stream i s m) = mg_files m"
  "mg_frameworkStreams (put_stream i s m) = mg_frameworkStreams m" "mg_paused (put_stream i s m) = mg_paused m"
  "mg_timers (put_stream i s m) = mg_timers m" "mg_now (put_stream i s m) = mg_now m"
  "mg_forwarded (put_stream i s m) = mg_forwarded m"
  "put_stream i s (put_stream i s' m) = put_stream i s m"
  by (simp_all add: put_stream_def)

lemma stream_inv_frame:
  "(\<And>f. st_path s = Some f \<Longrightarrow> fs' f = fs f) \<Longrightarrow> stream_inv E s fs' H A = stream_inv E s fs H A"
  by (auto simp: stream_inv_def)

lemma stream_inv_timeout [simp]: "stream_inv E (s\<lparr>st_timeout := t\<rparr>) fs H A = stream_inv E s fs H A"
proof -
  have "next_op E (s\<lparr>st_timeout := t\<rparr>) = next_op E s"
    by (intro ext) (simp add: next_op_def split: RecordType.splits)
  moreover have "stream_ok E (s\<lparr>st_timeout := t\<rparr>) H A = stream_ok E s H A"
    by (simp add: stream_ok_def)
  ultimately show ?thesis
    by (simp add: stream_inv_def file_ok_def)
qed

lemma entry_ok_frame:
  assumes "entry_ok E fs j s" "fs' (getPath E j) = fs (getPath E j)"
  shows "entry_ok E fs' j s"
proof -
  have "stream_inv E s fs' H A = stream_inv E s fs H A" for H A
    using assms by (intro stream_inv_frame) (auto simp: entry_ok_def)
  then show ?thesis
    using assms by (simp add: entry_ok_def)
qed

text \<open>The files change only at the path of one identifier.\<close>

lemma disk_ok_step:
  assumes E: "env_ok E" and d: "disk_ok E fs" and g: "\<And>g. g \<noteq> getPath E i \<Longrightarrow> fs' g = fs g"
    and i: "fs' (getPath E i) = None \<or> fs' (getPath E i) = fs (getPath E i) \<or>
      (\<exists>s H A. st_path s = Some (getPath E i) \<and> stream_inv E s fs' H A)"
  shows "disk_ok E fs'"
  unfolding disk_ok_def
proof (intro allI impI)
  fix j assume j: "fs' (getPath E j) \<noteq> None"
  show "\<exists>s H A. st_path s = Some (getPath E j) \<and> stream_inv E s fs' H A"
  proof (cases "fs' (getPath E j) = fs (getPath E j)")
    case True
    then obtain s H A where s: "st_path s = Some (getPath E j)" "stream_inv E s fs H A"
      using d j by (auto simp: disk_ok_def)
    then have "stream_inv E s fs' H A"
      using True by (subst stream_inv_frame [of s fs' fs]) auto
    then show ?thesis
      using s(1) by blast
  next
    case False
    then have "getPath E j = getPath E i"
      using g by blast
    then show ?thesis
      using i j False by auto
  qed
qed

lemma getPath_inj: "env_ok E \<Longrightarrow> getPath E i = getPath E j \<longleftrightarrow> i = j"
  by (auto simp: env_ok_def inj_def)

lemma frameworks_ok_put:
  assumes fw: "frameworks_ok ss fw" and s0: "ss i = Some s0" and s: "st_frameworkId s = st_frameworkId s0"
  shows "frameworks_ok (ss(i \<mapsto> s)) fw"
  unfolding frameworks_ok_def
proof (intro conjI allI impI ballI)
  fix j s' F assume "(ss(i \<mapsto> s)) j = Some s'" "st_frameworkId s' = Some F"
  then show "\<exists>S. fw F = Some S \<and> j \<in> S"
    using fw s0 s unfolding frameworks_ok_def by (cases "j = i") auto
next
  fix F S assume S: "fw F = Some S"
  then show "S \<noteq> {}"
    using fw unfolding frameworks_ok_def by blast
  fix j assume "j \<in> S"
  then show "\<exists>s'. (ss(i \<mapsto> s)) j = Some s' \<and> st_frameworkId s' = Some F"
    using fw s0 s S unfolding frameworks_ok_def by (cases "j = i") fastforce+
qed

lemma manager_set:
  assumes E: "env_ok E" and m: "manager_inv E m"
    and s: "stream_inv E s fs H A" "\<And>f. st_path s = Some f \<Longrightarrow> f = getPath E i" "st_pending s = [] \<Longrightarrow> st_timeout s = None"
    and fs: "\<And>g. st_path s \<noteq> Some g \<Longrightarrow> fs g = mg_files m g" and fw: "frameworks_ok ((mg_streams m)(i \<mapsto> s)) fw"
  shows "manager_inv E (put_stream i s (m\<lparr>mg_files := fs, mg_frameworkStreams := fw\<rparr>))"
proof -
  have fin: "finite (dom (mg_streams m))" and d: "disk_ok E (mg_files m)"
    and entries: "\<And>j s. mg_streams m j = Some s \<Longrightarrow> entry_ok E (mg_files m) j s"
    using m by (simp_all add: manager_inv_def)
  have g: "\<And>g. g \<noteq> getPath E i \<Longrightarrow> fs g = mg_files m g"
    using fs s(2) by blast
  have "disk_ok E fs"
  proof (rule disk_ok_step [OF E d g])
    show "fs (getPath E i) = None \<or> fs (getPath E i) = mg_files m (getPath E i) \<or>
        (\<exists>s H A. st_path s = Some (getPath E i) \<and> stream_inv E s fs H A)"
      using s fs by (cases "st_path s") auto
  qed
  moreover have "entry_ok E fs j s'" if "mg_streams m j = Some s'" "j \<noteq> i" for j s'
    by (rule entry_ok_frame [OF entries [OF that(1)]]) (use g getPath_inj [OF E] that(2) in simp)
  moreover have "entry_ok E fs i s"
    unfolding entry_ok_def using s by auto
  ultimately show ?thesis
    using fin fw by (simp add: manager_inv_def)
qed

lemma manager_put:
  assumes E: "env_ok E" and m: "manager_inv E m" and s0: "mg_streams m i = Some s0"
    and s: "stream_inv E s fs H A" "st_path s = st_path s0" "st_frameworkId s = st_frameworkId s0"
      "st_pending s = [] \<Longrightarrow> st_timeout s = None"
    and fs: "\<And>g. st_path s0 \<noteq> Some g \<Longrightarrow> fs g = mg_files m g"
  shows "manager_inv E (put_stream i s (m\<lparr>mg_files := fs\<rparr>))"
proof -
  have path: "\<And>f. st_path s0 = Some f \<Longrightarrow> f = getPath E i"
    and fw: "frameworks_ok (mg_streams m) (mg_frameworkStreams m)"
    using m s0 by (simp_all add: manager_inv_def entry_ok_def)
  have "manager_inv E (put_stream i s (m\<lparr>mg_files := fs, mg_frameworkStreams := mg_frameworkStreams m\<rparr>))"
    by (rule manager_set [OF E m s(1) _ s(4) _ frameworks_ok_put [OF fw s0 s(3)]]) (use s(2) path fs in simp_all)
  then show ?thesis
    by simp
qed

text \<open>A new stream enters the map and the set of its framework.\<close>

definition add_framework :: "'id \<Rightarrow> string option \<Rightarrow> (string \<rightharpoonup> 'id set) \<Rightarrow> string \<rightharpoonup> 'id set" where
  "add_framework i Fo fw =
     (case Fo of
        None \<Rightarrow> fw
      | Some F \<Rightarrow> fw(F \<mapsto> insert i (case fw F of None \<Rightarrow> {} | Some S \<Rightarrow> S)))"

lemma frameworks_ok_add:
  assumes fw: "frameworks_ok ss fw" and i: "ss i = None"
  shows "frameworks_ok (ss(i \<mapsto> s)) (add_framework i (st_frameworkId s) fw)"
    (is "frameworks_ok ?ss ?fw")
proof -
  have in_fw: "\<exists>S. fw F = Some S \<and> j \<in> S" if "ss j = Some s'" "st_frameworkId s' = Some F" for j s' F
    using fw that unfolding frameworks_ok_def by blast
  have of_fw: "\<exists>s'. ss j = Some s' \<and> st_frameworkId s' = Some F" if "fw F = Some S" "j \<in> S" for F S j
    using fw that unfolding frameworks_ok_def by blast
  have ne: "S \<noteq> {}" if "fw F = Some S" for F S
    using fw that unfolding frameworks_ok_def by blast
  show ?thesis
    unfolding frameworks_ok_def
  proof (intro conjI allI impI ballI)
    fix j s' F assume j: "?ss j = Some s'" "st_frameworkId s' = Some F"
    show "\<exists>S. ?fw F = Some S \<and> j \<in> S"
    proof (cases "j = i")
      case False
      then obtain S where "fw F = Some S" "j \<in> S"
        using in_fw [of j s' F] j by auto
      then show ?thesis
        by (auto simp: add_framework_def split: option.splits)
    qed (use j in \<open>simp add: add_framework_def\<close>)
  next
    fix F S assume S: "?fw F = Some S"
    then show "S \<noteq> {}"
      using ne by (auto simp: add_framework_def split: option.splits if_splits)
    fix j assume j: "j \<in> S"
    show "\<exists>s'. ?ss j = Some s' \<and> st_frameworkId s' = Some F"
    proof (cases "j = i \<and> st_frameworkId s = Some F")
      case False
      then obtain S' where "fw F = Some S'" "j \<in> S'"
        using S j by (auto simp: add_framework_def split: option.splits if_splits)
      then show ?thesis
        using of_fw [of F S' j] i by auto
    qed simp
  qed
qed

lemma manager_inv_simps [simp]:
  "manager_inv E (m\<lparr>mg_paused := p\<rparr>) = manager_inv E m" "manager_inv E (m\<lparr>mg_timers := ts\<rparr>) = manager_inv E m"
  "manager_inv E (m\<lparr>mg_forwarded := vs\<rparr>) = manager_inv E m" "manager_inv E (m\<lparr>mg_now := t\<rparr>) = manager_inv E m"
  by (simp_all add: manager_inv_def)

lemma manager_entryE:
  assumes "manager_inv E m" "mg_streams m i = Some s"
  obtains H A where "stream_inv E s (mg_files m) H A" "\<And>f. st_path s = Some f \<Longrightarrow> f = getPath E i"
    "st_pending s = [] \<Longrightarrow> st_timeout s = None"
proof -
  have "entry_ok E (mg_files m) i s"
    using assms by (simp add: manager_inv_def)
  then show ?thesis
    unfolding entry_ok_def using that by blast
qed

lemma manager_frameworks: "manager_inv E m \<Longrightarrow> frameworks_ok (mg_streams m) (mg_frameworkStreams m)"
  by (simp add: manager_inv_def)

lemma head_proper:
  assumes "manager_inv E m" "mg_streams m i = Some s" "st_pending s = u # us"
  shows "um_latest_status u = None"
proof -
  obtain H A where "stream_inv E s (mg_files m) H A"
    using manager_entryE [OF assms(1,2)] .
  then have "H = A @ u # us" "\<forall>u\<in>set H. proper E u"
    using assms(3) by (simp_all add: stream_inv_def stream_ok_def)
  then show ?thesis
    by (simp add: proper_def)
qed

lemma forward_ok:
  assumes E: "env_ok E" and m: "manager_inv E m" and s: "mg_streams m i = Some s" "st_pending s = u # us"
    and p: "\<not> mg_paused m"
  obtains m' where "forward_stream i s u d m = (Ok (), m')" "manager_inv E m'" "pend m' = pend m"
    "\<forall>X. armed_off (insert i X) m \<longrightarrow> armed_off X m'" "\<not> mg_paused m'"
    "mg_streams m' = (mg_streams m)(i \<mapsto> s\<lparr>st_timeout := Some (Timeout_in (mg_now m) d)\<rparr>)"
    "mg_forwarded m' = mg_forwarded m @ [latest (pend m' i)]"
    "mg_timers m' = mg_timers m @ [(i, d, Timeout_in (mg_now m) d)]" "mg_files m' = mg_files m"
proof -
  let ?t = "Timeout_in (mg_now m) d"
  let ?s = "s\<lparr>st_timeout := Some ?t\<rparr>"
  let ?n = "m\<lparr>mg_forwarded := mg_forwarded m @ [latest (st_pending s)], mg_timers := mg_timers m @ [(i, d, ?t)]\<rparr>"
  have "um_latest_status u = None"
    by (rule head_proper [OF m s])
  then have run: "forward_stream i s u d m = (Ok (), put_stream i ?s ?n)"
    using p s(2) by (simp add: forward_stream_def forward_def latest_def Let_def)
  obtain H A where "stream_inv E s (mg_files m) H A"
    using manager_entryE [OF m s(1)] .
  then have "manager_inv E (put_stream i ?s (?n\<lparr>mg_files := mg_files m\<rparr>))"
    using m s by (intro manager_put [OF E, of ?n i s]) simp_all
  then have "manager_inv E (put_stream i ?s ?n)"
    by simp
  moreover have "armed_off X (put_stream i ?s ?n)" if "armed_off (insert i X) m" for X
    unfolding armed_off_def
  proof (intro allI impI)
    fix j s' assume "j \<notin> X" "mg_streams (put_stream i ?s ?n) j = Some s'"
    then show "armed_stream (put_stream i ?s ?n) j s'"
      using that by (cases "j = i") (auto simp: armed_off_def armed_stream_def)
  qed
  moreover have "pend (put_stream i ?s ?n) = pend m"
    using s by (auto simp: pend_def)
  moreover have "pend m i = st_pending s"
    using s by (simp add: pend_def)
  ultimately show ?thesis
    using p s by (intro that [OF run]) auto
qed

lemma frameworks_ok_erase:
  assumes fw: "frameworks_ok ss fw" and s: "ss i = Some s"
  shows "frameworks_ok (ss(i := None))
    (case st_frameworkId s of None \<Rightarrow> fw | Some F \<Rightarrow> fw(F := if the (fw F) - {i} = {} then None else Some (the (fw F) - {i})))"
    (is "frameworks_ok _ ?fw")
proof -
  have in_fw: "\<exists>S. fw F = Some S \<and> j \<in> S" if "ss j = Some s'" "st_frameworkId s' = Some F" for j s' F
    using fw that unfolding frameworks_ok_def by blast
  have of_fw: "\<exists>s'. ss j = Some s' \<and> st_frameworkId s' = Some F" if "fw F = Some S" "j \<in> S" for F S j
    using fw that unfolding frameworks_ok_def by blast
  have ne: "S \<noteq> {}" if "fw F = Some S" for F S
    using fw that unfolding frameworks_ok_def by blast
  show ?thesis
    unfolding frameworks_ok_def
  proof (intro conjI allI impI ballI)
    fix j s' F assume j: "(ss(i := None)) j = Some s'" "st_frameworkId s' = Some F"
    then obtain S where "fw F = Some S" "j \<in> S" "j \<noteq> i"
      using in_fw by (auto split: if_splits)
    then show "\<exists>S. ?fw F = Some S \<and> j \<in> S"
      by (cases "st_frameworkId s") auto
  next
    fix F S assume S: "?fw F = Some S"
    then show "S \<noteq> {}"
      using ne by (auto split: option.splits if_splits)
    fix j assume j: "j \<in> S"
    have "j \<noteq> i \<and> (\<exists>S'. fw F = Some S' \<and> j \<in> S')"
    proof (cases "st_frameworkId s = Some F")
      case True
      then show ?thesis
        using S j in_fw [OF s] by (auto split: if_splits)
    next
      case False
      then have "fw F = Some S"
        using S by (auto split: option.splits if_splits)
      then show ?thesis
        using of_fw [OF _ j] s False j by auto
    qed
    then show "\<exists>s'. (ss(i := None)) j = Some s' \<and> st_frameworkId s' = Some F"
      using of_fw by auto
  qed
qed

lemma cleanup_ok:
  assumes m: "manager_inv E m" and s: "mg_streams m i = Some s"
  obtains m' where "cleanupStatusUpdateStream i m = (Ok (), m')" "manager_inv E m'"
    "mg_streams m' = (mg_streams m)(i := None)" "mg_paused m' = mg_paused m" "mg_timers m' = mg_timers m"
    "mg_forwarded m' = mg_forwarded m" "mg_files m' = mg_files m"
proof -
  let ?fw = "case st_frameworkId s of None \<Rightarrow> mg_frameworkStreams m
    | Some F \<Rightarrow> (mg_frameworkStreams m)(F := if the (mg_frameworkStreams m F) - {i} = {} then None
        else Some (the (mg_frameworkStreams m F) - {i}))"
  let ?m = "m\<lparr>mg_frameworkStreams := ?fw, mg_streams := (mg_streams m)(i := None)\<rparr>"
  have "\<exists>S. mg_frameworkStreams m F = Some S" if "st_frameworkId s = Some F" for F
    using manager_frameworks [OF m] s that unfolding frameworks_ok_def by blast
  then have "cleanupStatusUpdateStream i m = (Ok (), ?m)"
    using s by (auto simp: cleanupStatusUpdateStream_def split: option.splits)
  moreover have "manager_inv E ?m"
    using frameworks_ok_erase [OF manager_frameworks [OF m] s] m by (simp add: manager_inv_def)
  ultimately show ?thesis
    by (intro that [of ?m]) simp_all
qed

subsection \<open>The operations keep the invariant\<close>

definition live_off :: "'id set \<Rightarrow> 'id manager \<Rightarrow> bool" where
  "live_off X m \<longleftrightarrow> (\<forall>i s. i \<notin> X \<longrightarrow> mg_streams m i = Some s \<longrightarrow> \<not> st_terminated s)"

abbreviation live :: "'id manager \<Rightarrow> bool" where
  "live \<equiv> live_off {}"

definition manager_ok :: "'id env \<Rightarrow> 'id manager \<Rightarrow> bool" where
  "manager_ok E m \<longleftrightarrow> manager_inv E m \<and> (mg_paused m \<or> armed m) \<and> live m"

lemma armed_off_put:
  "armed_off X m \<Longrightarrow> armed_off (insert i X) (put_stream i s (m\<lparr>mg_files := fs\<rparr>))"
  by (auto simp: armed_off_def armed_stream_def)

lemma armed_put:
  "armed m \<Longrightarrow> armed_stream m i s \<Longrightarrow> armed (put_stream i s (m\<lparr>mg_files := fs\<rparr>))"
  by (auto simp: armed_off_def armed_stream_def)

lemma forwards_refl: "mg_forwarded m' = mg_forwarded m \<Longrightarrow> forwards m m'"
  by (simp add: forwards_def)

lemma forwards_one: "mg_forwarded m' = mg_forwarded m @ [latest (pend m' i)] \<Longrightarrow> pend m' i \<noteq> [] \<Longrightarrow> forwards m m'"
  by (auto simp: forwards_def)

lemma create_ok:
  assumes E: "env_ok E" and m: "manager_ok E m" and i: "mg_streams m i = None"
  obtains
    (error) e where "createStatusUpdateStream E io i F checkpoint m = (Error e, m)"
  | (created) s m' where "createStatusUpdateStream E io i F checkpoint m = (Ok (), m')" "manager_ok E m'"
      "mg_streams m' i = Some s" "st_frameworkId s = F" "st_pending s = []" "mg_forwarded m' = mg_forwarded m"
proof -
  let ?path = "if checkpoint then Some (getPath E i) else None"
  let ?s = "(new_stream ?path)\<lparr>st_frameworkId := F\<rparr>"
  obtain r fs where r: "create io F ?path (mg_files m) = (r, fs)"
    by fastforce
  consider e where "r = Error e" "fs = mg_files m"
    | "r = Ok ?s" "\<And>f. ?path = Some f \<Longrightarrow> fs f = Some []" "\<And>g. ?path \<noteq> Some g \<Longrightarrow> fs g = mg_files m g"
    using r by (auto simp: create_def split: option.splits if_splits)
  then show ?thesis
  proof cases
    case 1
    then show ?thesis
      using r by (intro error) (simp add: createStatusUpdateStream_def)
  next
    case 2
    let ?m = "put_stream i ?s (m\<lparr>mg_files := fs, mg_frameworkStreams := add_framework i F (mg_frameworkStreams m)\<rparr>)"
    have inv: "manager_inv E m"
      using m by (simp add: manager_ok_def)
    have "file_ok E ?s [] []"
      unfolding file_ok_def
      by (intro exI [of _ "[]"] exI [of _ "new_stream ?path"]) (simp add: same_stream_def new_stream_def)
    then have s: "stream_inv E ?s fs [] []"
      using 2(2) by (auto simp: stream_inv_def stream_ok_def new_stream_def)
    have "manager_inv E ?m"
      by (rule manager_set [OF E inv s])
        (use 2(3) frameworks_ok_add [OF manager_frameworks [OF inv] i, of ?s] in \<open>auto simp: new_stream_def split: if_splits\<close>)
    moreover have "mg_paused ?m \<or> armed ?m"
      using m by (auto simp: manager_ok_def armed_off_def armed_stream_def new_stream_def)
    moreover have "createStatusUpdateStream E io i F checkpoint m = (Ok (), ?m)"
      using r 2(1) by (cases F) (simp_all add: createStatusUpdateStream_def add_framework_def put_stream_def Let_def)
    ultimately show ?thesis
      using m by (intro created [of ?m ?s]) (simp_all add: manager_ok_def new_stream_def live_off_def)
  qed
qed

lemma manager_put_ok:
  assumes E: "env_ok E" and m: "manager_ok E m" and s0: "mg_streams m i = Some s0"
    and s: "stream_inv E s fs H A" "st_path s = st_path s0" "st_frameworkId s = st_frameworkId s0"
      "st_pending s = [] \<Longrightarrow> st_timeout s = None" "mg_paused m \<or> armed_stream m i s" "\<not> st_terminated s"
    and fs: "\<And>g. st_path s0 \<noteq> Some g \<Longrightarrow> fs g = mg_files m g"
  shows "manager_ok E (put_stream i s (m\<lparr>mg_files := fs\<rparr>))"
proof -
  have "manager_inv E (put_stream i s (m\<lparr>mg_files := fs\<rparr>))"
    using m manager_put [OF E _ s0 s(1-4) fs] by (simp add: manager_ok_def)
  then show ?thesis
    using m s(5,6) armed_put [of m i s fs] by (auto simp: manager_ok_def live_off_def)
qed

lemma stream_state_ok:
  assumes m: "manager_ok E m" and s: "mg_streams m i = Some s"
  shows "mg_paused m \<or> armed_stream m i s" "\<not> st_terminated s"
  using assms by (auto simp: manager_ok_def armed_off_def live_off_def)

lemma live_put: "live_off X m \<Longrightarrow> live_off (insert i X) (put_stream i s (m\<lparr>mg_files := fs\<rparr>))"
  by (auto simp: live_off_def)

lemma armed_insert:
  assumes "\<And>s. mg_streams m i = Some s \<Longrightarrow> armed_stream m i s" "armed_off (insert i X) m"
  shows "armed_off X m"
  unfolding armed_off_def
proof (intro allI impI)
  fix j s' assume "j \<notin> X" "mg_streams m j = Some s'"
  then show "armed_stream m j s'"
    using assms by (cases "j = i") (auto simp: armed_off_def)
qed

lemma armed_remove:
  assumes "mg_streams m' = (mg_streams m)(i := None)" "mg_timers m' = mg_timers m" "armed_off {i} m"
  shows "armed m'"
  using assms by (auto simp: armed_off_def armed_stream_def split: if_splits)

lemma forward_armed:
  assumes E: "env_ok E" and m: "manager_inv E m" and s: "mg_streams m i = Some s" "st_pending s = u # us"
    and p: "\<not> mg_paused m" and a: "armed_off {i} m" and l: "live m"
  obtains m' where "forward_stream i s u d m = (Ok (), m')" "manager_ok E m'" "forwards m m'"
proof -
  obtain m' where m': "forward_stream i s u d m = (Ok (), m')" "manager_inv E m'" "pend m' = pend m"
    "\<forall>X. armed_off (insert i X) m \<longrightarrow> armed_off X m'" "\<not> mg_paused m'"
    "mg_streams m' = (mg_streams m)(i \<mapsto> s\<lparr>st_timeout := Some (Timeout_in (mg_now m) d)\<rparr>)"
    "mg_forwarded m' = mg_forwarded m @ [latest (pend m' i)]"
    "mg_timers m' = mg_timers m @ [(i, d, Timeout_in (mg_now m) d)]" "mg_files m' = mg_files m"
    using forward_ok [OF E m s p, of d] .
  have "pend m' i = u # us"
    using m'(3) s by (simp add: pend_def)
  then have "forwards m m'"
    using forwards_one [OF m'(7)] by simp
  moreover have "manager_ok E m'"
    using m'(2,4,6) a l s(1) by (auto simp: manager_ok_def live_off_def)
  ultimately show ?thesis
    using that [OF m'(1)] by simp
qed

lemma accept_ok:
  assumes E: "env_ok E" and m: "manager_ok E m" and s: "mg_streams m i = Some s"
    and u: "update_uuid E u = Ok x" "um_framework_id u = st_frameworkId s" "proper E u"
    and run: "accept_update E io u i s m = (r, m')"
  shows "r \<noteq> Abort \<and> manager_ok E m' \<and> forwards m m'"
proof -
  have inv: "manager_inv E m"
    using m by (simp add: manager_ok_def)
  obtain H A where sinv: "stream_inv E s (mg_files m) H A" and
    none: "st_pending s = [] \<Longrightarrow> st_timeout s = None"
    using manager_entryE [OF inv s] by blast
  have same: "put_stream i s (m\<lparr>mg_files := mg_files m\<rparr>) = m"
    using s by (simp add: put_stream_def fun_upd_idem)
  show ?thesis
  proof (cases rule: stream_update_ok [OF sinv u, of io])
    case (1 e)
    then show ?thesis
      using run same m by (auto simp: accept_update_def forwards_refl)
  next
    case 2
    then show ?thesis
      using run same m by (auto simp: accept_update_def forwards_refl)
  next
    case (4 e fs)
    have "manager_ok E (put_stream i (s\<lparr>st_error := Some e\<rparr>) (m\<lparr>mg_files := fs\<rparr>))"
      by (rule manager_put_ok [OF E m s 4(2)])
        (use none 4(3) stream_state_ok(2) [OF m s] in \<open>simp_all add: armed_stream_def\<close>)
    then show ?thesis
      using run 4(1) by (auto simp: accept_update_def forwards_refl)
  next
    case (3 s' fs)
    let ?m = "put_stream i s' (m\<lparr>mg_files := fs\<rparr>)"
    have inv': "manager_inv E ?m"
      by (rule manager_put [OF E inv s 3(2)]) (use none 3 in simp_all)
    show ?thesis
    proof (cases "\<not> mg_paused m \<and> length (st_pending s') = 1")
      case False
      then have m': "r = Ok ()" "m' = ?m"
        using run 3(1) by (auto simp: accept_update_def Let_def)
      have "mg_paused m \<or> armed_stream m i s'"
        using False stream_state_ok(1) [OF m s] 3 by (auto simp: armed_stream_def)
      then have "manager_ok E ?m"
        by (intro manager_put_ok [OF E m s 3(2)]) (use none 3 stream_state_ok(2) [OF m s] in simp_all)
      then show ?thesis
        using m' by (simp add: forwards_refl)
    next
      case True
      then have p: "st_pending s' = [u]" "st_pending s = []"
        using 3(10) by auto
      have "mg_streams ?m i = Some s'" "\<not> mg_paused ?m" "armed_off {i} ?m" "live ?m"
        using m True 3(11) stream_state_ok(2) [OF m s] armed_off_put [of "{}" m i s' fs]
        by (auto simp: manager_ok_def live_off_def)
      then obtain m'' where "forward_stream i s' u STATUS_UPDATE_RETRY_INTERVAL_MIN ?m = (Ok (), m'')"
        "manager_ok E m''" "forwards ?m m''"
        using forward_armed [OF E inv' _ p(1)] by blast
      moreover have "accept_update E io u i s m = forward_stream i s' u STATUS_UPDATE_RETRY_INTERVAL_MIN ?m"
        using 3 p True none by (simp add: accept_update_def stream_next_def)
      ultimately show ?thesis
        using run by (simp add: forwards_def)
    qed
  qed
qed

lemma manager_update_ok:
  assumes E: "env_ok E" and m: "manager_ok E m"
    and u: "update_uuid E u = Ok x" "\<forall>t. fits E (checkpoint_record u t)"
    and run: "manager_update E io u i checkpoint m = (r, m')"
  shows "r \<noteq> Abort \<and> manager_ok E m' \<and> forwards m m'"
proof -
  have existing: "r \<noteq> Abort \<and> manager_ok E m' \<and> forwards m1 m'"
    if m1: "manager_ok E m1" "mg_streams m1 i = Some s"
      and run: "manager_update E io u i checkpoint m1 = (r, m')" for m1 s
  proof (cases "um_latest_status u = None \<and> checkpointed s = checkpoint \<and> um_framework_id u = st_frameworkId s")
    case True
    then have "accept_update E io u i s m1 = (r, m')"
      using run m1(2) by (simp add: manager_update_def)
    then show ?thesis
      using True u by (intro accept_ok [OF E m1 u(1)]) (simp_all add: proper_def)
  next
    case False
    then have "m' = m1 \<and> r \<noteq> Abort"
      using run m1(2) by (auto simp: manager_update_def split: if_splits)
    then show ?thesis
      using m1 by (simp add: forwards_refl)
  qed
  show ?thesis
  proof (cases "mg_streams m i")
    case (Some s)
    then show ?thesis
      using existing [OF m _ run] by blast
  next
    case None
    then show ?thesis
    proof (cases rule: create_ok [OF E m, of i io "um_framework_id u" checkpoint, case_names i error created])
      case (error e)
      then show ?thesis
        using run m None by (auto simp: manager_update_def forwards_refl)
    next
      case (created s m1)
      have "manager_update E io u i checkpoint m = manager_update E io u i checkpoint m1"
        using created(1,3) None by (simp add: manager_update_def)
      then have "r \<noteq> Abort \<and> manager_ok E m' \<and> forwards m1 m'"
        using existing [OF created(2,3)] run by simp
      then show ?thesis
        using created(6) by (simp add: forwards_def)
    qed simp
  qed
qed

lemma acknowledged_ok:
  assumes E: "env_ok E" and m: "manager_inv E m" and s: "mg_streams m i = Some s" "st_error s = None"
    and a: "mg_paused m \<or> armed_off {i} m" and l: "live_off {i} m"
    and run: "(if st_terminated s
               then
                 (case cleanupStatusUpdateStream i m of
                    (Ok _, m) \<Rightarrow> (Ok False, m) | (Error e, m) \<Rightarrow> (Error e, m) | (Abort, m) \<Rightarrow> (Abort, m))
               else
                 (case st_pending s of
                    [] \<Rightarrow> (Ok True, m)
                  | u # us \<Rightarrow>
                      if mg_paused m then (Ok True, m)
                      else
                        (case forward_stream i s u STATUS_UPDATE_RETRY_INTERVAL_MIN m of
                           (Ok _, m) \<Rightarrow> (Ok True, m) | (Error e, m) \<Rightarrow> (Error e, m) | (Abort, m) \<Rightarrow> (Abort, m)))) =
              (r, m')"
  shows "r \<noteq> Abort \<and> manager_ok E m' \<and> forwards m m'"
proof (cases "st_terminated s")
  case True
  obtain m1 where m1: "cleanupStatusUpdateStream i m = (Ok (), m1)" "manager_inv E m1"
    "mg_streams m1 = (mg_streams m)(i := None)" "mg_paused m1 = mg_paused m" "mg_timers m1 = mg_timers m"
    "mg_forwarded m1 = mg_forwarded m" "mg_files m1 = mg_files m"
    using cleanup_ok [OF m s(1)] .
  have "manager_ok E m1"
    using a l armed_remove [OF m1(3,5)] m1(2-4) by (auto simp: manager_ok_def live_off_def)
  then show ?thesis
    using run True m1(1,6) by (auto simp: forwards_refl)
next
  case live: False
  then have l': "live m"
    using l s(1) by (force simp: live_off_def)
  show ?thesis
  proof (cases "st_pending s")
    case Nil
    then have "armed_stream m i s"
      by (simp add: armed_stream_def)
    then have "mg_paused m \<or> armed m"
      using a s(1) armed_insert [of m i "{}"] by auto
    then show ?thesis
      using run live Nil m l' by (auto simp: manager_ok_def forwards_refl)
  next
    case (Cons u us)
    show ?thesis
    proof (cases "mg_paused m")
      case True
      then show ?thesis
        using run live Cons m l' by (auto simp: manager_ok_def forwards_refl)
    next
      case False
      then obtain m1 where "forward_stream i s u STATUS_UPDATE_RETRY_INTERVAL_MIN m = (Ok (), m1)"
        "manager_ok E m1" "forwards m m1"
        using forward_armed [OF E m s(1) Cons] a l' by blast
      then show ?thesis
        using run live Cons False by auto
    qed
  qed
qed

lemma acknowledgement_ok:
  assumes E: "env_ok E" and m: "manager_ok E m" and run: "manager_acknowledgement E io i uuid m = (r, m')"
  shows "r \<noteq> Abort \<and> manager_ok E m' \<and> forwards m m'"
proof (cases "mg_streams m i")
  case None
  then show ?thesis
    using run m by (auto simp: manager_acknowledgement_def forwards_refl)
next
  case s: (Some s)
  have inv: "manager_inv E m"
    using m by (simp add: manager_ok_def)
  obtain H A where sinv: "stream_inv E s (mg_files m) H A" and
    none: "st_pending s = [] \<Longrightarrow> st_timeout s = None"
    using manager_entryE [OF inv s] by blast
  have same: "put_stream i s (m\<lparr>mg_files := mg_files m\<rparr>) = m"
    using s by (simp add: put_stream_def fun_upd_idem)
  show ?thesis
  proof (cases rule: stream_acknowledgement_ok [OF sinv, of io uuid])
    case (1 e)
    then show ?thesis
      using run same m s by (auto simp: manager_acknowledgement_def forwards_refl)
  next
    case 2
    then show ?thesis
      using run same m s by (auto simp: manager_acknowledgement_def forwards_refl)
  next
    case (4 e fs)
    have "manager_ok E (put_stream i (s\<lparr>st_error := Some e\<rparr>) (m\<lparr>mg_files := fs\<rparr>))"
      by (rule manager_put_ok [OF E m s 4(2)])
        (use none 4(3) stream_state_ok(2) [OF m s] in \<open>simp_all add: armed_stream_def\<close>)
    then show ?thesis
      using run 4(1) s by (auto simp: manager_acknowledgement_def forwards_refl)
  next
    case (3 s' fs u)
    let ?s = "s'\<lparr>st_timeout := None\<rparr>"
    let ?m = "put_stream i ?s (m\<lparr>mg_files := fs\<rparr>)"
    have inv': "manager_inv E ?m"
      by (rule manager_put [OF E inv s, of _ _ H "A @ [u]"]) (use 3 in simp_all)
    have "mg_paused ?m \<or> armed_off {i} ?m"
      using m armed_off_put [of "{}" m i ?s fs] by (auto simp: manager_ok_def)
    then have "r \<noteq> Abort \<and> manager_ok E m' \<and> forwards ?m m'"
      using run 3(1,6) s m live_put [of "{}" m i ?s fs]
      by (intro acknowledged_ok [OF E inv', of i ?s])
        (auto simp: manager_acknowledgement_def stream_next_def Let_def manager_ok_def split: list.splits)
    then show ?thesis
      by (simp add: forwards_def)
  qed
qed

end
