(* ===== verification/Status_Run.thy ===== *)
theory Status_Run
  imports Status_Manager
begin

section \<open>Executions of the status update manager\<close>

text \<open>
  Timers, the loops of the manager and its recovery keep the invariant of \<open>Status_Manager\<close>. A request
  is one call, one timer that fires, the passing of time, or a restart that recovers the streams from
  their files; the executions of the manager are the sequences of requests.
\<close>

subsection \<open>Timers\<close>

lemma timer_kept:
  assumes a: "armed m" and ts: "mg_timers m = ts1 @ (i, d, t) # ts2"
  shows "armed_off {i} (m\<lparr>mg_timers := ts1 @ ts2\<rparr>)"
  unfolding armed_off_def
proof (intro allI impI)
  fix j s assume j: "j \<notin> {i}" "mg_streams (m\<lparr>mg_timers := ts1 @ ts2\<rparr>) j = Some s"
  then have "armed_stream m j s"
    using a by (simp add: armed_off_def)
  then show "armed_stream (m\<lparr>mg_timers := ts1 @ ts2\<rparr>) j s"
    using j ts by (auto simp: armed_stream_def)
qed

lemma timeout_ok:
  assumes E: "env_ok E" and m: "manager_ok E m" and ts: "mg_timers m = ts1 @ (i, d, t) # ts2" and t: "t \<le> mg_now m"
    and run: "manager_timeout i d (m\<lparr>mg_timers := ts1 @ ts2\<rparr>) = (r, m')"
  shows "if r = Abort then \<exists>s. mg_streams m i = Some s \<and> st_error s \<noteq> None \<and> st_timeout s = None
    else manager_ok E m' \<and> forwards m m'"
proof -
  let ?m = "m\<lparr>mg_timers := ts1 @ ts2\<rparr>"
  have inv: "manager_inv E ?m"
    using m by (simp add: manager_ok_def)
  have idle: "manager_ok E ?m \<and> forwards m ?m"
    if "mg_paused m \<or> (\<forall>s. mg_streams m i = Some s \<longrightarrow> armed_stream ?m i s)"
  proof -
    have "mg_paused m \<or> armed ?m"
      using that m timer_kept [OF _ ts] armed_insert [of ?m i "{}"] by (auto simp: manager_ok_def)
    then show ?thesis
      using inv m by (simp add: manager_ok_def forwards_refl live_off_def)
  qed
  consider (idle) "mg_paused m \<or> mg_streams m i = None \<or> pend m i = []"
    | (pending) s u us where "\<not> mg_paused m" "mg_streams m i = Some s" "st_pending s = u # us"
    by (cases "mg_streams m i"; cases "pend m i"; cases "mg_paused m") (auto simp: pend_def)
  then show ?thesis
  proof cases
    case 1: idle
    then have "r = Ok ()" "m' = ?m"
      using run by (cases "mg_paused m"; auto simp: manager_timeout_def pend_def split: option.splits)+
    moreover have "mg_paused m \<or> (\<forall>s. mg_streams m i = Some s \<longrightarrow> armed_stream ?m i s)"
      using 1 by (auto simp: pend_def armed_stream_def)
    ultimately show ?thesis
      using idle by simp
  next
    case (pending s u us)
    have armed: "armed m"
      using m pending(1) by (simp add: manager_ok_def)
    then have a: "armed_stream m i s"
      using pending(2) by (simp add: armed_off_def)
    show ?thesis
    proof (cases "st_timeout s")
      case None
      then have "r = Abort"
        using run pending by (simp add: manager_timeout_def)
      moreover have "st_error s \<noteq> None"
        using a pending None by (auto simp: armed_stream_def)
      ultimately show ?thesis
        using pending None by auto
    next
      case (Some t')
      show ?thesis
      proof (cases "t' \<le> mg_now m")
        case True
        then obtain m1 where "forward_stream i s u (min (d * 2) STATUS_UPDATE_RETRY_INTERVAL_MAX) ?m = (Ok (), m1)"
          "manager_ok E m1" "forwards ?m m1"
          using forward_armed [OF E inv _ pending(3)] pending timer_kept [OF armed ts] m
          by (auto simp: manager_ok_def live_off_def)
        then show ?thesis
          using run True Some pending by (auto simp: manager_timeout_def forwards_def)
      next
        case False
        then have "r = Ok ()" "m' = ?m"
          using run Some pending by (simp_all add: manager_timeout_def)
        moreover have "armed_stream ?m i s"
          using a pending Some False t ts by (auto simp: armed_stream_def)
        ultimately show ?thesis
          using idle pending by auto
      qed
    qed
  qed
qed

subsection \<open>The loops over the streams\<close>

definition order_ok :: "('id set \<Rightarrow> 'id list) \<Rightarrow> bool" where
  "order_ok ord \<longleftrightarrow> (\<forall>S. finite S \<longrightarrow> set (ord S) = S \<and> distinct (ord S))"

lemma forwards_trans:
  assumes "forwards m m1" "forwards m1 m'" "pend m' = pend m1"
  shows "forwards m m'"
  using assms by (auto simp: forwards_def)

lemma resume_streams_ok:
  assumes E: "env_ok E" and "manager_inv E m" "\<not> mg_paused m" "armed_off (set is) m" "live m"
  shows "\<exists>m'. resume_streams is m = (Ok (), m') \<and> manager_inv E m' \<and> armed m' \<and> live m' \<and> forwards m m' \<and> pend m' = pend m"
  using assms(2-)
proof (induction "is" arbitrary: m)
  case Nil
  then show ?case
    by (auto simp: forwards_refl)
next
  case (Cons i "is")
  have skip: ?case
    if s: "\<And>s. mg_streams m i = Some s \<Longrightarrow> armed_stream m i s" and run: "resume_streams (i # is) m = resume_streams is m"
  proof -
    have "armed_off (set is) m"
      by (rule armed_insert [OF s]) (use Cons.prems(3) in simp_all)
    then show ?thesis
      using Cons.IH [OF Cons.prems(1,2)] Cons.prems(4) run by simp
  qed
  show ?case
  proof (cases "mg_streams m i")
    case None
    then show ?thesis
      by (intro skip) simp_all
  next
    case (Some s)
    show ?thesis
    proof (cases "st_error s = None \<and> st_pending s \<noteq> []")
      case False
      then show ?thesis
        using Some by (intro skip) (auto simp: armed_stream_def stream_next_def split: option.splits)
    next
      case True
      then obtain u us where u: "st_pending s = u # us"
        by (cases "st_pending s") auto
      obtain m1 where m1: "forward_stream i s u STATUS_UPDATE_RETRY_INTERVAL_MIN m = (Ok (), m1)" "manager_inv E m1"
        "pend m1 = pend m" "\<forall>X. armed_off (insert i X) m \<longrightarrow> armed_off X m1" "\<not> mg_paused m1"
        "mg_streams m1 = (mg_streams m)(i \<mapsto> s\<lparr>st_timeout := Some (Timeout_in (mg_now m) STATUS_UPDATE_RETRY_INTERVAL_MIN)\<rparr>)"
        "mg_forwarded m1 = mg_forwarded m @ [latest (pend m1 i)]"
        "mg_timers m1 = mg_timers m @ [(i, STATUS_UPDATE_RETRY_INTERVAL_MIN, Timeout_in (mg_now m) STATUS_UPDATE_RETRY_INTERVAL_MIN)]"
        "mg_files m1 = mg_files m"
        using forward_ok [OF E Cons.prems(1) Some u Cons.prems(2), of STATUS_UPDATE_RETRY_INTERVAL_MIN] .
      have f: "forwards m m1"
        using forwards_one [OF m1(7)] m1(3) Some u by (simp add: pend_def)
      have l: "live m1"
        using Cons.prems(4) m1(6) Some by (auto simp: live_off_def)
      obtain m' where m': "resume_streams is m1 = (Ok (), m')" "manager_inv E m'" "armed m'" "forwards m1 m'" "pend m' = pend m1"
        "live m'"
        using Cons.IH [OF m1(2,5) _ l] m1(4) Cons.prems(3) by auto
      have "resume_streams (i # is) m = (Ok (), m')"
        using Some True u m1(1) m'(1) by (simp add: stream_next_def)
      then show ?thesis
        using m' forwards_trans [OF f m'(4,5)] m1(3) by simp
    qed
  qed
qed

lemma resume_ok:
  assumes E: "env_ok E" and ord: "order_ok ord" and m: "manager_ok E m" and run: "manager_resume ord m = (r, m')"
  shows "r \<noteq> Abort \<and> manager_ok E m' \<and> forwards m m'"
proof -
  let ?m = "m\<lparr>mg_paused := False\<rparr>"
  have inv: "manager_inv E ?m"
    using m by (simp add: manager_ok_def)
  have off: "\<not> mg_paused ?m" "armed_off (set (ord (dom (mg_streams m)))) ?m" "live ?m"
    using ord inv m by (auto simp: manager_inv_def order_ok_def armed_off_def manager_ok_def live_off_def)
  obtain m1 where "resume_streams (ord (dom (mg_streams m))) ?m = (Ok (), m1)" "manager_inv E m1" "armed m1"
    "forwards ?m m1" "live m1"
    using resume_streams_ok [OF E inv off] by blast
  then show ?thesis
    using run by (auto simp: manager_resume_def manager_ok_def forwards_def)
qed

lemma cleanup_streams_ok:
  assumes "manager_ok E m" "set is \<subseteq> dom (mg_streams m)" "distinct is"
  shows "\<exists>m'. cleanup_streams is m = (Ok (), m') \<and> manager_ok E m' \<and> mg_forwarded m' = mg_forwarded m \<and>
    mg_files m' = mg_files m \<and> mg_streams m' = mg_streams m |` (- set is)"
  using assms
proof (induction "is" arbitrary: m)
  case Nil
  then show ?case
    by (simp add: restrict_map_def)
next
  case (Cons i "is")
  then obtain s where s: "mg_streams m i = Some s"
    by auto
  have inv: "manager_inv E m"
    using Cons.prems(1) by (simp add: manager_ok_def)
  obtain m1 where m1: "cleanupStatusUpdateStream i m = (Ok (), m1)" "manager_inv E m1"
    "mg_streams m1 = (mg_streams m)(i := None)" "mg_paused m1 = mg_paused m" "mg_timers m1 = mg_timers m"
    "mg_forwarded m1 = mg_forwarded m" "mg_files m1 = mg_files m"
    using cleanup_ok [OF inv s] .
  have "mg_paused m \<or> armed_off {i} m"
    using Cons.prems(1) by (auto simp: manager_ok_def armed_off_def)
  then have ok: "manager_ok E m1"
    using m1(2-4) armed_remove [OF m1(3,5)] Cons.prems(1) by (auto simp: manager_ok_def live_off_def)
  have "set is \<subseteq> dom (mg_streams m1)" "distinct is"
    using Cons.prems(2,3) m1(3) by auto
  then obtain m' where "cleanup_streams is m1 = (Ok (), m')" "manager_ok E m'" "mg_forwarded m' = mg_forwarded m1"
    "mg_files m' = mg_files m1" "mg_streams m' = mg_streams m1 |` (- set is)"
    using Cons.IH [OF ok] by blast
  then show ?case
    using m1 by (auto simp: restrict_map_def fun_eq_iff)
qed

lemma manager_cleanup_ok:
  assumes ord: "order_ok ord" and m: "manager_ok E m" and run: "manager_cleanup ord F m = (r, m')"
  shows "r \<noteq> Abort \<and> manager_ok E m' \<and> forwards m m'"
proof (cases "mg_frameworkStreams m F")
  case None
  then show ?thesis
    using run m by (auto simp: manager_cleanup_def forwards_refl)
next
  case (Some S)
  have inv: "manager_inv E m"
    using m by (simp add: manager_ok_def)
  have "\<exists>s. mg_streams m i = Some s" if "i \<in> S" for i
    using manager_frameworks [OF inv] Some that unfolding frameworks_ok_def by blast
  then have S: "S \<subseteq> dom (mg_streams m)"
    by auto
  then have "finite S"
    using inv by (auto simp: manager_inv_def intro: finite_subset)
  then have order: "set (ord S) \<subseteq> dom (mg_streams m)" "distinct (ord S)"
    using ord S by (simp_all add: order_ok_def)
  show ?thesis
    using cleanup_streams_ok [OF m order] run Some by (auto simp: manager_cleanup_def forwards_refl)
qed

subsection \<open>Recovery\<close>

lemma forward_stream_put:
  "\<not> mg_paused m \<Longrightarrow> um_latest_status u = None \<Longrightarrow>
   forward_stream i s u d (put_stream i s m) = forward_stream i s u d m"
  by (simp add: forward_stream_def forward_def put_stream_def Let_def)

lemma manager_files:
  assumes E: "env_ok E" and m: "manager_ok E m" and i: "mg_streams m i = None"
    and fs: "\<And>g. g \<noteq> getPath E i \<Longrightarrow> fs g = mg_files m g" and d: "disk_ok E fs"
  shows "manager_ok E (m\<lparr>mg_files := fs\<rparr>)"
proof -
  have "entry_ok E fs j s" if j: "mg_streams m j = Some s" for j s
  proof (rule entry_ok_frame)
    show "entry_ok E (mg_files m) j s"
      using m j by (simp add: manager_ok_def manager_inv_def)
    show "fs (getPath E j) = mg_files m (getPath E j)"
      using i j fs getPath_inj [OF E, of j i] by auto
  qed
  then show ?thesis
    using m d by (auto simp: manager_ok_def manager_inv_def armed_off_def armed_stream_def live_off_def)
qed

text \<open>A stream whose file was replayed enters the map, and its first pending update is sent.\<close>

lemma restored_ok:
  assumes E: "env_ok E" and m: "manager_ok E m" and i: "mg_streams m i = None"
    and rec: "stream_recover E io (getPath E i) strict (mg_files m) = (Ok (Some (s, st)), fs)"
    and s: "stream_inv E s fs H A" "st_error s = None" "st_timeout s = None" "st_path s = Some (getPath E i)"
    and fs: "\<And>g. g \<noteq> getPath E i \<Longrightarrow> fs g = mg_files m g" and live: "\<not> st_terminated s"
  obtains m' t where "recoverStatusUpdateStream E io i strict m = (Ok (Some st), m')" "manager_ok E m'"
    "mg_streams m' = (mg_streams m)(i \<mapsto> s\<lparr>st_timeout := t\<rparr>)"
    "mg_forwarded m' = mg_forwarded m @ (if mg_paused m \<or> st_pending s = [] then [] else [latest (st_pending s)])"
    "mg_paused m' = mg_paused m" "mg_files m' = fs"
proof -
  have inv: "manager_inv E m"
    using m by (simp add: manager_ok_def)
  define n where "n = m\<lparr>mg_files := fs, mg_frameworkStreams := add_framework i (st_frameworkId s) (mg_frameworkStreams m)\<rparr>"
  have inv': "manager_inv E (put_stream i s n)"
    unfolding n_def
    by (rule manager_set [OF E inv s(1)]) (use s fs frameworks_ok_add [OF manager_frameworks [OF inv] i] in auto)
  have off: "mg_paused m \<or> armed_off {i} (put_stream i s n)"
    using m by (auto simp: manager_ok_def armed_off_def armed_stream_def n_def)
  have same: "mg_streams n = mg_streams m" "mg_paused n = mg_paused m" "mg_forwarded n = mg_forwarded m" "mg_files n = fs"
    by (simp_all add: n_def)
  have run: "recoverStatusUpdateStream E io i strict m =
      (case st_pending s of
         [] \<Rightarrow> (Ok (Some st), put_stream i s n)
       | u # us \<Rightarrow>
           if mg_paused m then (Ok (Some st), put_stream i s n)
           else
             (case forward_stream i s u STATUS_UPDATE_RETRY_INTERVAL_MIN n of
                (Ok _, m) \<Rightarrow> (Ok (Some st), m) | (Error e, m) \<Rightarrow> (Error e, m) | (Abort, m) \<Rightarrow> (Abort, m)))"
    using rec live s(2)
    by (cases "st_frameworkId s"; cases "st_pending s")
      (simp_all add: recoverStatusUpdateStream_def stream_next_def add_framework_def n_def Let_def)
  show ?thesis
  proof (cases "mg_paused m \<or> st_pending s = []")
    case True
    then have "recoverStatusUpdateStream E io i strict m = (Ok (Some st), put_stream i s n)"
      using run by (auto split: list.splits)
    moreover have "mg_paused m \<or> armed (put_stream i s n)"
      using True off armed_insert [of "put_stream i s n" i "{}"] by (auto simp: armed_stream_def)
    moreover have "s\<lparr>st_timeout := None\<rparr> = s"
      using s(3) by (cases s) simp
    ultimately show ?thesis
      using True inv' same m live by (intro that [of "put_stream i s n" None]) (simp_all add: manager_ok_def live_off_def)
  next
    case False
    then obtain u us where u: "st_pending s = u # us"
      by (cases "st_pending s") auto
    have "um_latest_status u = None"
      by (rule head_proper [OF inv', of i s u us]) (use u in simp_all)
    then have eq: "forward_stream i s u STATUS_UPDATE_RETRY_INTERVAL_MIN n =
        forward_stream i s u STATUS_UPDATE_RETRY_INTERVAL_MIN (put_stream i s n)"
      using False same by (simp add: forward_stream_put)
    have "mg_streams (put_stream i s n) i = Some s" "\<not> mg_paused (put_stream i s n)"
      using False same by simp_all
    then obtain m1 where m1: "forward_stream i s u STATUS_UPDATE_RETRY_INTERVAL_MIN (put_stream i s n) = (Ok (), m1)"
      "manager_inv E m1" "pend m1 = pend (put_stream i s n)"
      "\<forall>X. armed_off (insert i X) (put_stream i s n) \<longrightarrow> armed_off X m1" "\<not> mg_paused m1"
      "mg_streams m1 = (mg_streams (put_stream i s n))(i \<mapsto> s\<lparr>st_timeout :=
         Some (Timeout_in (mg_now (put_stream i s n)) STATUS_UPDATE_RETRY_INTERVAL_MIN)\<rparr>)"
      "mg_forwarded m1 = mg_forwarded (put_stream i s n) @ [latest (pend m1 i)]"
      "mg_files m1 = mg_files (put_stream i s n)"
      using forward_ok [OF E inv' _ u, of i STATUS_UPDATE_RETRY_INTERVAL_MIN] by blast
    have "manager_ok E m1"
      using m1(2,4,6) off False m live same(1) by (auto simp: manager_ok_def live_off_def)
    moreover have "pend m1 i = st_pending s"
      using m1(3) by (simp add: pend_def)
    moreover have "recoverStatusUpdateStream E io i strict m = (Ok (Some st), m1)"
      using run u False eq m1(1) by simp
    ultimately show ?thesis
      using m1(5-8) False same by (intro that [of m1]) simp_all
  qed
qed

text \<open>The recovery of one stream touches only its entry and its file.\<close>

definition only_at :: "'id env \<Rightarrow> 'id \<Rightarrow> 'id manager \<Rightarrow> 'id manager \<Rightarrow> bool" where
  "only_at E i m m' \<longleftrightarrow>
     (\<forall>j. j \<noteq> i \<longrightarrow> mg_streams m' j = mg_streams m j) \<and> mg_paused m' = mg_paused m \<and>
     (\<forall>g. g \<noteq> getPath E i \<longrightarrow> mg_files m' g = mg_files m g) \<and> (\<exists>vs. mg_forwarded m' = mg_forwarded m @ vs)"

lemma recover_stream_ok:
  assumes E: "env_ok E" and io: "io_ok io" and m: "manager_ok E m" and i: "mg_streams m i = None"
    and run: "recoverStatusUpdateStream E io i strict m = (r, m')"
  shows "r \<noteq> Abort \<and> manager_ok E m' \<and> only_at E i m m'"
proof (cases "mg_files m (getPath E i)")
  case None
  then have "m' = m\<lparr>mg_files := mg_files m\<rparr> \<and> r \<noteq> Abort"
    using run by (auto simp: recoverStatusUpdateStream_def stream_recover_def split: if_splits)
  then show ?thesis
    using m by (simp add: only_at_def)
next
  case (Some c)
  have d: "disk_ok E (mg_files m)"
    using m by (simp add: manager_ok_def manager_inv_def)
  then obtain s H A where s: "st_path s = Some (getPath E i)" "stream_inv E s (mg_files m) H A"
    using Some unfolding disk_ok_def by blast
  show ?thesis
  proof (cases rule: stream_recover_ok [OF E io s(2,1), of strict, case_names none restored])
    case (none A')
    let ?fs = "(mg_files m)(getPath E i := None)"
    have "disk_ok E ?fs"
      by (rule disk_ok_step [OF E d]) auto
    then have "manager_ok E (m\<lparr>mg_files := ?fs\<rparr>)"
      by (intro manager_files [OF E m i]) simp_all
    then show ?thesis
      using run none(2) by (auto simp: recoverStatusUpdateStream_def only_at_def)
  next
    case (restored H' A' s' fs)
    have d': "disk_ok E fs"
      by (rule disk_ok_step [where i = i, OF E d]) (use restored(4,7,9) in blast)+
    show ?thesis
    proof (cases "st_terminated s'")
      case True
      then have "r \<noteq> Abort" "m' = m\<lparr>mg_files := fs\<rparr>"
        using run restored(3) by (auto simp: recoverStatusUpdateStream_def Let_def)
      then show ?thesis
        using manager_files [OF E m i restored(9) d'] restored(9) by (simp add: only_at_def)
    next
      case False
      then obtain m1 t where "recoverStatusUpdateStream E io i strict m = (Ok (Some
          \<lparr>ss_updates = H', ss_error = False, ss_terminated = st_terminated s'\<rparr>), m1)" "manager_ok E m1"
        "mg_streams m1 = (mg_streams m)(i \<mapsto> s'\<lparr>st_timeout := t\<rparr>)"
        "mg_forwarded m1 = mg_forwarded m @ (if mg_paused m \<or> st_pending s' = [] then [] else [latest (st_pending s')])"
        "mg_paused m1 = mg_paused m" "mg_files m1 = fs"
        using restored_ok [OF E m i restored(3-7,9)] by blast
      then show ?thesis
        using run restored(9) by (auto simp: only_at_def)
    qed
  qed
qed

lemma only_at_disjoint:
  assumes "only_at E i m m'" "i \<notin> set is" "set is \<inter> dom (mg_streams m) = {}"
  shows "set is \<inter> dom (mg_streams m') = {}"
proof -
  have "mg_streams m' j = mg_streams m j" if "j \<in> set is" for j
    using that assms(1,2) by (auto simp: only_at_def)
  then show ?thesis
    using assms(3) by (auto simp: disjoint_iff domIff)
qed

lemma no_streams_no_frameworks:
  assumes "manager_inv E m" "dom (mg_streams m) = {}"
  shows "dom (mg_frameworkStreams m) = {}"
proof (rule ccontr)
  assume "dom (mg_frameworkStreams m) \<noteq> {}"
  then obtain F S where S: "mg_frameworkStreams m F = Some S"
    by blast
  then obtain i where "i \<in> S"
    using manager_frameworks [OF assms(1)] unfolding frameworks_ok_def by blast
  then show False
    using manager_frameworks [OF assms(1)] S assms(2) unfolding frameworks_ok_def by fastforce
qed

lemma recover_streams_ok:
  assumes E: "env_ok E" and io: "\<And>i. io_ok (io i)" and ord: "order_ok ord"
    and "manager_ok E m" "set is \<inter> dom (mg_streams m) = {}" "distinct is"
    and "recover_streams E io ord strict is st m = (r, m')"
  shows "r \<noteq> Abort \<and> manager_ok E m'"
  using assms(4-)
proof (induction "is" arbitrary: m st)
  case Nil
  then show ?case
    by auto
next
  case (Cons i "is")
  obtain q m1 where m1: "recoverStatusUpdateStream E (io i) i strict m = (q, m1)"
    by fastforce
  have "mg_streams m i = None"
    using Cons.prems(2) by auto
  then have ok: "q \<noteq> Abort" "manager_ok E m1" "only_at E i m m1"
    using recover_stream_ok [OF E io Cons.prems(1) _ m1] by auto
  have disj: "set is \<inter> dom (mg_streams m1) = {}"
    using only_at_disjoint [OF ok(3)] Cons.prems(2,3) by simp
  note step = Cons.IH [OF ok(2) disj]
  show ?case
  proof (cases "\<exists>e. q = Error e \<and> strict")
    case False
    then show ?thesis
      using Cons.prems(3,4) m1 ok(1) step by (auto split: outcome.splits option.splits)
  next
    case True
    have fin: "finite (dom (mg_streams m1))"
      using ok(2) by (simp add: manager_ok_def manager_inv_def)
    then have "set (ord (dom (mg_streams m1))) = dom (mg_streams m1)" "distinct (ord (dom (mg_streams m1)))"
      using ord by (simp_all add: order_ok_def)
    then obtain m2 where m2: "cleanup_streams (ord (dom (mg_streams m1))) m1 = (Ok (), m2)" "manager_ok E m2"
      "mg_streams m2 = mg_streams m1 |` (- dom (mg_streams m1))"
      using cleanup_streams_ok [OF ok(2), of "ord (dom (mg_streams m1))"] by auto
    have none: "dom (mg_streams m2) = {}"
      using m2(3) by simp
    then have "dom (mg_frameworkStreams m2) = {}"
      using m2(2) by (intro no_streams_no_frameworks [of E]) (simp_all add: manager_ok_def)
    then show ?thesis
      using True Cons.prems(4) m1 m2(1,2) none by auto
  qed
qed

text \<open>A recovery that succeeds keeps the entries of the streams it does not list.\<close>

lemma recover_streams_other:
  assumes E: "env_ok E" and io: "\<And>i. io_ok (io i)"
    and "manager_ok E m" "set is \<inter> dom (mg_streams m) = {}" "distinct is"
    and "recover_streams E io ord strict is st m = (Ok st', m')" "i \<notin> set is"
  shows "mg_streams m' i = mg_streams m i \<and> ms_streams st' i = ms_streams st i \<and>
    (\<exists>vs. mg_forwarded m' = mg_forwarded m @ vs)"
  using assms(3-)
proof (induction "is" arbitrary: m st)
  case Nil
  then show ?case
    by auto
next
  case (Cons j "is")
  obtain q m1 where m1: "recoverStatusUpdateStream E (io j) j strict m = (q, m1)"
    by fastforce
  have "mg_streams m j = None"
    using Cons.prems(2) by auto
  then have ok: "q \<noteq> Abort" "manager_ok E m1" "only_at E j m m1"
    using recover_stream_ok [OF E io Cons.prems(1) _ m1] by auto
  have disj: "set is \<inter> dom (mg_streams m1) = {}"
    using only_at_disjoint [OF ok(3)] Cons.prems(2,3) by simp
  obtain st1 where st1: "recover_streams E io ord strict is st1 m1 = (Ok st', m')" "ms_streams st1 i = ms_streams st i"
    using Cons.prems(4,5) m1 by (auto split: outcome.splits option.splits if_splits prod.splits)
  have "mg_streams m1 i = mg_streams m i" "\<exists>vs. mg_forwarded m1 = mg_forwarded m @ vs"
    using ok(3) Cons.prems(5) by (auto simp: only_at_def)
  then show ?case
    using Cons.IH [OF ok(2) disj _ st1(1)] Cons.prems(3,5) st1(2) by auto
qed

lemma stream_ok_unique:
  assumes "stream_ok E s H A" "stream_ok E s' H A"
  shows "st_pending s' = st_pending s" "st_received s' = st_received s" "st_acknowledged s' = st_acknowledged s"
    "st_terminated s' = st_terminated s"
proof -
  have "H = A @ st_pending s" "H = A @ st_pending s'"
    using assms by (simp_all add: stream_ok_def)
  then show "st_pending s' = st_pending s"
    by simp
  have "st_received t = {x. Ok x \<in> update_uuid E ` set H}" "st_acknowledged t = {x. Ok x \<in> update_uuid E ` set A}"
    "st_terminated t = (\<exists>u\<in>set A. isTerminalState (os_state (um_status u)))" if "stream_ok E t H A" for t
    using that unfolding stream_ok_def by (simp_all add: set_eq_iff)
  then show "st_received s' = st_received s" "st_acknowledged s' = st_acknowledged s"
    "st_terminated s' = st_terminated s"
    using assms by simp_all
qed

text \<open>The stream that a restart brings back, up to its timeout.\<close>

definition brought_back :: "stream \<Rightarrow> stream \<Rightarrow> bool" where
  "brought_back s s' \<longleftrightarrow> same_stream s s' \<and> st_frameworkId s' = st_frameworkId s \<and> st_error s' = None"

lemma recover_stream_restores:
  assumes E: "env_ok E" and io: "io_ok io" and m: "manager_ok E m" and i: "mg_streams m i = None"
    and s: "stream_inv E s (mg_files m) H A" "st_path s = Some (getPath E i)" "st_error s = None" "\<not> st_terminated s"
    and H: "H \<noteq> []"
  obtains m' s' vs where
    "recoverStatusUpdateStream E io i strict m =
       (Ok (Some \<lparr>ss_updates = H, ss_error = False, ss_terminated = False\<rparr>), m')"
    "mg_streams m' i = Some s'" "brought_back s s'" "mg_forwarded m' = mg_forwarded m @ vs"
    "\<not> mg_paused m \<and> st_pending s \<noteq> [] \<longrightarrow> latest (st_pending s) \<in> set vs"
proof (cases rule: stream_recover_ok [OF E io s(1,2), of strict, case_names none restored])
  case (none A')
  then show ?thesis
    using s(3) H by (simp add: recovered_def)
next
  case (restored H' A' s' fs)
  then have HA: "H' = H" "A' = A"
    using s(3) by (simp_all add: recovered_def)
  have "stream_ok E s H A" "stream_ok E s' H A"
    using s(1) restored(4) HA by (simp_all add: stream_inv_def)
  note same = stream_ok_unique [OF this]
  then have live: "\<not> st_terminated s'"
    using s(4) by simp
  obtain m' t where m': "recoverStatusUpdateStream E io i strict m =
      (Ok (Some \<lparr>ss_updates = H', ss_error = False, ss_terminated = st_terminated s'\<rparr>), m')" "manager_ok E m'"
    "mg_streams m' = (mg_streams m)(i \<mapsto> s'\<lparr>st_timeout := t\<rparr>)"
    "mg_forwarded m' = mg_forwarded m @ (if mg_paused m \<or> st_pending s' = [] then [] else [latest (st_pending s')])"
    "mg_paused m' = mg_paused m" "mg_files m' = fs"
    using restored_ok [OF E m i restored(3-7,9) live] .
  show ?thesis
    by (rule that [of m' "s'\<lparr>st_timeout := t\<rparr>"])
      (use m' HA live same restored(5,7,8) s(2) in \<open>auto simp: brought_back_def same_stream_def\<close>)
qed

lemma recover_streams_restores:
  assumes E: "env_ok E" and io: "\<And>i. io_ok (io i)"
    and "manager_ok E m" "set is \<inter> dom (mg_streams m) = {}" "distinct is"
    and "recover_streams E io ord strict is st m = (Ok st', m')" "i \<in> set is"
    and "stream_inv E s (mg_files m) H A"
    and s: "st_path s = Some (getPath E i)" "st_error s = None" "\<not> st_terminated s" and H: "H \<noteq> []"
  shows "(\<exists>s'. mg_streams m' i = Some s' \<and> brought_back s s') \<and>
    ms_streams st' i = Some (Some \<lparr>ms_updates = H, ms_terminated = False\<rparr>) \<and>
    (\<exists>vs. mg_forwarded m' = mg_forwarded m @ vs \<and>
       (\<not> mg_paused m \<and> st_pending s \<noteq> [] \<longrightarrow> latest (st_pending s) \<in> set vs))"
  using assms(3-8)
proof (induction "is" arbitrary: m st)
  case (Cons j "is")
  obtain q m1 where m1: "recoverStatusUpdateStream E (io j) j strict m = (q, m1)"
    by fastforce
  have j: "mg_streams m j = None"
    using Cons.prems(2) by auto
  then have ok: "q \<noteq> Abort" "manager_ok E m1" "only_at E j m m1"
    using recover_stream_ok [OF E io Cons.prems(1) _ m1] by auto
  have disj: "set is \<inter> dom (mg_streams m1) = {}" and d: "distinct is"
    using only_at_disjoint [OF ok(3)] Cons.prems(2,3) by simp_all
  show ?case
  proof (cases "j = i")
    case False
    obtain st1 where st1: "recover_streams E io ord strict is st1 m1 = (Ok st', m')"
      using Cons.prems(4) m1 by (auto split: outcome.splits option.splits if_splits prod.splits)
    have "mg_files m1 (getPath E i) = mg_files m (getPath E i)"
      using ok(3) False getPath_inj [OF E, of i j] by (auto simp: only_at_def)
    then have s1: "stream_inv E s (mg_files m1) H A"
      using Cons.prems(6) s(1) stream_inv_frame [of s "mg_files m1" "mg_files m" E H A] by simp
    have "i \<in> set is" "mg_paused m1 = mg_paused m" "\<exists>vs. mg_forwarded m1 = mg_forwarded m @ vs"
      using Cons.prems(5) False ok(3) by (auto simp: only_at_def)
    then show ?thesis
      using Cons.IH [OF ok(2) disj d st1 _ s1] by (auto simp: Un_iff)
  next
    case True
    then have i: "mg_streams m i = None"
      using j by simp
    obtain m2 s' vs where m2: "recoverStatusUpdateStream E (io i) i strict m =
        (Ok (Some \<lparr>ss_updates = H, ss_error = False, ss_terminated = False\<rparr>), m2)"
      and r: "mg_streams m2 i = Some s'" "brought_back s s'" "mg_forwarded m2 = mg_forwarded m @ vs"
      "\<not> mg_paused m \<and> st_pending s \<noteq> [] \<longrightarrow> latest (st_pending s) \<in> set vs"
      using recover_stream_restores [OF E io [of i] Cons.prems(1) i Cons.prems(6) s H, of strict] .
    have q: "q = Ok (Some \<lparr>ss_updates = H, ss_error = False, ss_terminated = False\<rparr>)" "m2 = m1"
      using m1 m2 True by simp_all
    let ?st = "st\<lparr>ms_streams := (ms_streams st)(i \<mapsto> Some \<lparr>ms_updates = H, ms_terminated = False\<rparr>)\<rparr>"
    have run: "recover_streams E io ord strict is ?st m1 = (Ok st', m')"
      using Cons.prems(4) m1 q(1) True by simp
    have "i \<notin> set is"
      using Cons.prems(3) True by simp
    from recover_streams_other [OF E io ok(2) disj d run this] obtain ws
      where "mg_streams m' i = mg_streams m1 i" "ms_streams st' i = ms_streams ?st i"
        "mg_forwarded m' = mg_forwarded m @ (vs @ ws)"
      using r(3) q(2) by auto
    then show ?thesis
      using r(1,2,4) q(2) by (intro conjI exI [of _ s'] exI [of _ "vs @ ws"]) simp_all
  qed
qed simp

text \<open>A recovery that is not strict counts the errors and goes on.\<close>

lemma recover_streams_lenient:
  "recover_streams E io ord False is st m = (r, m') \<Longrightarrow> r \<noteq> Abort \<Longrightarrow> \<exists>st'. r = Ok st'"
  by (induction "is" arbitrary: st m) (auto split: outcome.splits option.splits prod.splits)

subsection \<open>Requests\<close>

text \<open>
  A process that starts again has the files of its predecessor; its owner may pause it before the
  recovery.
\<close>

definition restarted :: "bool \<Rightarrow> 'id manager \<Rightarrow> 'id manager" where
  "restarted p m =
     (new_manager (mg_files m) (mg_now m))\<lparr>mg_paused := p, mg_forwarded := mg_forwarded m\<rparr>"

datatype 'id request =
    Receive io Update 'id bool
  | Acknowledge io 'id string
  | CleanUp string
  | Pause
  | Resume
  | Fire nat
  | Wait nat
  | Restart "'id \<Rightarrow> io" bool "'id list" bool

text \<open>The state after a request; \<open>None\<close> is a failed check.\<close>

definition completed :: "'a outcome \<times> 'id manager \<Rightarrow> 'id manager option" where
  "completed x = (case x of (Abort, m) \<Rightarrow> None | (_, m) \<Rightarrow> Some m)"

fun serve :: "'id env \<Rightarrow> ('id set \<Rightarrow> 'id list) \<Rightarrow> 'id request \<Rightarrow> 'id manager \<Rightarrow> 'id manager option" where
  "serve E ord (Receive io u i checkpoint) m = completed (manager_update E io u i checkpoint m)"
| "serve E ord (Acknowledge io i uuid) m = completed (manager_acknowledgement E io i uuid m)"
| "serve E ord (CleanUp F) m = completed (manager_cleanup ord F m)"
| "serve E ord Pause m = Some (manager_pause m)"
| "serve E ord Resume m = completed (manager_resume ord m)"
| "serve E ord (Fire k) m =
     (case mg_timers m ! k of
        (i, d, t) \<Rightarrow>
          completed (manager_timeout i d (m\<lparr>mg_timers := take k (mg_timers m) @ drop (Suc k) (mg_timers m)\<rparr>)))"
| "serve E ord (Wait n) m = Some (m\<lparr>mg_now := mg_now m + n\<rparr>)"
| "serve E ord (Restart io p ids strict) m = completed (manager_recover E io ord ids strict (restarted p m))"

text \<open>
  What the environment guarantees: updates carry a UUID and fit into a record, a timer fires when it is
  due, and a restart lists every stream once and can read the files.
\<close>

fun admissible :: "'id env \<Rightarrow> 'id request \<Rightarrow> 'id manager \<Rightarrow> bool" where
  "admissible E (Receive io u i checkpoint) m =
     ((\<exists>x. update_uuid E u = Ok x) \<and> (\<forall>t. fits E (checkpoint_record u t)))"
| "admissible E (Fire k) m = (k < length (mg_timers m) \<and> snd (snd (mg_timers m ! k)) \<le> mg_now m)"
| "admissible E (Restart io p ids strict) m = (distinct ids \<and> (\<forall>i. io_ok (io i)))"
| "admissible E _ m = True"

fun restarts :: "'id request \<Rightarrow> bool" where
  "restarts (Restart io p ids strict) = True"
| "restarts _ = False"

inductive reachable :: "'id env \<Rightarrow> ('id set \<Rightarrow> 'id list) \<Rightarrow> 'id manager \<Rightarrow> bool"
  for E :: "'id env" and ord :: "'id set \<Rightarrow> 'id list" where
  Initial: "(\<And>i. fs (getPath E i) = None) \<Longrightarrow> reachable E ord (new_manager fs now)"
| Serve: "reachable E ord m \<Longrightarrow> admissible E req m \<Longrightarrow> serve E ord req m = Some m' \<Longrightarrow> reachable E ord m'"

lemma completed_simps:
  "completed (r, m) = None \<longleftrightarrow> r = Abort" "completed (r, m) = Some m' \<longleftrightarrow> r \<noteq> Abort \<and> m' = m"
  by (cases r; auto simp: completed_def)+

lemma new_manager_ok: "(\<And>i. fs (getPath E i) = None) \<Longrightarrow> manager_ok E (new_manager fs now)"
  by (simp add: manager_ok_def manager_inv_def new_manager_def frameworks_ok_def disk_ok_def armed_off_def live_off_def)

lemma restarted_ok: "manager_ok E m \<Longrightarrow> manager_ok E (restarted p m)"
  by (simp add: manager_ok_def manager_inv_def restarted_def new_manager_def frameworks_ok_def armed_off_def live_off_def)

text \<open>A timer of a stream that failed and has no timeout: the only way to fail a check.\<close>

definition stale_timer :: "nat \<Rightarrow> 'id manager \<Rightarrow> bool" where
  "stale_timer k m \<longleftrightarrow>
     (case mg_streams m (fst (mg_timers m ! k)) of
        None \<Rightarrow> False
      | Some s \<Rightarrow> st_error s \<noteq> None \<and> st_timeout s = None)"

lemma fire_ok:
  assumes E: "env_ok E" and m: "manager_ok E m" and k: "k < length (mg_timers m)" "snd (snd (mg_timers m ! k)) \<le> mg_now m"
  shows "case serve E ord (Fire k) m of None \<Rightarrow> stale_timer k m | Some m' \<Rightarrow> manager_ok E m' \<and> forwards m m'"
proof -
  obtain i d t where t: "mg_timers m ! k = (i, d, t)"
    by (cases "mg_timers m ! k") auto
  then have ts: "mg_timers m = take k (mg_timers m) @ (i, d, t) # drop (Suc k) (mg_timers m)"
    using k(1) id_take_nth_drop by metis
  obtain r m' where run: "manager_timeout i d (m\<lparr>mg_timers := take k (mg_timers m) @ drop (Suc k) (mg_timers m)\<rparr>) = (r, m')"
    by fastforce
  have "t \<le> mg_now m"
    using k t by simp
  note ok = timeout_ok [OF E m ts this run]
  show ?thesis
  proof (cases "r = Abort")
    case True
    then show ?thesis
      using ok run t by (auto simp: completed_def stale_timer_def)
  next
    case False
    then have "serve E ord (Fire k) m = Some m'"
      using run t by (simp add: completed_simps)
    then show ?thesis
      using ok False by simp
  qed
qed

lemma serve_ok:
  assumes E: "env_ok E" and ord: "order_ok ord" and m: "manager_ok E m" and req: "admissible E req m"
  shows "case serve E ord req m of
      None \<Rightarrow> \<exists>k. req = Fire k \<and> stale_timer k m
    | Some m' \<Rightarrow> manager_ok E m' \<and> (\<not> restarts req \<longrightarrow> forwards m m')"
proof (cases req)
  case (Receive io u i c)
  obtain r m' where run: "manager_update E io u i c m = (r, m')"
    by fastforce
  obtain x where "update_uuid E u = Ok x" "\<forall>t. fits E (checkpoint_record u t)"
    using req Receive by auto
  note ok = manager_update_ok [OF E m this run]
  then have "serve E ord req m = Some m'"
    using Receive run by (simp add: completed_simps)
  then show ?thesis
    using ok by simp
next
  case (Acknowledge io i uuid)
  obtain r m' where run: "manager_acknowledgement E io i uuid m = (r, m')"
    by fastforce
  note ok = acknowledgement_ok [OF E m run]
  then have "serve E ord req m = Some m'"
    using Acknowledge run by (simp add: completed_simps)
  then show ?thesis
    using ok by simp
next
  case (CleanUp F)
  obtain r m' where run: "manager_cleanup ord F m = (r, m')"
    by fastforce
  note ok = manager_cleanup_ok [OF ord m run]
  then have "serve E ord req m = Some m'"
    using CleanUp run by (simp add: completed_simps)
  then show ?thesis
    using ok by simp
next
  case Resume
  obtain r m' where run: "manager_resume ord m = (r, m')"
    by fastforce
  note ok = resume_ok [OF E ord m run]
  then have "serve E ord req m = Some m'"
    using Resume run by (simp add: completed_simps)
  then show ?thesis
    using ok by simp
next
  case (Fire k)
  then show ?thesis
    using fire_ok [OF E m, of k ord] req by (cases "serve E ord req m") auto
next
  case (Restart io p ids strict)
  obtain r m' where run: "manager_recover E io ord ids strict (restarted p m) = (r, m')"
    by fastforce
  have "r \<noteq> Abort \<and> manager_ok E m'"
    by (rule recover_streams_ok [OF E _ ord restarted_ok [OF m]])
      (use req Restart run in \<open>auto simp: manager_recover_def restarted_def new_manager_def\<close>)
  then show ?thesis
    using Restart run by (simp add: completed_simps split: option.split)
qed (use m in \<open>auto simp: manager_pause_def manager_ok_def armed_off_def armed_stream_def live_off_def forwards_refl\<close>)

lemma reachable_ok:
  assumes E: "env_ok E" and ord: "order_ok ord" and r: "reachable E ord m"
  shows "manager_ok E m"
  using r
proof induction
  case (Initial fs now)
  then show ?case
    by (rule new_manager_ok)
next
  case (Serve m req m')
  then show ?case
    using serve_ok [OF E ord Serve.IH Serve.hyps(2)] by simp
qed

end
