(* ===== verification/Status_Scenario.thy ===== *)
theory Status_Scenario
  imports Status_Run
begin

section \<open>What the status update manager guarantees\<close>

text \<open>
  The properties of the executions of the manager, and an environment in which they are exercised: a
  serialization of records that can be read back, paths for the identifiers, and updates.
\<close>

subsection \<open>An environment\<close>

fun put_string :: "string \<Rightarrow> string" where
  "put_string [] = [CHR 0x00]"
| "put_string (c # cs) = CHR 0x01 # c # put_string cs"

fun get_string :: "string \<Rightarrow> string \<times> string" where
  "get_string (CHR 0x01 # c # cs) = (let (s, r) = get_string cs in (c # s, r))"
| "get_string (x # cs) = ([], cs)"
| "get_string [] = ([], [])"

lemma get_put_string [simp]: "get_string (put_string s @ r) = (s, r)"
  by (induction s) simp_all

fun put_option :: "('a \<Rightarrow> string) \<Rightarrow> 'a option \<Rightarrow> string" where
  "put_option p None = [CHR 0x00]"
| "put_option p (Some x) = CHR 0x01 # p x"

fun get_option :: "(string \<Rightarrow> 'a \<times> string) \<Rightarrow> string \<Rightarrow> 'a option \<times> string" where
  "get_option g (CHR 0x01 # cs) = (let (x, r) = g cs in (Some x, r))"
| "get_option g (c # cs) = (None, cs)"
| "get_option g [] = (None, [])"

lemma get_put_option: "(\<And>x r. g (p x @ r) = (x, r)) \<Longrightarrow> get_option g (put_option p y @ r) = (y, r)"
  by (cases y) simp_all

fun put_state :: "OperationState \<Rightarrow> string" where
  "put_state OPERATION_UNSUPPORTED = ''0''"
| "put_state OPERATION_PENDING = ''1''"
| "put_state OPERATION_FINISHED = ''2''"
| "put_state OPERATION_FAILED = ''3''"
| "put_state OPERATION_ERROR = ''4''"
| "put_state OPERATION_DROPPED = ''5''"
| "put_state OPERATION_UNREACHABLE = ''6''"
| "put_state OPERATION_GONE_BY_OPERATOR = ''7''"
| "put_state OPERATION_RECOVERING = ''8''"
| "put_state OPERATION_UNKNOWN = ''9''"

definition get_state :: "string \<Rightarrow> OperationState \<times> string" where
  "get_state cs =
     (the (map_of [(CHR ''0'', OPERATION_UNSUPPORTED), (CHR ''1'', OPERATION_PENDING), (CHR ''2'', OPERATION_FINISHED),
        (CHR ''3'', OPERATION_FAILED), (CHR ''4'', OPERATION_ERROR), (CHR ''5'', OPERATION_DROPPED),
        (CHR ''6'', OPERATION_UNREACHABLE), (CHR ''7'', OPERATION_GONE_BY_OPERATOR),
        (CHR ''8'', OPERATION_RECOVERING), (CHR ''9'', OPERATION_UNKNOWN)] (hd cs)), tl cs)"

lemma get_put_state [simp]: "get_state (put_state s @ r) = (s, r)"
  by (cases s) (simp_all add: get_state_def)

definition put_status :: "OperationStatus \<Rightarrow> string" where
  "put_status s = put_state (os_state s) @ put_option put_string (os_message s) @ put_option put_string (os_uuid s)"

definition get_status :: "string \<Rightarrow> OperationStatus \<times> string" where
  "get_status cs =
     (let (st, cs) = get_state cs; (m, cs) = get_option get_string cs; (u, cs) = get_option get_string cs
      in (\<lparr>os_state = st, os_message = m, os_uuid = u\<rparr>, cs))"

lemma get_put_status [simp]: "get_status (put_status s @ r) = (s, r)"
  by (cases s) (simp add: get_status_def put_status_def get_put_option)

definition put_update :: "Update \<Rightarrow> string" where
  "put_update u =
     put_option put_string (um_framework_id u) @ put_status (um_status u) @ put_option put_status (um_latest_status u)"

definition get_update :: "string \<Rightarrow> Update \<times> string" where
  "get_update cs =
     (let (f, cs) = get_option get_string cs; (s, cs) = get_status cs; (l, cs) = get_option get_status cs
      in (\<lparr>um_framework_id = f, um_status = s, um_latest_status = l\<rparr>, cs))"

lemma get_put_update [simp]: "get_update (put_update u @ r) = (u, r)"
  by (cases u) (simp add: get_update_def put_update_def get_put_option)

definition put_record :: "CheckpointRecord \<Rightarrow> string" where
  "put_record c =
     (case rc_type c of UPDATE \<Rightarrow> ''U'' | ACK \<Rightarrow> ''A'') @ put_option put_update (rc_update c) @
     put_option put_string (rc_uuid c)"

definition get_record :: "string \<Rightarrow> CheckpointRecord option" where
  "get_record cs =
     (let (u, ds) = get_option get_update (tl cs); (i, es) = get_option get_string ds
      in Some \<lparr>rc_type = (if hd cs = CHR ''U'' then UPDATE else ACK), rc_update = u, rc_uuid = i\<rparr>)"

lemma get_put_record: "get_record (put_record c) = Some c"
proof -
  have "get_option get_string (put_option put_string x) = (x, [])" for x
    using get_put_option [of get_string put_string x "[]"] by simp
  then show ?thesis
    by (cases c) (simp add: get_record_def put_record_def get_put_option split: RecordType.split)
qed

definition example_env :: "nat env" where
  "example_env =
     \<lparr>getPath = (\<lambda>i. replicate i (CHR ''u'')), uuid_version = (\<lambda>_. True), serialize = put_record, parse = get_record\<rparr>"

lemma example_env_ok: "env_ok example_env"
proof -
  have "inj (\<lambda>i. replicate i (CHR ''u''))"
    by (rule inj_onI) (metis length_replicate)
  then show ?thesis
    by (simp add: env_ok_def example_env_def get_put_record)
qed

definition example_order :: "nat set \<Rightarrow> nat list" where
  "example_order = sorted_list_of_set"

lemma example_order_ok: "order_ok example_order"
  by (simp add: order_ok_def example_order_def)

definition example_update :: "char \<Rightarrow> OperationState \<Rightarrow> Update" where
  "example_update c st =
     \<lparr>um_framework_id = Some ''F'',
      um_status = \<lparr>os_state = st, os_message = None, os_uuid = Some (replicate 16 c)\<rparr>, um_latest_status = None\<rparr>"

definition example_io :: io where
  "example_io =
     \<lparr>io_mkdir = None, io_open = None, io_write = None, io_dir_exists = True, io_read = (\<lambda>_. None),
      io_lseek = None, io_ftruncate = None, io_rm = None\<rparr>"

lemma example_io_ok: "io_ok example_io"
  by (simp add: io_ok_def example_io_def)

lemma example_uuid: "update_uuid example_env (example_update c st) = Ok (replicate 16 c)"
  by (simp add: update_uuid_def uuid_get_Ok example_update_def example_env_def)

lemma length_put [simp]: "length (put_string s) = 2 * length s + 1" "length (put_state st) = 1"
  by (induction s) (simp, simp, cases st, simp_all)

lemma example_fits: "fits example_env (checkpoint_record (example_update c st) t)"
  by (cases t)
    (simp_all add: fits_def checkpoint_record_def example_update_def example_env_def put_record_def put_update_def
      put_status_def max_int_def)

subsection \<open>An execution\<close>

abbreviation example_serve :: "nat request \<Rightarrow> nat manager \<Rightarrow> nat manager option" where
  "example_serve \<equiv> serve example_env example_order"

text \<open>
  States with one checkpointed stream: its timeout, updates, acknowledged updates, error and file, and
  what was forwarded. Times are in units of ten seconds.
\<close>

definition example_state ::
  "nat option \<Rightarrow> char list \<Rightarrow> char list \<Rightarrow> string option \<Rightarrow> string \<Rightarrow> bool \<Rightarrow> nat \<Rightarrow> nat list \<Rightarrow> Update list \<Rightarrow> nat manager" where
  "example_state t rs as e c p now ts vs =
     \<lparr>mg_streams = [0 \<mapsto> \<lparr>st_terminated = False, st_frameworkId = Some ''F'',
        st_timeout = map_option (\<lambda>n. n * 10 ^ 10) t,
        st_pending = map (\<lambda>c. example_update c OPERATION_PENDING) (drop (length as) rs), st_path = Some [],
        st_received = replicate 16 ` set rs, st_acknowledged = replicate 16 ` set as, st_error = e\<rparr>],
      mg_frameworkStreams = [''F'' \<mapsto> {0}], mg_paused = p, mg_files = [[] \<mapsto> c], mg_now = now * 10 ^ 10,
      mg_timers = map (\<lambda>n. (0, 10 ^ 10, n * 10 ^ 10)) ts, mg_forwarded = vs\<rparr>"

definition example_record :: "char \<Rightarrow> RecordType \<Rightarrow> string" where
  "example_record c t = frame (serialize example_env (checkpoint_record (example_update c OPERATION_PENDING) t))"

abbreviation example_forwarded :: "char \<Rightarrow> Update" where
  "example_forwarded c \<equiv>
     (example_update c OPERATION_PENDING)\<lparr>um_latest_status := Some (um_status (example_update c OPERATION_PENDING))\<rparr>"

definition receive :: "io \<Rightarrow> char \<Rightarrow> nat request" where
  "receive io c = Receive io (example_update c OPERATION_PENDING) 0 True"

lemma example_path [simp]: "getPath example_env 0 = []"
  by (simp add: example_env_def)

lemma example_io_simps [simp]:
  "io_mkdir example_io = None" "io_open example_io = None" "io_write example_io = None"
  by (simp_all add: example_io_def)

lemma example_update_simps [simp]:
  "um_framework_id (example_update c st) = Some ''F''" "um_latest_status (example_update c st) = None"
  "os_state (um_status (example_update c st)) = st" "os_uuid (um_status (example_update c st)) = Some (replicate 16 c)"
  by (simp_all add: example_update_def)

lemmas example_simps =
  example_state_def example_record_def receive_def manager_update_def createStatusUpdateStream_def create_def
  new_manager_def accept_update_def stream_update_def example_uuid new_stream_def checkpointed_def handle_def
  pb_write_def apply_record_def stream_next_def forward_stream_def forward_def Let_def completed_def put_stream_def
  Timeout_in_def Time_max_def STATUS_UPDATE_RETRY_INTERVAL_MIN_def manager_acknowledgement_def
  stream_acknowledgement_def manager_pause_def manager_resume_def manager_timeout_def

lemma example_first:
  "example_serve (receive example_io c) (new_manager Map.empty 0) =
     Some (example_state (Some 1) [c] [] None (example_record c UPDATE) False 0 [1] [example_forwarded c])"
  by (simp add: example_simps)

lemma example_acknowledge:
  "example_serve (Acknowledge example_io 0 (replicate 16 c)) (example_state t [c] [] None f False now ts vs) =
     Some (example_state None [c] [c] None (f @ example_record c ACK) False now ts vs)"
  by (simp add: example_simps)

lemma example_pause:
  "example_serve Pause (example_state t rs as e f False now ts vs) = Some (example_state t rs as e f True now ts vs)"
  by (simp add: example_simps)

lemma example_queue:
  "c \<noteq> d \<Longrightarrow>
   example_serve (receive example_io d) (example_state None [c] [c] None f True now ts vs) =
     Some (example_state None [c, d] [c] None (f @ example_record d UPDATE) True now ts vs)"
  by (auto simp: example_simps)

definition full_disk :: io where
  "full_disk = example_io\<lparr>io_write := Some (0, ''No space left on device'')\<rparr>"

lemma example_write_fails:
  "c \<noteq> d \<Longrightarrow> c \<noteq> x \<Longrightarrow> d \<noteq> x \<Longrightarrow>
   \<exists>e. example_serve (receive full_disk x) (example_state None [c, d] [c] None f True now ts vs) =
     Some (example_state None [c, d] [c] (Some e) f True now ts vs)"
  by (auto simp: example_simps full_disk_def)

lemma example_resume_failed:
  "example_serve Resume (example_state None rs as (Some e) f True now ts vs) =
     Some (example_state None rs as (Some e) f False now ts vs)"
  by (simp add: example_simps example_order_def)

lemma example_wait:
  "example_serve (Wait (n * 10 ^ 10)) (example_state t rs as e f p now ts vs) =
     Some (example_state t rs as e f p (now + n) ts vs)"
  by (simp add: example_simps)

lemma example_fire_aborts:
  "example_serve (Fire 0) (example_state None [c, d] [c] (Some e) f False now (t # ts) vs) = None"
  by (simp add: example_simps)

abbreviation example_reachable :: "nat manager \<Rightarrow> bool" where
  "example_reachable \<equiv> reachable example_env example_order"

lemma example_reachable_step:
  "example_reachable m \<Longrightarrow> example_serve req m = Some m' \<Longrightarrow> admissible example_env req m \<Longrightarrow> example_reachable m'"
  by (rule reachable.Serve)

lemma free_request:
  "admissible E (Acknowledge io i x) m" "admissible E Pause m" "admissible E Resume m" "admissible E (Wait n) m"
  by simp_all

lemma receive_admissible: "admissible example_env (receive io c) m"
  by (simp add: receive_def example_uuid example_fits)

lemma example_reachable_first:
  "example_reachable (example_state (Some 1) [c] [] None (example_record c UPDATE) False 0 [1] [example_forwarded c])"
  by (rule example_reachable_step [OF reachable.Initial example_first receive_admissible]) simp

lemma example_reachable_failed:
  assumes "c \<noteq> d" "c \<noteq> x" "d \<noteq> x"
  shows "\<exists>e f. example_reachable (example_state None [c, d] [c] (Some e) f False 1 [1] [example_forwarded c])"
proof -
  note run = example_reachable_first [of c]
  note run = example_reachable_step [OF run example_acknowledge free_request(1)]
  note run = example_reachable_step [OF run example_pause free_request(2)]
  note run = example_reachable_step [OF run example_queue [OF assms(1)] receive_admissible]
  obtain e where "example_serve (receive full_disk x) (example_state None [c, d] [c] None
      ((example_record c UPDATE @ example_record c ACK) @ example_record d UPDATE) True 0 [1] [example_forwarded c]) =
    Some (example_state None [c, d] [c] (Some e)
      ((example_record c UPDATE @ example_record c ACK) @ example_record d UPDATE) True 0 [1] [example_forwarded c])"
    using example_write_fails [OF assms] by blast
  note run = example_reachable_step [OF run this receive_admissible]
  note run = example_reachable_step [OF run example_resume_failed free_request(3)]
  note run = example_reachable_step [OF run example_wait [of 1] free_request(4)]
  then show ?thesis
    by auto
qed

subsection \<open>Properties\<close>



text \<open>
  Property C39. That exception happens: after an update was acknowledged the manager is paused, a second
  update is queued and a third one cannot be written; after \<open>resume\<close>, which skips the failed stream, the
  timer of the first update finds a pending update without a timeout and the check stops the process.
\<close>

theorem stale_timer_aborts:
  "\<exists>m. example_reachable m \<and> admissible example_env (Fire 0) m \<and> example_serve (Fire 0) m = None"
proof -
  obtain e f where r: "example_reachable
      (example_state None ''ab'' ''a'' (Some e) f False 1 [1] [example_forwarded (CHR ''a'')])" (is "example_reachable ?m")
    using example_reachable_failed [of "CHR ''a''" "CHR ''b''" "CHR ''c''"] by auto
  have "admissible example_env (Fire 0) ?m"
    by (simp add: example_state_def)
  then show ?thesis
    using r example_fire_aborts by blast
qed



text \<open>
  Property C15. While the manager is not paused, every stream that has a pending update and no failed write
  has a timer; when it fires the update is sent again and the delay doubles, up to the maximum.
\<close>

theorem manager_retries:
  assumes E: "env_ok E" and ord: "order_ok ord" and r: "reachable E ord m" and p: "\<not> mg_paused m"
    and s: "mg_streams m i = Some s" "st_error s = None" "st_pending s = u # us"
  shows "\<exists>k d t. k < length (mg_timers m) \<and> mg_timers m ! k = (i, d, t) \<and>
    (\<forall>n. t \<le> mg_now m + n \<longrightarrow>
       (\<exists>m'. serve E ord (Fire k) (m\<lparr>mg_now := mg_now m + n\<rparr>) = Some m' \<and>
          mg_forwarded m' = mg_forwarded m @ [u\<lparr>um_latest_status := Some (um_status (last (u # us)))\<rparr>] \<and>
          (let d' = min (d * 2) STATUS_UPDATE_RETRY_INTERVAL_MAX
           in last (mg_timers m') = (i, d', Timeout_in (mg_now m + n) d'))))"
proof -
  have ok: "manager_ok E m"
    by (rule reachable_ok [OF E ord r])
  then have "armed_stream m i s"
    using p s(1) by (auto simp: manager_ok_def armed_off_def)
  then obtain d t where t: "st_timeout s = Some t" "(i, d, t) \<in> set (mg_timers m)"
    using s(2,3) by (auto simp: armed_stream_def)
  then obtain k where k: "k < length (mg_timers m)" "mg_timers m ! k = (i, d, t)"
    by (auto simp: in_set_conv_nth)
  have "um_latest_status u = None"
    by (rule head_proper [of E m i s u us]) (use ok s in \<open>simp_all add: manager_ok_def\<close>)
  then have "\<exists>m'. serve E ord (Fire k) (m\<lparr>mg_now := mg_now m + n\<rparr>) = Some m' \<and>
      mg_forwarded m' = mg_forwarded m @ [u\<lparr>um_latest_status := Some (um_status (last (u # us)))\<rparr>] \<and>
      (let d' = min (d * 2) STATUS_UPDATE_RETRY_INTERVAL_MAX
       in last (mg_timers m') = (i, d', Timeout_in (mg_now m + n) d'))" if "t \<le> mg_now m + n" for n
    using that k t(1) s p by (simp add: manager_timeout_def forward_stream_def forward_def completed_def Let_def)
  then show ?thesis
    using k by blast
qed

theorem manager_retries_witness:
  "\<exists>m k d t m'. example_reachable m \<and> mg_timers m ! k = (0, d, t) \<and>
     example_serve (Fire k) (m\<lparr>mg_now := mg_now m + t\<rparr>) = Some m' \<and>
     mg_forwarded m' = mg_forwarded m @ [example_forwarded (CHR ''a'')]"
proof -
  define m where "m = example_state (Some 1) ''a'' [] None (example_record (CHR ''a'') UPDATE) False 0 [1]
    [example_forwarded (CHR ''a'')]"
  have r: "example_reachable m"
    using example_reachable_first [of "CHR ''a''"] by (simp add: m_def)
  obtain s where s: "mg_streams m 0 = Some s" "st_error s = None"
    "st_pending s = [example_update (CHR ''a'') OPERATION_PENDING]" "\<not> mg_paused m"
    by (simp add: example_state_def m_def)
  from manager_retries [OF example_env_ok example_order_ok r s(4,1-3)]
  obtain k d t where k: "mg_timers m ! k = (0, d, t)" and retry: "\<forall>n. t \<le> mg_now m + n \<longrightarrow>
      (\<exists>m'. example_serve (Fire k) (m\<lparr>mg_now := mg_now m + n\<rparr>) = Some m' \<and>
         mg_forwarded m' = mg_forwarded m @ [(example_update (CHR ''a'') OPERATION_PENDING)\<lparr>um_latest_status :=
           Some (um_status (last [example_update (CHR ''a'') OPERATION_PENDING]))\<rparr>] \<and>
         (let d' = min (d * 2) STATUS_UPDATE_RETRY_INTERVAL_MAX
          in last (mg_timers m') = (0, d', Timeout_in (mg_now m + n) d')))"
    by blast
  have "t \<le> mg_now m + t"
    by simp
  then show ?thesis
    using r k retry by (metis last.simps)
qed

text \<open>
  Property C22. The manager manages no terminated stream, its index by framework lists exactly the streams
  with that framework, and every stream holds no UUID twice: its accepted updates are the acknowledged
  ones followed by the pending ones, all with different UUIDs, and the sets of received and acknowledged
  UUIDs are theirs.
\<close>

theorem manager_well_formed:
  assumes "env_ok E" "order_ok ord" "reachable E ord m" "mg_streams m i = Some s"
  shows "\<not> st_terminated s \<and>
    (\<forall>F. (case mg_frameworkStreams m F of None \<Rightarrow> {} | Some S \<Rightarrow> S) =
       {j. \<exists>s. mg_streams m j = Some s \<and> st_frameworkId s = Some F}) \<and>
    (\<exists>A. distinct (map (update_uuid E) (A @ st_pending s)) \<and>
       Ok ` st_received s = update_uuid E ` set (A @ st_pending s) \<and> Ok ` st_acknowledged s = update_uuid E ` set A)"
proof (intro conjI)
  have ok: "manager_ok E m"
    by (rule reachable_ok [OF assms(1-3)])
  then have inv: "manager_inv E m"
    by (simp add: manager_ok_def)
  show "\<not> st_terminated s"
    by (rule stream_state_ok(2) [OF ok assms(4)])
  have fw: "frameworks_ok (mg_streams m) (mg_frameworkStreams m)"
    by (rule manager_frameworks [OF inv])
  show "\<forall>F. (case mg_frameworkStreams m F of None \<Rightarrow> {} | Some S \<Rightarrow> S) =
       {j. \<exists>s. mg_streams m j = Some s \<and> st_frameworkId s = Some F}"
  proof (intro allI set_eqI)
    fix F j
    show "j \<in> (case mg_frameworkStreams m F of None \<Rightarrow> {} | Some S \<Rightarrow> S) \<longleftrightarrow>
        j \<in> {j. \<exists>s. mg_streams m j = Some s \<and> st_frameworkId s = Some F}"
      using fw unfolding frameworks_ok_def by (cases "mg_frameworkStreams m F") fastforce+
  qed
  obtain H A where "stream_inv E s (mg_files m) H A"
    using manager_entryE [OF inv assms(4)] by blast
  then have s: "stream_ok E s H A"
    by (simp add: stream_inv_def)
  then have H: "H = A @ st_pending s" and d: "distinct (map (update_uuid E) H)"
    unfolding stream_ok_def by blast+
  have "Ok ` st_received s = update_uuid E ` set H" "Ok ` st_acknowledged s = update_uuid E ` set A"
    by (rule stream_ok_uuids [OF s])+
  then show "\<exists>A. distinct (map (update_uuid E) (A @ st_pending s)) \<and>
      Ok ` st_received s = update_uuid E ` set (A @ st_pending s) \<and> Ok ` st_acknowledged s = update_uuid E ` set A"
    using d unfolding H by blast
qed

theorem manager_well_formed_witness:
  "\<exists>m s A. example_reachable m \<and> mg_streams m 0 = Some s \<and> \<not> st_terminated s \<and>
     Ok ` st_received s = update_uuid example_env ` set (A @ st_pending s)"
proof -
  define m where "m = example_state (Some 1) ''a'' [] None (example_record (CHR ''a'') UPDATE) False 0 [1]
    [example_forwarded (CHR ''a'')]"
  have r: "example_reachable m"
    using example_reachable_first [of "CHR ''a''"] by (simp add: m_def)
  obtain s where s: "mg_streams m 0 = Some s"
    by (simp add: example_state_def m_def)
  note wf = manager_well_formed [OF example_env_ok example_order_ok r s]
  then obtain A where "Ok ` st_received s = update_uuid example_env ` set (A @ st_pending s)"
    by (elim conjE exE)
  with wf r s show ?thesis
    by (intro exI conjI) (assumption | elim conjE)+
qed



text \<open>
  Property C20. Only the oldest pending update can be acknowledged: a successful acknowledgement carries its
  UUID and removes exactly that update; the stream goes away exactly when the update was terminal.
\<close>

theorem acknowledgement_in_order:
  assumes E: "env_ok E" and ord: "order_ok ord" and r: "reachable E ord m"
    and run: "manager_acknowledgement E io i uuid m = (Ok b, m')"
  shows "\<exists>s u us. mg_streams m i = Some s \<and> st_pending s = u # us \<and> update_uuid E u = Ok uuid \<and>
    b = (\<not> isTerminalState (os_state (um_status u))) \<and>
    (case mg_streams m' i of
       None \<Rightarrow> \<not> b
     | Some s' \<Rightarrow> b \<and> st_pending s' = us \<and> st_acknowledged s' = insert uuid (st_acknowledged s))"
proof -
  have ok: "manager_ok E m"
    by (rule reachable_ok [OF E ord r])
  then have inv: "manager_inv E m"
    by (simp add: manager_ok_def)
  obtain s where s: "mg_streams m i = Some s"
    using run by (auto simp: manager_acknowledgement_def split: option.splits)
  obtain H A where sinv: "stream_inv E s (mg_files m) H A"
    by (rule manager_entryE [OF inv s]) blast
  have live: "\<not> st_terminated s"
    by (rule stream_state_ok(2) [OF ok s])
  show ?thesis
  proof (cases rule: stream_acknowledgement_ok [OF sinv, of io uuid])
    case (3 s' fs u)
    have ok3: "stream_ok E s H A" "stream_ok E s' H (A @ [u])"
      using sinv 3(2) by (simp_all add: stream_inv_def)
    have t: "st_terminated s' = isTerminalState (os_state (um_status u))"
      using ok3 live by (auto simp: stream_ok_def)
    have "Ok ` st_acknowledged s' = Ok ` insert uuid (st_acknowledged s)"
      using stream_ok_uuids(2) [OF ok3(1)] stream_ok_uuids(2) [OF ok3(2)] 3(4) by simp
    then have a: "st_acknowledged s' = insert uuid (st_acknowledged s)"
      by (rule inj_image_eq_iff [THEN iffD1, rotated]) (simp add: inj_def)
    have "b = (\<not> st_terminated s') \<and> (case mg_streams m' i of
        None \<Rightarrow> \<not> b | Some s'' \<Rightarrow> b \<and> st_pending s'' = st_pending s' \<and> st_acknowledged s'' = st_acknowledged s')"
      using run s 3(1,6)
      by (auto simp: manager_acknowledgement_def stream_next_def Let_def cleanupStatusUpdateStream_def
          forward_stream_def forward_def split: if_splits list.splits option.splits outcome.splits prod.splits)
    then show ?thesis
      using s 3(3,4) t a by (intro exI [of _ s] exI [of _ u] exI [of _ "st_pending s'"]) (auto split: option.splits)
  qed (use run s in \<open>auto simp: manager_acknowledgement_def\<close>)
qed

theorem acknowledgement_in_order_witness:
  "\<exists>m m' s u us. example_reachable m \<and>
     manager_acknowledgement example_env example_io 0 (replicate 16 (CHR ''a'')) m = (Ok True, m') \<and>
     mg_streams m 0 = Some s \<and> st_pending s = u # us \<and> update_uuid example_env u = Ok (replicate 16 (CHR ''a''))"
proof -
  define m where "m = example_state (Some 1) ''a'' [] None (example_record (CHR ''a'') UPDATE) False 0 [1]
    [example_forwarded (CHR ''a'')]"
  have r: "example_reachable m"
    using example_reachable_first [of "CHR ''a''"] by (simp add: m_def)
  obtain m' where run: "manager_acknowledgement example_env example_io 0 (replicate 16 (CHR ''a'')) m = (Ok True, m')"
    by (simp add: m_def example_simps)
  from acknowledgement_in_order [OF example_env_ok example_order_ok r run] show ?thesis
    using r run by blast
qed

end
