(* ===== verification/State_Storage.thy ===== *)
theory State_Storage
  imports Stout_Uuid
begin

section \<open>Versioned state\<close>

text \<open>
  \<open>include/mesos/state/state.hpp\<close> and \<open>storage.hpp\<close>: variables with a version, stored only if the version
  is still the one that was fetched. The storages of \<open>src/state/in_memory.cpp\<close> and \<open>src/state/leveldb.cpp\<close>
  provide the operations; the class \<open>State\<close> and its typed variant in \<open>protobuf.hpp\<close> use them. Random
  UUIDs, the serialization of entries and the status that LevelDB returns are arguments.
\<close>

record Entry =
  en_name :: string
  en_uuid :: string
  en_value :: string

subsection \<open>Storage in memory\<close>

type_synonym entries = "string \<rightharpoonup> Entry"

definition im_get :: "string \<Rightarrow> entries \<Rightarrow> Entry option outcome \<times> entries" where
  "im_get name s = (Ok (s name), s)"

definition im_set :: "(string \<Rightarrow> bool) \<Rightarrow> Entry \<Rightarrow> string \<Rightarrow> entries \<Rightarrow> bool outcome \<times> entries" where
  "im_set version e uuid s =
     (let put = (Ok True, s(en_name e \<mapsto> e)) in
      case s (en_name e) of
        None \<Rightarrow> put
      | Some old \<Rightarrow>
          (case uuid_get version (en_uuid old) of
             Ok x \<Rightarrow> if x \<noteq> uuid then (Ok False, s) else put
           | _ \<Rightarrow> (Abort, s)))"

definition im_expunge :: "(string \<Rightarrow> bool) \<Rightarrow> Entry \<Rightarrow> entries \<Rightarrow> bool outcome \<times> entries" where
  "im_expunge version e s =
     (case s (en_name e) of
        None \<Rightarrow> (Ok False, s)
      | Some old \<Rightarrow>
          (case (uuid_get version (en_uuid old), uuid_get version (en_uuid e)) of
             (Ok x, Ok y) \<Rightarrow> if x \<noteq> y then (Ok False, s) else (Ok True, s(en_name e := None))
           | _ \<Rightarrow> (Abort, s)))"

definition im_names :: "entries \<Rightarrow> string set outcome \<times> entries" where
  "im_names s = (Ok (dom s), s)"

subsection \<open>Storage in LevelDB\<close>

record ldb_storage =
  ld_db :: "string \<rightharpoonup> string"
  ld_error :: "string option"

text \<open>The status that LevelDB returns for each call; \<open>None\<close> is success.\<close>

record ldb_status =
  db_Open :: "string option"
  db_Get :: "string option"
  db_Put :: "string option"
  db_Delete :: "string option"

record entry_codec =
  entry_serialize :: "Entry \<Rightarrow> string option"
  entry_parse :: "string \<Rightarrow> Entry option"

definition ld_initialize :: "ldb_status \<Rightarrow> (string \<rightharpoonup> string) \<Rightarrow> ldb_storage" where
  "ld_initialize st db = \<lparr>ld_db = db, ld_error = db_Open st\<rparr>"

definition ld_read :: "entry_codec \<Rightarrow> ldb_status \<Rightarrow> string \<Rightarrow> ldb_storage \<Rightarrow> Entry option outcome" where
  "ld_read C st name s =
     (if ld_error s \<noteq> None then Abort
      else
        (case db_Get st of
           Some e \<Rightarrow> Error e
         | None \<Rightarrow>
             (case ld_db s name of
                None \<Rightarrow> Ok None
              | Some v \<Rightarrow>
                  (case entry_parse C v of
                     None \<Rightarrow> Error ''Failed to deserialize Entry''
                   | Some e \<Rightarrow> Ok (Some e)))))"

definition ld_write :: "entry_codec \<Rightarrow> ldb_status \<Rightarrow> Entry \<Rightarrow> ldb_storage \<Rightarrow> bool outcome \<times> ldb_storage" where
  "ld_write C st e s =
     (if ld_error s \<noteq> None then (Abort, s)
      else
        (case entry_serialize C e of
           None \<Rightarrow> (Error ''Failed to serialize Entry'', s)
         | Some v \<Rightarrow>
             (case db_Put st of
                Some err \<Rightarrow> (Error err, s)
              | None \<Rightarrow> (Ok True, s\<lparr>ld_db := (ld_db s)(en_name e \<mapsto> v)\<rparr>))))"

definition ld_get ::
  "entry_codec \<Rightarrow> ldb_status \<Rightarrow> string \<Rightarrow> ldb_storage \<Rightarrow> Entry option outcome \<times> ldb_storage" where
  "ld_get C st name s =
     (case ld_error s of
        Some e \<Rightarrow> (Error e, s)
      | None \<Rightarrow> (ld_read C st name s, s))"

definition ld_set ::
  "(string \<Rightarrow> bool) \<Rightarrow> entry_codec \<Rightarrow> ldb_status \<Rightarrow> Entry \<Rightarrow> string \<Rightarrow> ldb_storage \<Rightarrow> bool outcome \<times> ldb_storage" where
  "ld_set version C st e uuid s =
     (case ld_error s of
        Some err \<Rightarrow> (Error err, s)
      | None \<Rightarrow>
          (case ld_read C st (en_name e) s of
             Abort \<Rightarrow> (Abort, s)
           | Error err \<Rightarrow> (Error err, s)
           | Ok None \<Rightarrow> ld_write C st e s
           | Ok (Some old) \<Rightarrow>
               (case uuid_get version (en_uuid old) of
                  Ok x \<Rightarrow> if x \<noteq> uuid then (Ok False, s) else ld_write C st e s
                | _ \<Rightarrow> (Abort, s))))"

definition ld_expunge ::
  "(string \<Rightarrow> bool) \<Rightarrow> entry_codec \<Rightarrow> ldb_status \<Rightarrow> Entry \<Rightarrow> ldb_storage \<Rightarrow> bool outcome \<times> ldb_storage" where
  "ld_expunge version C st e s =
     (case ld_error s of
        Some err \<Rightarrow> (Error err, s)
      | None \<Rightarrow>
          (case ld_read C st (en_name e) s of
             Abort \<Rightarrow> (Abort, s)
           | Error err \<Rightarrow> (Error err, s)
           | Ok None \<Rightarrow> (Ok False, s)
           | Ok (Some old) \<Rightarrow>
               (case (uuid_get version (en_uuid old), uuid_get version (en_uuid e)) of
                  (Ok x, Ok y) \<Rightarrow>
                    if x \<noteq> y then (Ok False, s)
                    else
                      (case db_Delete st of
                         Some err \<Rightarrow> (Error err, s)
                       | None \<Rightarrow> (Ok True, s\<lparr>ld_db := (ld_db s)(en_name e := None)\<rparr>))
                | _ \<Rightarrow> (Abort, s))))"

definition ld_names :: "ldb_storage \<Rightarrow> string set outcome \<times> ldb_storage" where
  "ld_names s = (case ld_error s of Some e \<Rightarrow> (Error e, s) | None \<Rightarrow> (Ok (dom (ld_db s)), s))"

subsection \<open>Variables\<close>

text \<open>
  \<open>State\<close> over any storage: the operations of the storage and the random UUID are arguments.
\<close>

record Variable =
  va_entry :: Entry

definition variable_value :: "Variable \<Rightarrow> string" where
  "variable_value v = en_value (va_entry v)"

definition mutate :: "string \<Rightarrow> Variable \<Rightarrow> Variable" where
  "mutate x v = v\<lparr>va_entry := (va_entry v)\<lparr>en_value := x\<rparr>\<rparr>"

definition state_fetch ::
  "(string \<Rightarrow> 's \<Rightarrow> Entry option outcome \<times> 's) \<Rightarrow> string \<Rightarrow> string \<Rightarrow> 's \<Rightarrow> Variable outcome \<times> 's" where
  "state_fetch get random name s =
     (case get name s of
        (Ok (Some e), s) \<Rightarrow> (Ok \<lparr>va_entry = e\<rparr>, s)
      | (Ok None, s) \<Rightarrow> (Ok \<lparr>va_entry = \<lparr>en_name = name, en_uuid = random, en_value = []\<rparr>\<rparr>, s)
      | (Error e, s) \<Rightarrow> (Error e, s)
      | (Abort, s) \<Rightarrow> (Abort, s))"

definition state_store ::
  "(string \<Rightarrow> bool) \<Rightarrow> (Entry \<Rightarrow> string \<Rightarrow> 's \<Rightarrow> bool outcome \<times> 's) \<Rightarrow> string \<Rightarrow> Variable \<Rightarrow> 's \<Rightarrow>
   Variable option outcome \<times> 's" where
  "state_store version set_entry random v s =
     (case uuid_get version (en_uuid (va_entry v)) of
        Ok uuid \<Rightarrow>
          (let e = \<lparr>en_name = en_name (va_entry v), en_uuid = random, en_value = en_value (va_entry v)\<rparr> in
           case set_entry e uuid s of
             (Ok b, s) \<Rightarrow> (Ok (if b then Some \<lparr>va_entry = e\<rparr> else None), s)
           | (Error err, s) \<Rightarrow> (Error err, s)
           | (Abort, s) \<Rightarrow> (Abort, s))
      | _ \<Rightarrow> (Abort, s))"

definition state_expunge :: "(Entry \<Rightarrow> 's \<Rightarrow> bool outcome \<times> 's) \<Rightarrow> Variable \<Rightarrow> 's \<Rightarrow> bool outcome \<times> 's" where
  "state_expunge expunge v s = expunge (va_entry v) s"

definition state_names :: "('s \<Rightarrow> string set outcome \<times> 's) \<Rightarrow> 's \<Rightarrow> string set outcome \<times> 's" where
  "state_names names s = names s"

text \<open>Variables that hold a protobuf message; \<open>serialize\<close> and \<open>deserialize\<close> are those of its type.\<close>

record 't PVariable =
  pv_variable :: Variable
  pv_t :: 't

definition pstate_fetch ::
  "(string \<Rightarrow> 't outcome) \<Rightarrow> (string \<Rightarrow> 's \<Rightarrow> Entry option outcome \<times> 's) \<Rightarrow> string \<Rightarrow> string \<Rightarrow> 's \<Rightarrow>
   't PVariable outcome \<times> 's" where
  "pstate_fetch deserialize get random name s =
     (case state_fetch get random name s of
        (r, s) \<Rightarrow>
          (bind_outcome r (\<lambda>v.
             bind_outcome (deserialize (variable_value v)) (\<lambda>t. Ok \<lparr>pv_variable = v, pv_t = t\<rparr>)), s))"

definition pstate_store ::
  "('t \<Rightarrow> string outcome) \<Rightarrow> (string \<Rightarrow> bool) \<Rightarrow> (Entry \<Rightarrow> string \<Rightarrow> 's \<Rightarrow> bool outcome \<times> 's) \<Rightarrow> string \<Rightarrow>
   't PVariable \<Rightarrow> 's \<Rightarrow> 't PVariable option outcome \<times> 's" where
  "pstate_store serialize version set_entry random pv s =
     (case serialize (pv_t pv) of
        Abort \<Rightarrow> (Abort, s)
      | Error e \<Rightarrow> (Error e, s)
      | Ok x \<Rightarrow>
          (case state_store version set_entry random (mutate x (pv_variable pv)) s of
             (r, s) \<Rightarrow>
               (bind_outcome r (\<lambda>vo. Ok (map_option (\<lambda>v. \<lparr>pv_variable = v, pv_t = pv_t pv\<rparr>) vo)), s)))"

definition pmutate :: "'t \<Rightarrow> 't PVariable \<Rightarrow> 't PVariable" where
  "pmutate t pv = pv\<lparr>pv_t := t\<rparr>"

definition pstate_expunge :: "(Entry \<Rightarrow> 's \<Rightarrow> bool outcome \<times> 's) \<Rightarrow> 't PVariable \<Rightarrow> 's \<Rightarrow> bool outcome \<times> 's" where
  "pstate_expunge expunge pv s = state_expunge expunge (pv_variable pv) s"

subsection \<open>What a storage promises\<close>

text \<open>
  The version of a variable is current when the variable does not exist or its entry has that UUID. A
  storage swaps an entry exactly when the version is current; when it does not report success it has
  changed nothing, or it has made that same change.
\<close>

definition current :: "entries \<Rightarrow> string \<Rightarrow> string \<Rightarrow> bool" where
  "current st name uuid \<longleftrightarrow> (case st name of None \<Rightarrow> True | Some e \<Rightarrow> en_uuid e = uuid)"

definition valid_uuid :: "(string \<Rightarrow> bool) \<Rightarrow> string \<Rightarrow> bool" where
  "valid_uuid version u \<longleftrightarrow> uuid_get version u = Ok u"

definition entries_ok :: "(string \<Rightarrow> bool) \<Rightarrow> entries \<Rightarrow> bool" where
  "entries_ok version st \<longleftrightarrow> (\<forall>n e. st n = Some e \<longrightarrow> en_name e = n \<and> valid_uuid version (en_uuid e))"

lemma uuid_get_valid: "uuid_get version u = Ok x \<longleftrightarrow> valid_uuid version u \<and> x = u"
  by (auto simp: valid_uuid_def uuid_get_Ok)

lemma uuid_get_cases: "valid_uuid version u \<and> uuid_get version u = Ok u \<or> \<not> valid_uuid version u \<and> uuid_get version u = Abort"
  by (auto simp: valid_uuid_def uuid_get_def fromBytes_def)

locale swap_storage =
  fixes version :: "string \<Rightarrow> bool"
    and set_entry :: "Entry \<Rightarrow> string \<Rightarrow> 's \<Rightarrow> bool outcome \<times> 's"
    and expunge :: "Entry \<Rightarrow> 's \<Rightarrow> bool outcome \<times> 's"
    and inv :: "'s \<Rightarrow> bool"
    and state :: "'s \<Rightarrow> entries"
  assumes inv_entries: "inv s \<Longrightarrow> entries_ok version (state s)"
    and set_law: "inv s \<Longrightarrow> valid_uuid version (en_uuid e) \<Longrightarrow> set_entry e u s = (r, s') \<Longrightarrow>
      inv s' \<and> r \<noteq> Abort \<and>
      (r = Ok True \<longrightarrow> current (state s) (en_name e) u \<and> state s' = (state s)(en_name e \<mapsto> e)) \<and>
      (r \<noteq> Ok True \<longrightarrow>
         state s' = state s \<or> current (state s) (en_name e) u \<and> state s' = (state s)(en_name e \<mapsto> e))"
    and expunge_law: "inv s \<Longrightarrow> valid_uuid version (en_uuid e) \<Longrightarrow> expunge e s = (r, s') \<Longrightarrow>
      inv s' \<and> r \<noteq> Abort \<and>
      (r = Ok True \<longrightarrow> state s (en_name e) \<noteq> None \<and> current (state s) (en_name e) (en_uuid e) \<and>
         state s' = (state s)(en_name e := None)) \<and>
      (r \<noteq> Ok True \<longrightarrow>
         state s' = state s \<or>
         current (state s) (en_name e) (en_uuid e) \<and> state s' = (state s)(en_name e := None))"
begin

text \<open>A successful store replaces the version it was given.\<close>

lemma store_swaps:
  assumes s: "inv s" and st: "state_store version set_entry random v s = (r, s')" and u: "valid_uuid version random"
  shows "inv s'" "r = Ok (Some w) \<Longrightarrow> current (state s) (en_name (va_entry v)) (en_uuid (va_entry v)) \<and>
      state s' = (state s)(en_name (va_entry v) \<mapsto> va_entry w) \<and> en_uuid (va_entry w) = random \<and>
      en_name (va_entry w) = en_name (va_entry v) \<and> variable_value w = variable_value v"
    "\<not> current (state s) (en_name (va_entry v)) (en_uuid (va_entry v)) \<Longrightarrow> state s' = state s"
proof -
  let ?e = "\<lparr>en_name = en_name (va_entry v), en_uuid = random, en_value = en_value (va_entry v)\<rparr>"
  let ?u = "en_uuid (va_entry v)"
  have e: "valid_uuid version (en_uuid ?e)"
    using u by simp
  obtain q t where q: "set_entry ?e ?u s = (q, t)"
    by fastforce
  note law = set_law [OF s e q]
  show "inv s'"
    using st q law s uuid_get_cases [of version ?u] by (auto simp: state_store_def split: outcome.splits)
  show "r = Ok (Some w) \<Longrightarrow> current (state s) (en_name (va_entry v)) (en_uuid (va_entry v)) \<and>
      state s' = (state s)(en_name (va_entry v) \<mapsto> va_entry w) \<and> en_uuid (va_entry w) = random \<and>
      en_name (va_entry w) = en_name (va_entry v) \<and> variable_value w = variable_value v"
    using st q law uuid_get_cases [of version ?u]
    by (auto simp: state_store_def variable_value_def split: outcome.splits if_splits)
  show "\<not> current (state s) (en_name (va_entry v)) (en_uuid (va_entry v)) \<Longrightarrow> state s' = state s"
    using st q law uuid_get_cases [of version ?u] by (auto simp: state_store_def split: outcome.splits)
qed

text \<open>After a successful store every other version of the variable is outdated.\<close>

lemma outdated_store:
  assumes s: "inv s" and n: "state s (en_name (va_entry v)) = Some e" "en_uuid e \<noteq> en_uuid (va_entry v)"
    and st: "state_store version set_entry random v s = (q, s')" and r: "valid_uuid version random"
  shows "q \<noteq> Ok (Some w)" "state s' = state s" "inv s'"
proof -
  have "\<not> current (state s) (en_name (va_entry v)) (en_uuid (va_entry v))"
    using n by (simp add: current_def)
  then show "q \<noteq> Ok (Some w)" "state s' = state s" "inv s'"
    using store_swaps(1,3) [OF s st r] store_swaps(2) [OF s st r, of w] by blast+
qed

end

text \<open>Some storages moreover answer every read with the present state.\<close>

locale versioned_storage = swap_storage version set_entry expunge inv state
  for version :: "string \<Rightarrow> bool" and set_entry :: "Entry \<Rightarrow> string \<Rightarrow> 's \<Rightarrow> bool outcome \<times> 's"
    and expunge :: "Entry \<Rightarrow> 's \<Rightarrow> bool outcome \<times> 's" and inv :: "'s \<Rightarrow> bool" and state :: "'s \<Rightarrow> entries" +
  fixes get :: "string \<Rightarrow> 's \<Rightarrow> Entry option outcome \<times> 's"
    and names :: "'s \<Rightarrow> string set outcome \<times> 's"
  assumes get_law: "inv s \<Longrightarrow> get n s = (g, s') \<Longrightarrow>
      inv s' \<and> state s' = state s \<and> g \<noteq> Abort \<and> (\<forall>x. g = Ok x \<longrightarrow> x = state s n)"
    and names_law: "inv s \<Longrightarrow> names s = (k, s') \<Longrightarrow>
      inv s' \<and> state s' = state s \<and> k \<noteq> Abort \<and> (\<forall>x. k = Ok x \<longrightarrow> x = dom (state s))"
begin

lemma fetch_current:
  assumes s: "inv s" and f: "state_fetch get random n s = (Ok v, s')" and r: "valid_uuid version random"
  shows "inv s'" "state s' = state s" "en_name (va_entry v) = n" "valid_uuid version (en_uuid (va_entry v))"
    "current (state s) n (en_uuid (va_entry v))" "\<And>e. state s n = Some e \<Longrightarrow> va_entry v = e"
proof -
  obtain x where g: "get n s = (Ok x, s')" and v: "v = \<lparr>va_entry = (case x of Some e \<Rightarrow> e
      | None \<Rightarrow> \<lparr>en_name = n, en_uuid = random, en_value = []\<rparr>)\<rparr>"
    using f by (auto simp: state_fetch_def split: prod.splits outcome.splits option.splits)
  have x: "x = state s n" "inv s'" "state s' = state s"
    using get_law [OF s g] by auto
  show "inv s'" "state s' = state s"
    by (rule x)+
  show "en_name (va_entry v) = n" "valid_uuid version (en_uuid (va_entry v))"
    "current (state s) n (en_uuid (va_entry v))" "\<And>e. state s n = Some e \<Longrightarrow> va_entry v = e"
    using inv_entries [OF s] x(1) v r by (auto simp: entries_ok_def current_def split: option.splits)
qed

text \<open>
  Of two clients that fetched the same variable, the one that stores second does not overwrite the
  first.
\<close>

lemma no_lost_update:
  assumes s: "inv s" and f1: "state_fetch get r1 n s = (Ok v1, s1)" and f2: "state_fetch get r2 n s1 = (Ok v2, s2)"
    and st1: "state_store version set_entry r3 (mutate x v1) s2 = (Ok (Some w1), s3)"
    and st2: "state_store version set_entry r4 (mutate y v2) s3 = (q, s4)"
    and r: "valid_uuid version r1" "valid_uuid version r2" "valid_uuid version r3" "valid_uuid version r4"
    and fresh: "r3 \<noteq> en_uuid (va_entry v2)"
  shows "q \<noteq> Ok (Some w2) \<and> state s4 n = Some (va_entry w1) \<and> variable_value w1 = x"
proof -
  note a = fetch_current [OF s f1 r(1)]
  note b = fetch_current [OF a(1) f2 r(2)]
  have w1: "inv s3" "state s3 = (state s2)(n \<mapsto> va_entry w1)" "en_uuid (va_entry w1) = r3" "variable_value w1 = x"
    using store_swaps(1) [OF b(1) st1 r(3)] store_swaps(2) [OF b(1) st1 r(3), of w1] a(3)
    by (simp_all add: mutate_def variable_value_def)
  have "state s3 (en_name (va_entry (mutate y v2))) = Some (va_entry w1)"
    "en_uuid (va_entry w1) \<noteq> en_uuid (va_entry (mutate y v2))"
    using w1 fresh b(3) by (simp_all add: mutate_def)
  then show ?thesis
    using outdated_store [OF w1(1) _ _ st2 r(4), of "va_entry w1"] w1(2,4) by simp
qed

lemma store_then_fetch:
  assumes s: "inv s" and st: "state_store version set_entry r1 v s = (Ok (Some w), s')"
    and f: "state_fetch get r2 (en_name (va_entry v)) s' = (Ok w', s'')"
    and r: "valid_uuid version r1" "valid_uuid version r2"
  shows "w' = w"
proof -
  have "inv s'" "state s' (en_name (va_entry v)) = Some (va_entry w)"
    using store_swaps(1) [OF s st r(1)] store_swaps(2) [OF s st r(1), of w] by simp_all
  then have "va_entry w' = va_entry w"
    using fetch_current(6) [OF _ f r(2)] by blast
  then show ?thesis
    by (cases w; cases w') simp
qed

end

subsection \<open>The storages keep their promise\<close>

lemma entries_ok_put:
  "entries_ok version st \<Longrightarrow> valid_uuid version (en_uuid e) \<Longrightarrow> entries_ok version (st(en_name e \<mapsto> e))"
  by (auto simp: entries_ok_def)

lemma entries_ok_remove: "entries_ok version st \<Longrightarrow> entries_ok version (st(n := None))"
  by (auto simp: entries_ok_def)

lemma stored_uuid: "entries_ok version st \<Longrightarrow> st n = Some e \<Longrightarrow> uuid_get version (en_uuid e) = Ok (en_uuid e)"
  by (simp add: entries_ok_def valid_uuid_def)

interpretation im: versioned_storage version "im_set version" "im_expunge version" "entries_ok version" "\<lambda>s. s" im_get im_names
  for version
proof unfold_locales
  fix s s' and e :: Entry and u r
  assume s: "entries_ok version s" and e: "valid_uuid version (en_uuid e)"
  show "im_set version e u s = (r, s') \<Longrightarrow> entries_ok version s' \<and> r \<noteq> Abort \<and>
      (r = Ok True \<longrightarrow> current s (en_name e) u \<and> s' = s(en_name e \<mapsto> e)) \<and>
      (r \<noteq> Ok True \<longrightarrow> s' = s \<or> current s (en_name e) u \<and> s' = s(en_name e \<mapsto> e))"
    using s e entries_ok_put [OF s e] stored_uuid [OF s]
    by (auto simp: im_set_def current_def Let_def split: option.splits if_splits)
  show "im_expunge version e s = (r, s') \<Longrightarrow> entries_ok version s' \<and> r \<noteq> Abort \<and>
      (r = Ok True \<longrightarrow> s (en_name e) \<noteq> None \<and> current s (en_name e) (en_uuid e) \<and> s' = s(en_name e := None)) \<and>
      (r \<noteq> Ok True \<longrightarrow> s' = s \<or> current s (en_name e) (en_uuid e) \<and> s' = s(en_name e := None))"
    using s e entries_ok_remove [OF s] stored_uuid [OF s]
    by (auto simp: im_expunge_def current_def valid_uuid_def split: option.splits if_splits)
qed (auto simp: im_get_def im_names_def)

text \<open>A database whose entries can be parsed, with a serialization that can be read back.\<close>

definition ld_state :: "entry_codec \<Rightarrow> ldb_storage \<Rightarrow> entries" where
  "ld_state C s = (\<lambda>n. case ld_db s n of None \<Rightarrow> None | Some v \<Rightarrow> entry_parse C v)"

definition ld_inv :: "(string \<Rightarrow> bool) \<Rightarrow> entry_codec \<Rightarrow> ldb_storage \<Rightarrow> bool" where
  "ld_inv version C s \<longleftrightarrow>
     (\<forall>e v. entry_serialize C e = Some v \<longrightarrow> entry_parse C v = Some e) \<and>
     dom (ld_state C s) = dom (ld_db s) \<and> entries_ok version (ld_state C s)"

lemma ld_read_state:
  assumes "ld_inv version C s" "ld_error s = None"
  shows "ld_read C st n s = (case db_Get st of Some e \<Rightarrow> Error e | None \<Rightarrow> Ok (ld_state C s n))"
proof -
  have "n \<in> dom (ld_state C s) \<longleftrightarrow> n \<in> dom (ld_db s)"
    using assms(1) by (simp add: ld_inv_def)
  then show ?thesis
    using assms(2) by (auto simp: ld_read_def ld_state_def dom_def split: option.splits)
qed

lemma ld_write_state:
  assumes s: "ld_inv version C s" "ld_error s = None" and e: "valid_uuid version (en_uuid e)"
    and w: "ld_write C st e s = (r, s')"
  shows "ld_inv version C s' \<and> (r = Ok True \<and> ld_state C s' = (ld_state C s)(en_name e \<mapsto> e) \<or> (\<exists>x. r = Error x) \<and> s' = s)"
proof (cases "r = Ok True")
  case True
  then obtain v where v: "entry_serialize C e = Some v" "s' = s\<lparr>ld_db := (ld_db s)(en_name e \<mapsto> v)\<rparr>"
    using w s(2) by (auto simp: ld_write_def split: option.splits)
  then have "ld_state C s' = (ld_state C s)(en_name e \<mapsto> e)"
    using s(1) by (auto simp: ld_state_def ld_inv_def)
  then show ?thesis
    using True v s(1) entries_ok_put [OF _ e] by (auto simp: ld_inv_def)
next
  case False
  then show ?thesis
    using w s by (auto simp: ld_write_def split: option.splits)
qed

lemma ld_delete_state:
  assumes "ld_inv version C s"
  shows "ld_state C (s\<lparr>ld_db := (ld_db s)(n := None)\<rparr>) = (ld_state C s)(n := None)"
    "ld_inv version C (s\<lparr>ld_db := (ld_db s)(n := None)\<rparr>)"
proof -
  show eq: "ld_state C (s\<lparr>ld_db := (ld_db s)(n := None)\<rparr>) = (ld_state C s)(n := None)"
    by (auto simp: ld_state_def)
  show "ld_inv version C (s\<lparr>ld_db := (ld_db s)(n := None)\<rparr>)"
    using assms entries_ok_remove unfolding ld_inv_def eq by auto
qed

interpretation ld: versioned_storage version "ld_set version C st" "ld_expunge version C st" "ld_inv version C" "ld_state C"
  "ld_get C st" ld_names for version C st
proof unfold_locales
  fix s s' and e :: Entry and u r
  assume s: "ld_inv version C s" and e: "valid_uuid version (en_uuid e)"
  have ok: "entries_ok version (ld_state C s)"
    using s by (simp add: ld_inv_def)
  show "ld_set version C st e u s = (r, s') \<Longrightarrow> ld_inv version C s' \<and> r \<noteq> Abort \<and>
      (r = Ok True \<longrightarrow> current (ld_state C s) (en_name e) u \<and> ld_state C s' = (ld_state C s)(en_name e \<mapsto> e)) \<and>
      (r \<noteq> Ok True \<longrightarrow> ld_state C s' = ld_state C s \<or>
         current (ld_state C s) (en_name e) u \<and> ld_state C s' = (ld_state C s)(en_name e \<mapsto> e))"
    using s ld_write_state [OF s _ e] stored_uuid [OF ok]
    by (cases "ld_error s") (auto simp: ld_set_def ld_read_state current_def split: option.splits if_splits)
  show "ld_expunge version C st e s = (r, s') \<Longrightarrow> ld_inv version C s' \<and> r \<noteq> Abort \<and>
      (r = Ok True \<longrightarrow> ld_state C s (en_name e) \<noteq> None \<and> current (ld_state C s) (en_name e) (en_uuid e) \<and>
         ld_state C s' = (ld_state C s)(en_name e := None)) \<and>
      (r \<noteq> Ok True \<longrightarrow> ld_state C s' = ld_state C s \<or>
         current (ld_state C s) (en_name e) (en_uuid e) \<and> ld_state C s' = (ld_state C s)(en_name e := None))"
    using s ld_delete_state [OF s] e stored_uuid [OF ok]
    by (cases "ld_error s")
      (auto simp: ld_expunge_def ld_read_state current_def valid_uuid_def split: option.splits if_splits)
qed (auto simp: ld_get_def ld_names_def ld_read_state ld_inv_def split: option.splits)

subsection \<open>Properties\<close>

text \<open>
  Property C19. No update is lost: when two clients of a LevelDB storage fetch a variable and both store it,
  only the first one succeeds, and its value stays.
\<close>

theorem ldb_no_lost_update:
  assumes "ld_inv version C s"
    and "state_fetch (ld_get C st) r1 n s = (Ok v1, s1)" "state_fetch (ld_get C st) r2 n s1 = (Ok v2, s2)"
    and "state_store version (ld_set version C st) r3 (mutate x v1) s2 = (Ok (Some w1), s3)"
    and "state_store version (ld_set version C st) r4 (mutate y v2) s3 = (q, s4)"
    and "valid_uuid version r1" "valid_uuid version r2" "valid_uuid version r3" "valid_uuid version r4"
    and "r3 \<noteq> en_uuid (va_entry v2)"
  shows "q \<noteq> Ok (Some w2) \<and> ld_state C s4 n = Some (va_entry w1) \<and> variable_value w1 = x"
  using assms by (rule ld.no_lost_update)

definition example_codec :: entry_codec where
  "example_codec =
     \<lparr>entry_serialize = (\<lambda>e. if en_name e = ''n'' \<and> length (en_uuid e) = 16 then Some (en_uuid e @ en_value e) else None),
      entry_parse = (\<lambda>v. Some \<lparr>en_name = ''n'', en_uuid = take 16 v, en_value = drop 16 v\<rparr>)\<rparr>"

definition example_status :: ldb_status where
  "example_status = \<lparr>db_Open = None, db_Get = None, db_Put = None, db_Delete = None\<rparr>"

theorem ldb_no_lost_update_witness:
  "\<exists>v1 s1 v2 s2 w1 s3 q s4. let s = ld_initialize example_status Map.empty; r = replicate 16 in
     state_fetch (ld_get example_codec example_status) (r (CHR ''1'')) ''n'' s = (Ok v1, s1) \<and>
     state_fetch (ld_get example_codec example_status) (r (CHR ''2'')) ''n'' s1 = (Ok v2, s2) \<and>
     state_store (\<lambda>_. True) (ld_set (\<lambda>_. True) example_codec example_status) (r (CHR ''3'')) (mutate ''x'' v1) s2 = (Ok (Some w1), s3) \<and>
     state_store (\<lambda>_. True) (ld_set (\<lambda>_. True) example_codec example_status) (r (CHR ''4'')) (mutate ''y'' v2) s3 = (q, s4) \<and>
     q = Ok None \<and> ld_state example_codec s4 ''n'' = Some (va_entry w1) \<and> variable_value w1 = ''x''"
proof -
  define s where "s = ld_initialize example_status Map.empty"
  define r where "r = (replicate 16 :: char \<Rightarrow> string)"
  have inv: "ld_inv (\<lambda>_. True) example_codec s"
    by (auto simp: s_def ld_inv_def ld_initialize_def ld_state_def entries_ok_def example_codec_def)
  have valid: "valid_uuid (\<lambda>_. True) (r c)" for c
    by (simp add: valid_uuid_def uuid_get_Ok r_def)
  have "\<exists>v1 s1 v2 s2 w1 s3 s4.
     state_fetch (ld_get example_codec example_status) (r (CHR ''1'')) ''n'' s = (Ok v1, s1) \<and>
     state_fetch (ld_get example_codec example_status) (r (CHR ''2'')) ''n'' s1 = (Ok v2, s2) \<and>
     state_store (\<lambda>_. True) (ld_set (\<lambda>_. True) example_codec example_status) (r (CHR ''3'')) (mutate ''x'' v1) s2 = (Ok (Some w1), s3) \<and>
     state_store (\<lambda>_. True) (ld_set (\<lambda>_. True) example_codec example_status) (r (CHR ''4'')) (mutate ''y'' v2) s3 = (Ok None, s4) \<and>
     en_uuid (va_entry v2) = r (CHR ''2'')"
    by (simp add: s_def r_def state_fetch_def ld_get_def ld_read_def ld_initialize_def example_status_def state_store_def
        uuid_get_def fromBytes_def mutate_def ld_set_def ld_write_def example_codec_def)
  then obtain v1 s1 v2 s2 w1 s3 s4 where run:
     "state_fetch (ld_get example_codec example_status) (r (CHR ''1'')) ''n'' s = (Ok v1, s1)"
     "state_fetch (ld_get example_codec example_status) (r (CHR ''2'')) ''n'' s1 = (Ok v2, s2)"
     "state_store (\<lambda>_. True) (ld_set (\<lambda>_. True) example_codec example_status) (r (CHR ''3'')) (mutate ''x'' v1) s2 = (Ok (Some w1), s3)"
     "state_store (\<lambda>_. True) (ld_set (\<lambda>_. True) example_codec example_status) (r (CHR ''4'')) (mutate ''y'' v2) s3 = (Ok None, s4)"
    and v2: "en_uuid (va_entry v2) = r (CHR ''2'')"
    by blast
  have "r (CHR ''3'') \<noteq> en_uuid (va_entry v2)"
    by (simp add: v2 r_def)
  from ldb_no_lost_update [OF inv run valid valid valid valid this]
  show ?thesis
    unfolding Let_def s_def [symmetric] r_def [symmetric] using run by blast
qed



end
