(* ===== verification/State_Log.thy ===== *)
theory State_Log
  imports State_Storage
begin

section \<open>State in the replicated log\<close>

text \<open>
  \<open>LogStorageProcess\<close> of \<open>src/state/log.cpp\<close>, the storage in which the master keeps its registry: every
  change is appended to the replicated log, and the log is read into a cache when the process starts to
  write. Each continuation of the code is a function; what the log answered is its argument. Subversion's
  diff and patch and the serialization of operations are parameters. Positions are opaque to this code, which
  only compares them; they are natural numbers here.
\<close>

datatype OperationType = SNAPSHOT | DIFF | EXPUNGE

record Operation =
  op_type :: OperationType
  op_snapshot :: "Entry option"
  op_diff :: "Entry option"
  op_expunge :: "string option"

record state_log =
  sl_version :: "string \<Rightarrow> bool"
  sl_diff :: "string \<Rightarrow> string \<Rightarrow> string outcome"
  sl_patch :: "string \<Rightarrow> string \<Rightarrow> string outcome"
  sl_serialize :: "Operation \<Rightarrow> string option"
  sl_parse :: "string \<Rightarrow> Operation option"
  sl_diffsBetweenSnapshots :: nat

record Snapshot =
  sn_position :: nat
  sn_entry :: Entry
  sn_diffs :: nat

definition snapshot_patch :: "state_log \<Rightarrow> Entry \<Rightarrow> Snapshot \<Rightarrow> Snapshot outcome" where
  "snapshot_patch L diff s =
     (if en_name diff \<noteq> en_name (sn_entry s) then Error ''Attempted to patch the wrong snapshot''
      else
        (case sl_patch L (en_value (sn_entry s)) (en_value diff) of
           Abort \<Rightarrow> Abort
         | Error e \<Rightarrow> Error e
         | Ok x \<Rightarrow>
             Ok \<lparr>sn_position = sn_position s, sn_entry = diff\<lparr>en_value := x\<rparr>, sn_diffs = sn_diffs s + 1\<rparr>))"

text \<open>
  \<open>starting\<close> is an optional future: none, ready or failed. The writer (\<open>LogWriterProcess\<close> of \<open>src/log/log.cpp\<close>)
  remembers whether there is a coordinator and the failure after which it refuses to go on. The field
  \<open>ls_pending\<close> counts the truncations that \<open>truncate()\<close> has queued behind the mutex.
\<close>

datatype future_state = Ready | Failed string

record log_writer =
  lw_elected :: bool
  lw_error :: "string option"

record LogStorage =
  ls_starting :: "future_state option"
  ls_index :: "nat option"
  ls_truncated :: "nat option"
  ls_snapshots :: "string \<rightharpoonup> Snapshot"
  ls_writer :: log_writer
  ls_pending :: nat

definition new_log_storage :: LogStorage where
  "new_log_storage =
     \<lparr>ls_starting = None, ls_index = None, ls_truncated = None, ls_snapshots = Map.empty,
      ls_writer = \<lparr>lw_elected = False, lw_error = None\<rparr>, ls_pending = 0\<rparr>"

subsection \<open>Reading the log\<close>

definition apply_operation ::
  "state_log \<Rightarrow> nat \<Rightarrow> string \<Rightarrow> (string \<rightharpoonup> Snapshot) \<Rightarrow> (string \<rightharpoonup> Snapshot) outcome" where
  "apply_operation L p d S =
     (case sl_parse L d of
        None \<Rightarrow> Error ''Failed to deserialize Operation''
      | Some operation \<Rightarrow>
          (case op_type operation of
             SNAPSHOT \<Rightarrow>
               (case op_snapshot operation of
                  None \<Rightarrow> Abort
                | Some e \<Rightarrow> Ok (S(en_name e \<mapsto> \<lparr>sn_position = p, sn_entry = e, sn_diffs = 0\<rparr>)))
           | DIFF \<Rightarrow>
               (case op_diff operation of
                  None \<Rightarrow> Abort
                | Some e \<Rightarrow>
                    (case S (en_name e) of
                       None \<Rightarrow> Abort
                     | Some s \<Rightarrow>
                         (case snapshot_patch L e s of
                            Abort \<Rightarrow> Abort
                          | Error err \<Rightarrow> Error (''Failed to apply the diff: '' @ err)
                          | Ok s \<Rightarrow> Ok (S(en_name (sn_entry s) \<mapsto> s)))))
           | EXPUNGE \<Rightarrow>
               (case op_expunge operation of
                  None \<Rightarrow> Abort
                | Some n \<Rightarrow> Ok (S(n := None)))))"

fun ls_apply :: "state_log \<Rightarrow> (nat \<times> string) list \<Rightarrow> LogStorage \<Rightarrow> unit outcome \<times> LogStorage" where
  "ls_apply L [] st = (Ok (), st)"
| "ls_apply L ((p, d) # es) st =
     (if case ls_index st of None \<Rightarrow> True | Some i \<Rightarrow> i < p
      then
        (case apply_operation L p d (ls_snapshots st) of
           Abort \<Rightarrow> (Abort, st)
         | Error e \<Rightarrow> (Error e, st)
         | Ok S \<Rightarrow> ls_apply L es (st\<lparr>ls_snapshots := S, ls_index := Some p\<rparr>))
      else ls_apply L es st)"

text \<open>\<open>_start\<close> and \<open>__start\<close> after the writer was elected, with the reader's answers.\<close>

definition ls_apply_read ::
  "state_log \<Rightarrow> (nat \<times> string) list outcome \<Rightarrow> LogStorage \<Rightarrow> unit outcome \<times> LogStorage" where
  "ls_apply_read L r st =
     (case r of Abort \<Rightarrow> (Abort, st) | Error e \<Rightarrow> (Error e, st) | Ok es \<Rightarrow> ls_apply L es st)"

definition ls_started ::
  "state_log \<Rightarrow> nat \<Rightarrow> (nat \<Rightarrow> (nat \<times> string) list outcome) \<Rightarrow> LogStorage \<Rightarrow> unit outcome \<times> LogStorage" where
  "ls_started L beginning read st =
     (case ls_index st of
        Some i \<Rightarrow> if ls_truncated st = None then (Abort, st) else ls_apply_read L (read i) st
      | None \<Rightarrow> ls_apply_read L (read beginning) (st\<lparr>ls_truncated := Some beginning\<rparr>))"

subsection \<open>Changing the state\<close>

datatype decision = Reply bool | Append string nat

definition ls_set_decide :: "state_log \<Rightarrow> Entry \<Rightarrow> string \<Rightarrow> LogStorage \<Rightarrow> decision outcome" where
  "ls_set_decide L e uuid st =
     (let snapshot =
        (case sl_serialize L \<lparr>op_type = SNAPSHOT, op_snapshot = Some e, op_diff = None, op_expunge = None\<rparr> of
           None \<Rightarrow> Error ''Failed to serialize SNAPSHOT Operation''
         | Some v \<Rightarrow> Ok (Append v 0))
      in
      case ls_snapshots st (en_name e) of
        None \<Rightarrow> snapshot
      | Some s \<Rightarrow>
          (case uuid_get (sl_version L) (en_uuid (sn_entry s)) of
             Ok x \<Rightarrow>
               if x \<noteq> uuid then Ok (Reply False)
               else if sn_diffs s < sl_diffsBetweenSnapshots L
               then
                 (case sl_diff L (en_value (sn_entry s)) (en_value e) of
                    Abort \<Rightarrow> Abort
                  | Error err \<Rightarrow> Error (''Failed to construct diff: '' @ err)
                  | Ok d \<Rightarrow>
                      if length d < length (en_value e)
                      then
                        (case sl_serialize L
                                \<lparr>op_type = DIFF, op_snapshot = None, op_diff = Some (e\<lparr>en_value := d\<rparr>), op_expunge = None\<rparr> of
                           None \<Rightarrow> Error ''Failed to serialize DIFF Operation''
                         | Some v \<Rightarrow> Ok (Append v (sn_diffs s + 1)))
                      else snapshot)
               else snapshot
           | _ \<Rightarrow> Abort))"

fun option_max :: "nat option \<Rightarrow> nat option \<Rightarrow> nat option" where
  "option_max (Some a) (Some b) = Some (max a b)"
| "option_max (Some a) None = Some a"
| "option_max None (Some b) = Some b"
| "option_max None None = None"

definition ls_set_done :: "Entry \<Rightarrow> nat \<Rightarrow> nat option \<Rightarrow> LogStorage \<Rightarrow> bool outcome \<times> LogStorage" where
  "ls_set_done e diffs position st =
     (case position of
        None \<Rightarrow> (Ok False, st\<lparr>ls_starting := None\<rparr>)
      | Some p \<Rightarrow>
          (let st = st\<lparr>ls_index := option_max (ls_index st) (Some p)\<rparr>;
               put = (\<lambda>q. (Ok True,
                 st\<lparr>ls_snapshots := (ls_snapshots st)(en_name e \<mapsto>
                      \<lparr>sn_position = q, sn_entry = e, sn_diffs = diffs\<rparr>),
                    ls_pending := ls_pending st + 1\<rparr>))
           in
           if diffs > 0
           then (case ls_snapshots st (en_name e) of None \<Rightarrow> (Abort, st) | Some s \<Rightarrow> put (sn_position s))
           else put p))"

definition ls_expunge_decide :: "state_log \<Rightarrow> Entry \<Rightarrow> LogStorage \<Rightarrow> decision outcome" where
  "ls_expunge_decide L e st =
     (case ls_snapshots st (en_name e) of
        None \<Rightarrow> Ok (Reply False)
      | Some s \<Rightarrow>
          (case (uuid_get (sl_version L) (en_uuid (sn_entry s)), uuid_get (sl_version L) (en_uuid e)) of
             (Ok x, Ok y) \<Rightarrow>
               if x \<noteq> y then Ok (Reply False)
               else
                 (case sl_serialize L
                         \<lparr>op_type = EXPUNGE, op_snapshot = None, op_diff = None, op_expunge = Some (en_name e)\<rparr> of
                    None \<Rightarrow> Error ''Failed to serialize Operation''
                  | Some v \<Rightarrow> Ok (Append v 0))
           | _ \<Rightarrow> Abort))"

definition ls_expunge_done :: "Entry \<Rightarrow> nat option \<Rightarrow> LogStorage \<Rightarrow> bool outcome \<times> LogStorage" where
  "ls_expunge_done e position st =
     (case position of
        None \<Rightarrow> (Ok False, st\<lparr>ls_starting := None\<rparr>)
      | Some p \<Rightarrow>
          if ls_snapshots st (en_name e) = None then (Abort, st)
          else (Ok True, st\<lparr>ls_snapshots := (ls_snapshots st)(en_name e := None), ls_pending := ls_pending st + 1\<rparr>))"

text \<open>\<open>_truncate\<close>: the position to truncate to, if any.\<close>

definition ls_truncate :: "LogStorage \<Rightarrow> nat option outcome" where
  "ls_truncate st =
     (case ls_truncated st of
        None \<Rightarrow> Abort
      | Some t \<Rightarrow>
          (let ps = sn_position ` ran (ls_snapshots st) in
           Ok (if ps \<noteq> {} \<and> t < Min ps then Some (Min ps) else None)))"

definition ls_truncate_done :: "nat \<Rightarrow> nat option \<Rightarrow> LogStorage \<Rightarrow> LogStorage" where
  "ls_truncate_done minimum position st =
     (case position of
        None \<Rightarrow> st
      | Some p \<Rightarrow>
          st\<lparr>ls_truncated := option_max (ls_truncated st) (Some minimum),
             ls_index := option_max (ls_index st) position\<rparr>)"

definition ls_get :: "string \<Rightarrow> LogStorage \<Rightarrow> Entry option" where
  "ls_get name st = map_option sn_entry (ls_snapshots st name)"

definition ls_names :: "LogStorage \<Rightarrow> string set" where
  "ls_names st = dom (ls_snapshots st)"

subsection \<open>Replaying operations\<close>

text \<open>The operations of a log, applied one after the other.\<close>

fun run_ops :: "state_log \<Rightarrow> (nat \<times> string) list \<Rightarrow> (string \<rightharpoonup> Snapshot) \<Rightarrow> (string \<rightharpoonup> Snapshot) outcome" where
  "run_ops L [] S = Ok S"
| "run_ops L ((p, d) # es) S = bind_outcome (apply_operation L p d S) (run_ops L es)"

definition state_of :: "(string \<rightharpoonup> Snapshot) \<Rightarrow> entries" where
  "state_of S = (\<lambda>n. map_option sn_entry (S n))"

definition upto_pos :: "nat \<Rightarrow> (nat \<times> string) list \<Rightarrow> (nat \<times> string) list" where
  "upto_pos k es = filter (\<lambda>e. fst e \<le> k) es"

definition from_pos :: "nat \<Rightarrow> (nat \<times> string) list \<Rightarrow> (nat \<times> string) list" where
  "from_pos b es = filter (\<lambda>e. b \<le> fst e) es"

text \<open>Operations as this code writes them: for names in \<open>N\<close>, and differences only if they are enabled.\<close>

definition op_ok :: "state_log \<Rightarrow> string set \<Rightarrow> string \<Rightarrow> bool" where
  "op_ok L N d \<longleftrightarrow>
     (case sl_parse L d of
        None \<Rightarrow> False
      | Some operation \<Rightarrow>
          (case op_type operation of
             SNAPSHOT \<Rightarrow> (case op_snapshot operation of None \<Rightarrow> False
                | Some e \<Rightarrow> en_name e \<in> N \<and> valid_uuid (sl_version L) (en_uuid e))
           | DIFF \<Rightarrow> (case op_diff operation of None \<Rightarrow> False
                | Some e \<Rightarrow> en_name e \<in> N \<and> valid_uuid (sl_version L) (en_uuid e) \<and> 0 < sl_diffsBetweenSnapshots L)
           | EXPUNGE \<Rightarrow> (case op_expunge operation of None \<Rightarrow> False | Some n \<Rightarrow> n \<in> N)))"

lemma op_ok_cases:
  assumes "op_ok L N d"
  obtains
    (snapshot) e where "en_name e \<in> N" "valid_uuid (sl_version L) (en_uuid e)"
      "\<forall>p S. apply_operation L p d S = Ok (S(en_name e \<mapsto> \<lparr>sn_position = p, sn_entry = e, sn_diffs = 0\<rparr>))"
  | (diff) e :: Entry where "en_name e \<in> N" "valid_uuid (sl_version L) (en_uuid e)" "0 < sl_diffsBetweenSnapshots L"
      "\<forall>p S T. apply_operation L p d S = Ok T \<longrightarrow> (\<exists>s s'. S (en_name e) = Some s \<and> T = S(en_name e \<mapsto> s') \<and>
         sn_position s' = sn_position s \<and> en_name (sn_entry s') = en_name e \<and> en_uuid (sn_entry s') = en_uuid e)"
  | (expunge) n where "n \<in> N" "\<forall>p S. apply_operation L p d S = Ok (S(n := None))"
proof -
  obtain x where x: "sl_parse L d = Some x"
    using assms by (auto simp: op_ok_def split: option.splits)
  show thesis
  proof (cases "op_type x")
    case SNAPSHOT
    then obtain e where "op_snapshot x = Some e" "en_name e \<in> N" "valid_uuid (sl_version L) (en_uuid e)"
      using assms x by (auto simp: op_ok_def split: option.splits)
    then show ?thesis
      using x SNAPSHOT by (intro snapshot [of e]) (simp_all add: apply_operation_def)
  next
    case DIFF
    then obtain e where e: "op_diff x = Some e" "en_name e \<in> N" "valid_uuid (sl_version L) (en_uuid e)"
      "0 < sl_diffsBetweenSnapshots L"
      using assms x by (auto simp: op_ok_def split: option.splits)
    show ?thesis
      by (rule diff [OF e(2-4)])
        (auto simp: apply_operation_def x DIFF e(1) snapshot_patch_def split: option.splits outcome.splits if_splits)
  next
    case EXPUNGE
    then obtain n where "op_expunge x = Some n" "n \<in> N"
      using assms x by (auto simp: op_ok_def split: option.splits)
    then show ?thesis
      using x EXPUNGE by (intro expunge [of n]) (simp_all add: apply_operation_def)
  qed
qed

lemma run_ops_append: "run_ops L (xs @ ys) S = bind_outcome (run_ops L xs S) (run_ops L ys)"
proof (induction xs arbitrary: S)
  case (Cons e xs)
  obtain p d where e: "e = (p, d)"
    by fastforce
  show ?case
    using Cons by (cases "apply_operation L p d S") (simp_all add: e)
qed simp

lemma run_ops_append_Ok: "run_ops L xs S = Ok T \<Longrightarrow> run_ops L (xs @ ys) S = run_ops L ys T"
  by (simp add: run_ops_append)

lemma run_ops_Cons_Ok:
  "run_ops L ((p, d) # es) S = Ok T \<longleftrightarrow> (\<exists>S1. apply_operation L p d S = Ok S1 \<and> run_ops L es S1 = Ok T)"
  by (cases "apply_operation L p d S") simp_all

lemma run_ops_prefix:
  assumes "run_ops L (xs @ ys) S = Ok T"
  obtains R where "run_ops L xs S = Ok R" "run_ops L ys R = Ok T"
  using assms by (cases "run_ops L xs S") (simp_all add: run_ops_append)

definition ops_ok :: "state_log \<Rightarrow> string set \<Rightarrow> (nat \<times> string) list \<Rightarrow> bool" where
  "ops_ok L N es \<longleftrightarrow> list_all (\<lambda>e. op_ok L N (snd e)) es"

lemma ops_ok_simps [simp]:
  "ops_ok L N []" "ops_ok L N ((p, d) # es) \<longleftrightarrow> op_ok L N d \<and> ops_ok L N es"
  "ops_ok L N (xs @ ys) \<longleftrightarrow> ops_ok L N xs \<and> ops_ok L N ys"
  by (simp_all add: ops_ok_def)

lemma ops_ok_filter: "ops_ok L N es \<Longrightarrow> ops_ok L N (filter f es)"
  by (auto simp: ops_ok_def list_all_iff)

lemma state_of_update [simp]:
  "state_of (S(n \<mapsto> s)) = (state_of S)(n \<mapsto> sn_entry s)" "state_of (S(n := None)) = (state_of S)(n := None)"
  "state_of Map.empty = Map.empty"
  by (auto simp: state_of_def)

lemma ops_ok_part:
  "ops_ok L N es \<Longrightarrow> ops_ok L N (upto_pos k es)" "ops_ok L N es \<Longrightarrow> ops_ok L N (from_pos k es)"
  by (simp_all add: upto_pos_def from_pos_def ops_ok_filter)

lemma apply_entries_ok:
  assumes d: "op_ok L N d" and a: "apply_operation L p d S = Ok T" and S: "entries_ok (sl_version L) (state_of S)"
  shows "entries_ok (sl_version L) (state_of T)"
  using d
proof (cases rule: op_ok_cases)
  case (snapshot e)
  then show ?thesis
    using a entries_ok_put [OF S snapshot(2)] by auto
next
  case (diff e)
  then obtain s s' where T: "T = S(en_name e \<mapsto> s')" and n: "en_name (sn_entry s') = en_name e"
    and u: "en_uuid (sn_entry s') = en_uuid e"
    using a by blast
  show ?thesis
    using entries_ok_put [OF S, of "sn_entry s'"] diff(2) by (simp add: T n u)
next
  case (expunge n)
  then show ?thesis
    using a entries_ok_remove [OF S, of n] by auto
qed

lemma run_entries_ok:
  "ops_ok L N es \<Longrightarrow> run_ops L es S = Ok T \<Longrightarrow> entries_ok (sl_version L) (state_of S) \<Longrightarrow>
   entries_ok (sl_version L) (state_of T)"
proof (induction es arbitrary: S)
  case (Cons e es)
  obtain p d S1 where e: "e = (p, d)" "apply_operation L p d S = Ok S1" "run_ops L es S1 = Ok T" "op_ok L N d"
    "ops_ok L N es"
    using Cons.prems by (cases e) (auto simp: run_ops_Cons_Ok simp del: run_ops.simps(2))
  show ?case
    using Cons.IH [OF e(5,3)] apply_entries_ok [OF e(4,2) Cons.prems(3)] by simp
qed simp

lemma run_dom:
  "ops_ok L N es \<Longrightarrow> run_ops L es S = Ok T \<Longrightarrow> dom S \<subseteq> N \<Longrightarrow> dom T \<subseteq> N"
proof (induction es arbitrary: S)
  case (Cons e es)
  obtain p d S1 where e: "e = (p, d)" "apply_operation L p d S = Ok S1" "run_ops L es S1 = Ok T" "op_ok L N d"
    using Cons.prems by (cases e) (auto simp: run_ops_Cons_Ok simp del: run_ops.simps(2))
  have "dom S1 \<subseteq> N"
    using e(4)
  proof (cases rule: op_ok_cases)
    case (diff e')
    then obtain s' where "S1 = S(en_name e' \<mapsto> s')"
      using e(2) by blast
    then show ?thesis
      using diff(1) Cons.prems(3) by auto
  qed (use e(2) Cons.prems(3) in \<open>auto simp: subset_iff dom_def split: if_splits\<close>)
  then show ?case
    using Cons.IH e Cons.prems(1) by simp
qed simp

text \<open>A snapshot carries the position of the operation that wrote it.\<close>

definition snapshot_op :: "state_log \<Rightarrow> string \<Rightarrow> nat \<Rightarrow> string \<Rightarrow> bool" where
  "snapshot_op L n p d \<longleftrightarrow> (\<exists>s. sn_position s = p \<and> (\<forall>S. apply_operation L p d S = Ok (S(n \<mapsto> s))))"

lemma apply_positions:
  assumes "op_ok L N d" "apply_operation L p d S = Ok T" "T n = Some t"
  shows "sn_position t = p \<and> snapshot_op L n p d \<or> (\<exists>s. S n = Some s \<and> sn_position s = sn_position t)"
  using assms(1)
proof (cases rule: op_ok_cases)
  case (snapshot e)
  then have T: "T = S(en_name e \<mapsto> \<lparr>sn_position = p, sn_entry = e, sn_diffs = 0\<rparr>)"
    using assms(2) by simp
  have "snapshot_op L (en_name e) p d"
    unfolding snapshot_op_def using snapshot(3)
    by (intro exI [of _ "\<lparr>sn_position = p, sn_entry = e, sn_diffs = 0\<rparr>"]) simp
  then show ?thesis
    using T assms(3) by (auto split: if_splits)
next
  case (diff e)
  then obtain s s' where "S (en_name e) = Some s" "T = S(en_name e \<mapsto> s')" "sn_position s' = sn_position s"
    using assms(2) by blast
  then show ?thesis
    using assms(3) by (auto split: if_splits)
next
  case (expunge m)
  then show ?thesis
    using assms(2,3) by (auto split: if_splits)
qed

lemma run_positions:
  "ops_ok L N es \<Longrightarrow> run_ops L es S = Ok T \<Longrightarrow> T n = Some t \<Longrightarrow>
   (\<exists>d. (sn_position t, d) \<in> set es \<and> snapshot_op L n (sn_position t) d) \<or>
   (\<exists>s. S n = Some s \<and> sn_position s = sn_position t)"
proof (induction es arbitrary: S)
  case (Cons e es)
  obtain p d S1 where e: "e = (p, d)" "apply_operation L p d S = Ok S1" "run_ops L es S1 = Ok T" "op_ok L N d"
    "ops_ok L N es"
    using Cons.prems by (cases e) (auto simp: run_ops_Cons_Ok simp del: run_ops.simps(2))
  then consider (later) d where "(sn_position t, d) \<in> set es" "snapshot_op L n (sn_position t) d"
    | (kept) s where "S1 n = Some s" "sn_position s = sn_position t"
    using Cons.IH [OF e(5,3) Cons.prems(3)] by blast
  then show ?case
  proof cases
    case kept
    then show ?thesis
      using apply_positions [OF e(4) e(2), of n s] e(1) by auto
  qed (use e(1) in auto)
qed simp

subsection \<open>Prefixes and suffixes of a log\<close>

abbreviation entry_positions :: "(nat \<times> string) list \<Rightarrow> nat list" where
  "entry_positions es \<equiv> map fst es"

lemma sorted_split:
  assumes "sorted_wrt (<) (entry_positions es)" "\<And>i j. i < j \<Longrightarrow> P i \<Longrightarrow> P j"
  shows "es = filter (\<lambda>e. \<not> P (fst e)) es @ filter (\<lambda>e. P (fst e)) es"
  using assms(1)
proof (induction es)
  case (Cons e es)
  show ?case
  proof (cases "P (fst e)")
    case True
    then have "\<forall>x\<in>set es. P (fst x)"
      using Cons.prems assms(2) by auto
    then show ?thesis
      using True by (simp add: filter_empty_conv filter_id_conv)
  qed (use Cons in simp)
qed simp

lemma split_upto:
  "sorted_wrt (<) (entry_positions es) \<Longrightarrow> es = upto_pos k es @ filter (\<lambda>e. k < fst e) es"
  using sorted_split [of es "\<lambda>i. k < i"] by (simp add: upto_pos_def not_less)

lemma split_from:
  "sorted_wrt (<) (entry_positions es) \<Longrightarrow> es = filter (\<lambda>e. fst e < b) es @ from_pos b es"
  using sorted_split [of es "\<lambda>i. b \<le> i"] by (simp add: from_pos_def not_le)

lemma run_upto:
  assumes "run_ops L es Map.empty = Ok G" "sorted_wrt (<) (entry_positions es)"
  obtains S where "run_ops L (upto_pos k es) Map.empty = Ok S" "run_ops L (filter (\<lambda>e. k < fst e) es) S = Ok G"
  using run_ops_prefix [of L "upto_pos k es"] assms(1) split_upto [OF assms(2), of k] by metis

text \<open>
  Expunging is idempotent, so that a process may read again the operations with which it expunged.
\<close>

definition expunge_op :: "state_log \<Rightarrow> string \<Rightarrow> bool" where
  "expunge_op L d \<longleftrightarrow> (\<exists>n. \<forall>p S. apply_operation L p d S = Ok (S(n := None)))"

lemma run_expunges:
  "list_all (\<lambda>e. expunge_op L (snd e)) es \<Longrightarrow> \<exists>X. \<forall>S. run_ops L es S = Ok (S |` X)"
proof (induction es)
  case Nil
  show ?case
    by (intro exI [of _ UNIV]) simp
next
  case (Cons e es)
  obtain p d where e: "e = (p, d)"
    by fastforce
  obtain n where n: "\<forall>p S. apply_operation L p d S = Ok (S(n := None))"
    using Cons.prems by (auto simp: e expunge_op_def)
  obtain X where "\<forall>S. run_ops L es S = Ok (S |` X)"
    using Cons by auto
  then have "\<forall>S. run_ops L (e # es) S = Ok (S |` (X - {n}))"
    using n by (auto simp: e restrict_map_def)
  then show ?case
    by blast
qed

lemma run_expunges_again:
  assumes "list_all (\<lambda>e. expunge_op L (snd e)) es" "run_ops L es S = Ok T"
  shows "run_ops L es T = Ok T"
  using run_expunges [OF assms(1)] assms(2) by auto

text \<open>Without differences, a list of operations overwrites some names and leaves the others alone.\<close>

lemma run_overwrites:
  assumes "sl_diffsBetweenSnapshots L = 0"
  shows "ops_ok L N es \<Longrightarrow> \<exists>X R. dom R \<subseteq> X \<and> (\<forall>S. run_ops L es S = Ok (\<lambda>n. if n \<in> X then R n else S n))"
proof (induction es)
  case Nil
  show ?case
    by (intro exI [of _ "{}"] exI [of _ Map.empty]) simp
next
  case (Cons e es)
  obtain p d where e: "e = (p, d)"
    by fastforce
  obtain X R where X: "dom R \<subseteq> X" "\<forall>S. run_ops L es S = Ok (\<lambda>n. if n \<in> X then R n else S n)"
    using Cons by (auto simp: e)
  have "\<exists>m x. \<forall>S. apply_operation L p d S = Ok (S(m := x))"
  proof -
    have d: "op_ok L N d"
      using Cons.prems by (simp add: e)
    then show ?thesis
    proof (cases rule: op_ok_cases)
      case (diff e')
      then show ?thesis
        using assms by simp
    qed blast+
  qed
  then obtain m x where "\<forall>S. apply_operation L p d S = Ok (S(m := x))"
    by blast
  then have "\<forall>S. run_ops L (e # es) S =
      Ok (\<lambda>n. if n \<in> insert m X then (if m \<in> X then R else R(m := x)) n else S n)"
    using X(2) by (auto simp: e)
  moreover have "dom (if m \<in> X then R else R(m := x)) \<subseteq> insert m X"
    using X(1) by auto
  ultimately show ?case
    by blast
qed

subsection \<open>Truncation\<close>

text \<open>
  Truncating to the smallest position of a snapshot loses nothing when differences are disabled or there is
  only one variable. The snapshots may be those of any earlier point \<open>k\<close> of the log.
\<close>

lemma drop_overwritten:
  assumes es: "sorted_wrt (<) (entry_positions es)" "ops_ok L N es" "run_ops L es Map.empty = Ok G"
    and d: "sl_diffsBetweenSnapshots L = 0" and c: "\<And>n s. G n = Some s \<Longrightarrow> c \<le> sn_position s"
  shows "run_ops L (from_pos c es) Map.empty = Ok G"
proof -
  let ?pre = "filter (\<lambda>e. fst e < c) es"
  obtain P where P: "run_ops L ?pre Map.empty = Ok P" "run_ops L (from_pos c es) P = Ok G"
    using run_ops_prefix [of L ?pre] es(3) split_from [OF es(1), of c] by metis
  obtain X R where R: "dom R \<subseteq> X" "\<forall>S. run_ops L (from_pos c es) S = Ok (\<lambda>n. if n \<in> X then R n else S n)"
    using run_overwrites [OF d ops_ok_part(2) [OF es(2)]] by blast
  have "P n = None" if "n \<notin> X" for n
  proof (rule ccontr)
    assume "P n \<noteq> None"
    then obtain s where s: "P n = Some s"
      by blast
    then have "sn_position s < c"
      using run_positions [OF ops_ok_filter [OF es(2)] P(1) s] by auto
    moreover have "G n = Some s"
      using P(2) R(2) s that by auto
    ultimately show False
      using c by fastforce
  qed
  moreover have "G = (\<lambda>n. if n \<in> X then R n else P n)"
    using P(2) R(2) by simp
  ultimately have "G = (\<lambda>n. if n \<in> X then R n else None)"
    by (simp add: fun_eq_iff)
  then show ?thesis
    using R(2) by simp
qed

lemma snapshot_bounds:
  assumes es: "ops_ok L N es" "run_ops L es Map.empty = Ok S"
  shows "finite (sn_position ` ran S)" "sn_position ` ran S \<subseteq> set (entry_positions es)"
proof -
  show s: "sn_position ` ran S \<subseteq> set (entry_positions es)"
    using run_positions [OF es] by (force simp: ran_def)
  show "finite (sn_position ` ran S)"
    using finite_subset [OF s] by simp
qed

lemma ran_nonempty: "ran S = {} \<longleftrightarrow> S = Map.empty"
  by (auto simp: ran_def fun_eq_iff) (metis option.exhaust)

lemma minimum_bounds:
  assumes es: "sorted_wrt (<) (entry_positions es)" "ops_ok L N es"
    and G: "run_ops L es Map.empty = Ok G" "run_ops L (from_pos b es) Map.empty = Ok G"
    and S: "run_ops L (upto_pos k es) Map.empty = Ok S" "S \<noteq> Map.empty"
    and g: "G n = Some s"
  shows "max b (Min (sn_position ` ran S)) \<le> sn_position s"
proof -
  note k = ops_ok_part(1) [OF es(2), of k]
  note bounds = snapshot_bounds [OF k S(1)]
  have "sn_position ` ran S \<noteq> {}"
    using S(2) by (simp add: ran_nonempty)
  then have "Min (sn_position ` ran S) \<in> set (entry_positions (upto_pos k es))"
    using Min_in bounds by blast
  then have m: "Min (sn_position ` ran S) \<le> k"
    by (auto simp: upto_pos_def)
  obtain S' where "run_ops L (upto_pos k es) Map.empty = Ok S'" "run_ops L (filter (\<lambda>e. k < fst e) es) S' = Ok G"
    using run_upto [OF G(1) es(1)] .
  then have rest: "run_ops L (filter (\<lambda>e. k < fst e) es) S = Ok G"
    using S(1) by simp
  have "Min (sn_position ` ran S) \<le> sn_position s"
    using run_positions [OF ops_ok_filter [OF es(2)] rest g]
  proof
    assume "\<exists>d. (sn_position s, d) \<in> set (filter (\<lambda>e. k < fst e) es) \<and> snapshot_op L n (sn_position s) d"
    then show ?thesis
      using m by auto
  next
    assume "\<exists>t. S n = Some t \<and> sn_position t = sn_position s"
    then have "sn_position s \<in> sn_position ` ran S"
      by (metis imageI ranI)
    then show ?thesis
      using bounds(1) by (rule Min_le [rotated])
  qed
  moreover have "b \<le> sn_position s"
    using run_positions [OF ops_ok_part(2) [OF es(2)] G(2) g] by (auto simp: from_pos_def)
  ultimately show ?thesis
    by simp
qed

lemma drop_before_snapshot:
  assumes es: "sorted_wrt (<) (entry_positions es)" "ops_ok L {n} es" "run_ops L es Map.empty = Ok G"
    and m: "(m, d) \<in> set es" "snapshot_op L n m d"
  shows "run_ops L (from_pos m es) Map.empty = Ok G"
proof -
  let ?pre = "filter (\<lambda>e. fst e < m) es"
  obtain P where P: "run_ops L ?pre Map.empty = Ok P" "run_ops L (from_pos m es) P = Ok G"
    using run_ops_prefix [of L ?pre] es(3) split_from [OF es(1), of m] by metis
  have dom: "dom P \<subseteq> {n}"
    using run_dom [OF ops_ok_filter [OF es(2)] P(1)] by simp
  obtain xs ys where xs: "es = xs @ (m, d) # ys"
    using m(1) by (meson split_list)
  then have "\<forall>x\<in>set xs. fst x < m" "\<forall>x\<in>set ys. m < fst x"
    using es(1) by (auto simp: sorted_wrt_append)
  then have "filter (\<lambda>e. m \<le> fst e) xs = []" "filter (\<lambda>e. m \<le> fst e) ys = ys"
    by (auto simp: filter_empty_conv filter_id_conv)
  then have "from_pos m es = (m, d) # ys"
    by (simp add: xs from_pos_def)
  moreover obtain s where "\<forall>S. apply_operation L m d S = Ok (S(n \<mapsto> s))"
    using m(2) by (auto simp: snapshot_op_def)
  moreover have "P(n \<mapsto> s) = Map.empty(n \<mapsto> s)"
    using dom by (auto simp: dom_def fun_eq_iff)
  ultimately show ?thesis
    using P(2) by simp
qed

definition simple_names :: "state_log \<Rightarrow> string set \<Rightarrow> bool" where
  "simple_names L N \<longleftrightarrow> sl_diffsBetweenSnapshots L = 0 \<or> (\<exists>n. N = {n})"

lemma truncation_safe:
  assumes N: "simple_names L N" and es: "sorted_wrt (<) (entry_positions es)" "ops_ok L N es"
    and G: "run_ops L es Map.empty = Ok G" "run_ops L (from_pos b es) Map.empty = Ok G"
    and S: "run_ops L (upto_pos k es) Map.empty = Ok S" "S \<noteq> Map.empty"
  shows "run_ops L (from_pos (max b (Min (sn_position ` ran S))) es) Map.empty = Ok G"
proof (cases "sl_diffsBetweenSnapshots L = 0")
  case True
  then show ?thesis
    using drop_overwritten [OF es G(1)] minimum_bounds [OF es G S] by blast
next
  case False
  then obtain n where n: "N = {n}"
    using N by (auto simp: simple_names_def)
  note k = ops_ok_part(1) [OF es(2), of k]
  have ne: "sn_position ` ran S \<noteq> {}"
    using S(2) by (simp add: ran_nonempty)
  obtain a s where s: "S a = Some s" "Min (sn_position ` ran S) = sn_position s"
    using Min_in [OF snapshot_bounds(1) [OF k S(1)] ne] by (auto simp: ran_def)
  moreover have "a = n"
    using run_dom [OF k S(1)] s(1) by (auto simp: n)
  ultimately obtain d where "(sn_position s, d) \<in> set es" "snapshot_op L n (sn_position s) d"
    using run_positions [OF k S(1) s(1)] by (auto simp: upto_pos_def)
  then show ?thesis
    using drop_before_snapshot [OF es(1) _ G(1), of n] es(2) G(2) s(2) by (auto simp: n max_def)
qed

end
