(* ===== verification/State_Cluster.thy ===== *)
theory State_Cluster
  imports State_Log
begin

section \<open>Processes that share a replicated log\<close>

text \<open>
  Several \<open>LogStorageProcess\<close>es over one replicated log, any of which may believe that it is the writer. The
  log is specified by what a reader and a writer observe of it; the operations of a process run one after
  the other, as its mutex has it, each with what the log does during the operation as an argument.
\<close>

subsection \<open>The log as its readers and writers see it\<close>

text \<open>
  The entries with their positions (also those that are truncated, which nobody can read), the beginning and
  the ending of the log, and for each writer the last position that its coordinator knows. A writer's
  action takes the position after that one; it can only be chosen when that position is still free.
  A commit is reported to the writer. A writer that is demoted or fails does not know whether its action
  was chosen. An election can add positions without entries.
\<close>

record 'w slog =
  lg_entries :: "(nat \<times> string) list"
  lg_begin :: nat
  lg_end :: nat
  lg_index :: "'w \<rightharpoonup> nat"

datatype fate = Commit | Demoted bool | Broken string bool

datatype election = Elected nat | Unelected string nat

definition lg_read :: "nat \<Rightarrow> nat \<Rightarrow> 'w slog \<Rightarrow> (nat \<times> string) list outcome" where
  "lg_read a b lg =
     (if b < a then Error ''Bad read range (to < from)''
      else if a < lg_begin lg then Error ''Bad read range (truncated position)''
      else if lg_end lg < b then Error ''Bad read range (past end of log)''
      else Ok (filter (\<lambda>e. a \<le> fst e \<and> fst e \<le> b) (lg_entries lg)))"

definition lg_write :: "'w \<Rightarrow> fate \<Rightarrow> (nat \<Rightarrow> 'w slog \<Rightarrow> 'w slog) \<Rightarrow> 'w slog \<Rightarrow> nat option outcome \<times> 'w slog" where
  "lg_write w f act lg =
     (let free = (lg_index lg w = Some (lg_end lg)); p = Suc (lg_end lg);
          chosen = act p (lg\<lparr>lg_end := p, lg_index := (lg_index lg)(w := None)\<rparr>);
          ignored = lg\<lparr>lg_index := (lg_index lg)(w := None)\<rparr>
      in
      case f of
        Commit \<Rightarrow>
          if free then (Ok (Some p), chosen\<lparr>lg_index := (lg_index lg)(w \<mapsto> p)\<rparr>) else (Ok None, ignored)
      | Demoted b \<Rightarrow> (Ok None, if free \<and> b then chosen else ignored)
      | Broken e b \<Rightarrow> (Error e, if free \<and> b then chosen else ignored))"

definition lg_append :: "string \<Rightarrow> nat \<Rightarrow> 'w slog \<Rightarrow> 'w slog" where
  "lg_append d p lg = lg\<lparr>lg_entries := lg_entries lg @ [(p, d)]\<rparr>"

definition lg_truncate :: "nat \<Rightarrow> nat \<Rightarrow> 'w slog \<Rightarrow> 'w slog" where
  "lg_truncate m p lg = lg\<lparr>lg_begin := max (lg_begin lg) m\<rparr>"

subsection \<open>The writer\<close>

text \<open>\<open>LogWriterProcess\<close>: \<open>act\<close> is the call of the coordinator, \<open>message\<close> what \<open>failed\<close> remembers.\<close>

definition writer_call ::
  "string \<Rightarrow> ('l \<Rightarrow> 'a outcome \<times> 'l) \<Rightarrow> log_writer \<times> 'l \<Rightarrow> 'a outcome \<times> log_writer \<times> 'l" where
  "writer_call message act = (\<lambda>(lw, lg).
     if \<not> lw_elected lw then (Error ''No election has been performed'', lw, lg)
     else
       (case lw_error lw of
          Some e \<Rightarrow> (Error e, lw, lg)
        | None \<Rightarrow>
            (case act lg of
               (Error e, lg) \<Rightarrow> (Error e, lw\<lparr>lw_error := Some (message @ '': '' @ e)\<rparr>, lg)
             | (r, lg) \<Rightarrow> (r, lw, lg))))"

definition writer_append ::
  "'w \<Rightarrow> fate \<Rightarrow> string \<Rightarrow> log_writer \<times> 'w slog \<Rightarrow> nat option outcome \<times> log_writer \<times> 'w slog" where
  "writer_append w f d = writer_call ''Failed to append'' (lg_write w f (lg_append d))"

definition writer_truncate ::
  "'w \<Rightarrow> fate \<Rightarrow> nat \<Rightarrow> log_writer \<times> 'w slog \<Rightarrow> nat option outcome \<times> log_writer \<times> 'w slog" where
  "writer_truncate w f m = writer_call ''Failed to truncate'' (lg_write w f (lg_truncate m))"

text \<open>
  \<open>LogWriterProcess::_start\<close> deletes the coordinator and runs an election with a new one. Elections that
  are lost are repeated by the storage, so that one is won in the end, or fails.
\<close>

definition writer_start ::
  "'w \<Rightarrow> election \<Rightarrow> log_writer \<times> 'w slog \<Rightarrow> nat outcome \<times> log_writer \<times> 'w slog" where
  "writer_start w el = (\<lambda>(lw, lg).
     case el of
       Elected gap \<Rightarrow>
         (Ok (lg_end lg + gap), \<lparr>lw_elected = True, lw_error = None\<rparr>,
          lg\<lparr>lg_end := lg_end lg + gap, lg_index := (lg_index lg)(w \<mapsto> lg_end lg + gap)\<rparr>)
     | Unelected e gap \<Rightarrow>
         (Error e, \<lparr>lw_elected = True, lw_error = Some (''Failed to start: '' @ e)\<rparr>,
          lg\<lparr>lg_end := lg_end lg + gap, lg_index := (lg_index lg)(w := None)\<rparr>))"

subsection \<open>The operations of the storage\<close>

definition ls_start :: "state_log \<Rightarrow> 'w \<Rightarrow> election \<Rightarrow> LogStorage \<times> 'w slog \<Rightarrow> unit outcome \<times> LogStorage \<times> 'w slog" where
  "ls_start L w el = (\<lambda>(st, lg).
     case ls_starting st of
       Some Ready \<Rightarrow> (Ok (), st, lg)
     | Some (Failed e) \<Rightarrow> (Error e, st, lg)
     | None \<Rightarrow>
         (case writer_start w el (ls_writer st, lg) of
            (Ok position, lw, lg) \<Rightarrow>
              (case ls_started L (lg_begin lg) (\<lambda>a. lg_read a position lg) (st\<lparr>ls_writer := lw\<rparr>) of
                 (Ok _, st) \<Rightarrow> (Ok (), st\<lparr>ls_starting := Some Ready\<rparr>, lg)
               | (Error e, st) \<Rightarrow> (Error e, st\<lparr>ls_starting := Some (Failed e)\<rparr>, lg)
               | (Abort, st) \<Rightarrow> (Abort, st, lg))
          | (Error e, lw, lg) \<Rightarrow> (Error e, st\<lparr>ls_writer := lw, ls_starting := Some (Failed e)\<rparr>, lg)
          | (Abort, lw, lg) \<Rightarrow> (Abort, st, lg)))"

definition log_get ::
  "state_log \<Rightarrow> 'w \<Rightarrow> election \<Rightarrow> string \<Rightarrow> LogStorage \<times> 'w slog \<Rightarrow> Entry option outcome \<times> LogStorage \<times> 'w slog" where
  "log_get L w el name s =
     (case ls_start L w el s of
        (Ok _, st, lg) \<Rightarrow> (Ok (ls_get name st), st, lg)
      | (Error e, s) \<Rightarrow> (Error e, s)
      | (Abort, s) \<Rightarrow> (Abort, s))"

definition log_names ::
  "state_log \<Rightarrow> 'w \<Rightarrow> election \<Rightarrow> LogStorage \<times> 'w slog \<Rightarrow> string set outcome \<times> LogStorage \<times> 'w slog" where
  "log_names L w el s =
     (case ls_start L w el s of
        (Ok _, st, lg) \<Rightarrow> (Ok (ls_names st), st, lg)
      | (Error e, s) \<Rightarrow> (Error e, s)
      | (Abort, s) \<Rightarrow> (Abort, s))"

text \<open>What \<open>__set\<close> and \<open>__expunge\<close> do after their decision: append, and continue with the position.\<close>

definition log_commit ::
  "'w \<Rightarrow> fate \<Rightarrow> decision outcome \<Rightarrow> (nat \<Rightarrow> nat option \<Rightarrow> LogStorage \<Rightarrow> bool outcome \<times> LogStorage) \<Rightarrow>
   LogStorage \<times> 'w slog \<Rightarrow> bool outcome \<times> LogStorage \<times> 'w slog" where
  "log_commit w f decided continue = (\<lambda>(st, lg).
     case decided of
       Abort \<Rightarrow> (Abort, st, lg)
     | Error e \<Rightarrow> (Error e, st, lg)
     | Ok (Reply b) \<Rightarrow> (Ok b, st, lg)
     | Ok (Append d diffs) \<Rightarrow>
         (case writer_append w f d (ls_writer st, lg) of
            (Ok position, lw, lg) \<Rightarrow>
              (case continue diffs position (st\<lparr>ls_writer := lw\<rparr>) of (r, st) \<Rightarrow> (r, st, lg))
          | (Error e, lw, lg) \<Rightarrow> (Error e, st\<lparr>ls_writer := lw\<rparr>, lg)
          | (Abort, lw, lg) \<Rightarrow> (Abort, st\<lparr>ls_writer := lw\<rparr>, lg)))"

definition log_set ::
  "state_log \<Rightarrow> 'w \<Rightarrow> election \<Rightarrow> fate \<Rightarrow> Entry \<Rightarrow> string \<Rightarrow> LogStorage \<times> 'w slog \<Rightarrow> bool outcome \<times> LogStorage \<times> 'w slog" where
  "log_set L w el f e uuid s =
     (case ls_start L w el s of
        (Ok _, st, lg) \<Rightarrow> log_commit w f (ls_set_decide L e uuid st) (ls_set_done e) (st, lg)
      | (Error err, s) \<Rightarrow> (Error err, s)
      | (Abort, s) \<Rightarrow> (Abort, s))"

definition log_expunge ::
  "state_log \<Rightarrow> 'w \<Rightarrow> election \<Rightarrow> fate \<Rightarrow> Entry \<Rightarrow> LogStorage \<times> 'w slog \<Rightarrow> bool outcome \<times> LogStorage \<times> 'w slog" where
  "log_expunge L w el f e s =
     (case ls_start L w el s of
        (Ok _, st, lg) \<Rightarrow> log_commit w f (ls_expunge_decide L e st) (\<lambda>_. ls_expunge_done e) (st, lg)
      | (Error err, s) \<Rightarrow> (Error err, s)
      | (Abort, s) \<Rightarrow> (Abort, s))"

text \<open>A truncation that was queued, when its turn has come.\<close>

definition log_truncation :: "'w \<Rightarrow> fate \<Rightarrow> LogStorage \<times> 'w slog \<Rightarrow> unit outcome \<times> LogStorage \<times> 'w slog" where
  "log_truncation w f = (\<lambda>(st, lg).
     if ls_pending st = 0 then (Ok (), st, lg)
     else
       (let st = st\<lparr>ls_pending := ls_pending st - 1\<rparr> in
        case ls_truncate st of
          Abort \<Rightarrow> (Abort, st, lg)
        | Error e \<Rightarrow> (Error e, st, lg)
        | Ok None \<Rightarrow> (Ok (), st, lg)
        | Ok (Some m) \<Rightarrow>
            (case writer_truncate w f m (ls_writer st, lg) of
               (Ok position, lw, lg) \<Rightarrow> (Ok (), ls_truncate_done m position (st\<lparr>ls_writer := lw\<rparr>), lg)
             | (Error e, lw, lg) \<Rightarrow> (Error e, st\<lparr>ls_writer := lw\<rparr>, lg)
             | (Abort, lw, lg) \<Rightarrow> (Abort, st\<lparr>ls_writer := lw\<rparr>, lg))))"

subsection \<open>Invariants\<close>

definition contents :: "state_log \<Rightarrow> 'w slog \<Rightarrow> string \<rightharpoonup> Snapshot" where
  "contents L lg = (case run_ops L (lg_entries lg) Map.empty of Ok G \<Rightarrow> G | _ \<Rightarrow> Map.empty)"

text \<open>
  The readable part of the log yields the same state as all of it.
\<close>

definition log_inv :: "state_log \<Rightarrow> string set \<Rightarrow> 'w slog \<Rightarrow> bool" where
  "log_inv L N lg \<longleftrightarrow>
     sorted_wrt (<) (entry_positions (lg_entries lg)) \<and> (\<forall>e\<in>set (lg_entries lg). 0 < fst e \<and> fst e \<le> lg_end lg) \<and>
     lg_begin lg \<le> lg_end lg \<and> ops_ok L N (lg_entries lg) \<and>
     run_ops L (lg_entries lg) Map.empty = Ok (contents L lg) \<and>
     run_ops L (from_pos (lg_begin lg) (lg_entries lg)) Map.empty = Ok (contents L lg)"

text \<open>
  A process has applied the operations up to some position \<open>k\<close>. Its index may be smaller, but then the process
  itself has expunged what follows. While it is ready, and its coordinator not demoted, \<open>k\<close> is the last
  position that the coordinator knows.
\<close>

definition lagging :: "state_log \<Rightarrow> 'w slog \<Rightarrow> nat \<Rightarrow> LogStorage \<Rightarrow> bool" where
  "lagging L lg k st \<longleftrightarrow>
     (case ls_index st of
        None \<Rightarrow> ls_snapshots st = Map.empty
      | Some i \<Rightarrow> i \<le> k \<and> list_all (\<lambda>e. expunge_op L (snd e)) (filter (\<lambda>e. i < fst e \<and> fst e \<le> k) (lg_entries lg)))"

definition applied :: "state_log \<Rightarrow> 'w slog \<Rightarrow> 'w \<Rightarrow> LogStorage \<Rightarrow> nat \<Rightarrow> bool" where
  "applied L lg w st k \<longleftrightarrow>
     k \<le> lg_end lg \<and> run_ops L (upto_pos k (lg_entries lg)) Map.empty = Ok (ls_snapshots st) \<and>
     (ls_starting st = Some Ready \<longrightarrow> lg_index lg w = None \<or> lg_index lg w = Some k) \<and>
     ((\<forall>e. ls_starting st \<noteq> Some (Failed e)) \<longrightarrow> lagging L lg k st)"

definition storage_inv :: "state_log \<Rightarrow> 'w slog \<Rightarrow> 'w \<Rightarrow> LogStorage \<Rightarrow> bool" where
  "storage_inv L lg w st \<longleftrightarrow>
     (\<exists>k. applied L lg w st k) \<and> (ls_starting st = None \<longrightarrow> lg_index lg w = None) \<and>
     (0 < ls_pending st \<or> ls_index st \<noteq> None \<or> ls_starting st = Some Ready \<longrightarrow> ls_truncated st \<noteq> None)"

definition grows :: "'w \<Rightarrow> 'w slog \<Rightarrow> 'w slog \<Rightarrow> bool" where
  "grows w lg lg' \<longleftrightarrow>
     lg_end lg \<le> lg_end lg' \<and> (\<forall>v. v \<noteq> w \<longrightarrow> lg_index lg' v = lg_index lg v) \<and>
     (\<exists>es. lg_entries lg' = lg_entries lg @ es \<and> (\<forall>e\<in>set es. lg_end lg < fst e))"

lemma log_invD:
  assumes "log_inv L N lg"
  shows "sorted_wrt (<) (entry_positions (lg_entries lg))" "\<forall>e\<in>set (lg_entries lg). fst e \<le> lg_end lg"
    "lg_begin lg \<le> lg_end lg" "ops_ok L N (lg_entries lg)"
    "run_ops L (lg_entries lg) Map.empty = Ok (contents L lg)"
    "run_ops L (from_pos (lg_begin lg) (lg_entries lg)) Map.empty = Ok (contents L lg)"
    "\<forall>e\<in>set (lg_entries lg). 0 < fst e"
  using assms unfolding log_inv_def by blast+

lemma log_inv_cong:
  assumes "lg_entries lg' = lg_entries lg" "lg_begin lg' = lg_begin lg" "lg_end lg \<le> lg_end lg'"
  shows "contents L lg' = contents L lg" "log_inv L N lg \<Longrightarrow> log_inv L N lg'"
  using assms by (auto simp: log_inv_def contents_def)

lemma lagging_cong:
  "lg_entries lg' = lg_entries lg \<Longrightarrow> ls_index st' = ls_index st \<Longrightarrow> ls_snapshots st' = ls_snapshots st \<Longrightarrow>
   lagging L lg' k st' = lagging L lg k st"
  by (cases "ls_index st") (simp_all add: lagging_def)

lemma storage_inv_writer [simp]: "storage_inv L lg w (st\<lparr>ls_writer := lw\<rparr>) = storage_inv L lg w st"
proof -
  have "lagging L lg k (st\<lparr>ls_writer := lw\<rparr>) = lagging L lg k st" for k
    by (rule lagging_cong) simp_all
  then show ?thesis
    by (simp add: storage_inv_def applied_def)
qed

lemma grows_refl: "grows w lg lg"
  by (simp add: grows_def)

lemma grows_trans:
  assumes "grows w a b" "grows w b c"
  shows "grows w a c"
proof -
  obtain es fs where "lg_entries b = lg_entries a @ es" "\<forall>e\<in>set es. lg_end a < fst e"
    "lg_entries c = lg_entries b @ fs" "\<forall>e\<in>set fs. lg_end b < fst e"
    using assms by (auto simp: grows_def)
  then show ?thesis
    using assms by (fastforce simp: grows_def)
qed

lemma upto_end: "log_inv L N lg \<Longrightarrow> lg_end lg \<le> k \<Longrightarrow> upto_pos k (lg_entries lg) = lg_entries lg"
  by (fastforce dest: log_invD(2) simp: upto_pos_def filter_id_conv)

lemma applied_end: "log_inv L N lg \<Longrightarrow> applied L lg w st (lg_end lg) \<Longrightarrow> ls_snapshots st = contents L lg"
  using upto_end [of L N lg "lg_end lg"] log_invD(5) by (fastforce simp: applied_def)

lemma grows_upto:
  assumes "grows w lg lg'" "k \<le> lg_end lg"
  shows "filter (\<lambda>e. f e \<and> fst e \<le> k) (lg_entries lg') = filter (\<lambda>e. f e \<and> fst e \<le> k) (lg_entries lg)"
    "upto_pos k (lg_entries lg') = upto_pos k (lg_entries lg)"
  using assms by (fastforce simp: grows_def upto_pos_def filter_empty_conv)+

lemma storage_inv_grows:
  assumes "storage_inv L lg v st" "grows w lg lg'" "v \<noteq> w"
  shows "storage_inv L lg' v st"
proof -
  have "applied L lg' v st k" if "applied L lg v st k" for k
    using that grows_upto [OF assms(2), of k] assms(2,3)
    by (auto simp: applied_def lagging_def grows_def split: option.splits)
  then show ?thesis
    using assms by (auto simp: storage_inv_def grows_def)
qed

subsection \<open>Starting\<close>

definition after_index :: "nat option \<Rightarrow> nat \<times> string \<Rightarrow> bool" where
  "after_index i e \<longleftrightarrow> (case i of None \<Rightarrow> True | Some i \<Rightarrow> i < fst e)"

lemma ls_apply_run:
  "sorted_wrt (<) (entry_positions es) \<Longrightarrow> run_ops L (filter (after_index (ls_index st)) es) (ls_snapshots st) = Ok T \<Longrightarrow>
   \<exists>j. ls_apply L es st = (Ok (), st\<lparr>ls_snapshots := T, ls_index := j\<rparr>) \<and>
       (\<forall>e\<in>set es. \<exists>i. j = Some i \<and> fst e \<le> i) \<and> (j = ls_index st \<or> (\<exists>e\<in>set es. after_index (ls_index st) e \<and> j = Some (fst e)))"
proof (induction es arbitrary: st)
  case Nil
  then show ?case
    by (intro exI [of _ "ls_index st"]) simp
next
  case (Cons e es)
  obtain p d where e: "e = (p, d)"
    by fastforce
  show ?case
  proof (cases "after_index (ls_index st) e")
    case True
    obtain S where S: "apply_operation L p d (ls_snapshots st) = Ok S"
      "run_ops L (filter (after_index (ls_index st)) es) S = Ok T"
      using Cons.prems(2) True by (auto simp: e run_ops_Cons_Ok simp del: run_ops.simps(2))
    let ?st = "st\<lparr>ls_snapshots := S, ls_index := Some p\<rparr>"
    have later: "\<forall>x\<in>set es. p < fst x"
      using Cons.prems(1) by (auto simp: e)
    have "filter (after_index (ls_index st)) es = filter (after_index (ls_index ?st)) es"
      using later True by (intro filter_cong) (auto simp: after_index_def e split: option.splits)
    then obtain j where j: "ls_apply L es ?st = (Ok (), ?st\<lparr>ls_snapshots := T, ls_index := j\<rparr>)"
      "\<forall>x\<in>set es. \<exists>i. j = Some i \<and> fst x \<le> i" "j = Some p \<or> (\<exists>x\<in>set es. j = Some (fst x))"
      using Cons.IH [of ?st] Cons.prems(1) S(2) by auto
    have "ls_apply L (e # es) st = (Ok (), st\<lparr>ls_snapshots := T, ls_index := j\<rparr>)"
      using True S(1) j(1) by (simp add: e after_index_def split: option.splits)
    moreover have "\<exists>i. j = Some i \<and> p \<le> i"
      using j(3) later by auto
    moreover have "after_index (ls_index st) x" if "x \<in> set es" for x
      using True later that by (auto simp: after_index_def e split: option.splits)
    ultimately show ?thesis
      using j(2,3) True by (intro exI [of _ j]) (auto simp: e)
  next
    case False
    then obtain i where i: "ls_index st = Some i" "p \<le> i"
      by (auto simp: after_index_def e split: option.splits)
    obtain j where j: "ls_apply L es st = (Ok (), st\<lparr>ls_snapshots := T, ls_index := j\<rparr>)"
      "\<forall>e\<in>set es. \<exists>i. j = Some i \<and> fst e \<le> i" "j = ls_index st \<or> (\<exists>e\<in>set es. after_index (ls_index st) e \<and> j = Some (fst e))"
      using Cons.IH [of st] Cons.prems False by auto
    moreover have "\<exists>i. j = Some i \<and> p \<le> i"
      using j(3) i by (auto simp: after_index_def)
    ultimately show ?thesis
      using i by (intro exI [of _ j]) (auto simp: e)
  qed
qed

lemma split_between:
  assumes "sorted_wrt (<) (entry_positions es)" "i \<le> k"
  shows "upto_pos k es = upto_pos i es @ filter (\<lambda>e. i < fst e \<and> fst e \<le> k) es"
    "filter (\<lambda>e. i < fst e) es = filter (\<lambda>e. i < fst e \<and> fst e \<le> k) es @ filter (\<lambda>e. k < fst e) es"
proof -
  have "upto_pos i (upto_pos k es) = upto_pos i es"
    "filter (\<lambda>e. i < fst e) (upto_pos k es) = filter (\<lambda>e. i < fst e \<and> fst e \<le> k) es"
    using assms(2) unfolding upto_pos_def filter_filter by (auto intro: filter_cong)
  moreover have "sorted_wrt (<) (entry_positions (upto_pos k es))"
    using assms(1) by (simp add: upto_pos_def sorted_wrt_map sorted_wrt_filter)
  ultimately show "upto_pos k es = upto_pos i es @ filter (\<lambda>e. i < fst e \<and> fst e \<le> k) es"
    using split_upto [of "upto_pos k es" i] by simp
next
  have "upto_pos k (filter (\<lambda>e. i < fst e) es) = filter (\<lambda>e. i < fst e \<and> fst e \<le> k) es"
    "filter (\<lambda>e. k < fst e) (filter (\<lambda>e. i < fst e) es) = filter (\<lambda>e. k < fst e) es"
    using assms(2) unfolding upto_pos_def filter_filter by (auto intro: filter_cong)
  moreover have "sorted_wrt (<) (entry_positions (filter (\<lambda>e. i < fst e) es))"
    using assms(1) by (simp add: sorted_wrt_map sorted_wrt_filter)
  ultimately show "filter (\<lambda>e. i < fst e) es = filter (\<lambda>e. i < fst e \<and> fst e \<le> k) es @ filter (\<lambda>e. k < fst e) es"
    using split_upto [of "filter (\<lambda>e. i < fst e) es" k] by simp
qed

text \<open>What a process reads brings it to the end of the log.\<close>

lemma read_catches_up:
  assumes lg: "log_inv L N lg" and st: "lagging L lg k st" "run_ops L (upto_pos k (lg_entries lg)) Map.empty = Ok (ls_snapshots st)"
    and a: "a = (case ls_index st of None \<Rightarrow> lg_begin lg | Some i \<Rightarrow> i)" "lg_begin lg \<le> a"
  shows "run_ops L (filter (after_index (ls_index st)) (filter (\<lambda>e. a \<le> fst e \<and> fst e \<le> lg_end lg) (lg_entries lg)))
    (ls_snapshots st) = Ok (contents L lg)"
proof (cases "ls_index st")
  case None
  then have "filter (after_index (ls_index st)) (filter (\<lambda>e. a \<le> fst e \<and> fst e \<le> lg_end lg) (lg_entries lg)) =
      from_pos (lg_begin lg) (lg_entries lg)"
    using log_invD(2) [OF lg] a(1) unfolding from_pos_def filter_filter by (intro filter_cong) (auto simp: after_index_def)
  then show ?thesis
    using log_invD(6) [OF lg] st(1) None by (simp add: lagging_def)
next
  case (Some i)
  let ?mid = "filter (\<lambda>e. i < fst e \<and> fst e \<le> k) (lg_entries lg)" and ?new = "filter (\<lambda>e. k < fst e) (lg_entries lg)"
  have i: "i \<le> k" "list_all (\<lambda>e. expunge_op L (snd e)) ?mid"
    using st(1) Some by (simp_all add: lagging_def)
  note sorted = log_invD(1) [OF lg]
  obtain S0 where "run_ops L ?mid S0 = Ok (ls_snapshots st)"
    using st(2) run_ops_prefix [of L "upto_pos i (lg_entries lg)" ?mid Map.empty "ls_snapshots st"]
      split_between(1) [OF sorted i(1)] by auto
  then have mid: "run_ops L ?mid (ls_snapshots st) = Ok (ls_snapshots st)"
    using run_expunges_again [OF i(2)] by blast
  obtain S where "run_ops L (upto_pos k (lg_entries lg)) Map.empty = Ok S" "run_ops L ?new S = Ok (contents L lg)"
    using run_upto [OF log_invD(5) [OF lg] sorted] .
  then have new: "run_ops L ?new (ls_snapshots st) = Ok (contents L lg)"
    using st(2) by simp
  have "filter (after_index (ls_index st)) (filter (\<lambda>e. a \<le> fst e \<and> fst e \<le> lg_end lg) (lg_entries lg)) =
      filter (\<lambda>e. i < fst e) (lg_entries lg)"
    using log_invD(2) [OF lg] a(1) Some unfolding filter_filter by (intro filter_cong) (auto simp: after_index_def)
  then show ?thesis
    using mid new split_between(2) [OF sorted i(1)] by (simp add: run_ops_append)
qed

lemma started_ok:
  assumes lg: "log_inv L N lg" and st: "lagging L lg k st" "run_ops L (upto_pos k (lg_entries lg)) Map.empty = Ok (ls_snapshots st)"
    and k: "k \<le> lg_end lg" and t: "ls_index st \<noteq> None \<longrightarrow> ls_truncated st \<noteq> None"
    and s: "ls_started L (lg_begin lg) (\<lambda>a. lg_read a (lg_end lg) lg) st = (r, st')"
  obtains
    (ok) t j where "r = Ok ()" "st' = st\<lparr>ls_truncated := Some t, ls_snapshots := contents L lg, ls_index := j\<rparr>" "lagging L lg (lg_end lg) st'"
  | (stale) i where "r = Error ''Bad read range (truncated position)''" "st' = st" "ls_index st = Some i" "i < lg_begin lg"
proof -
  define a where "a = (case ls_index st of None \<Rightarrow> lg_begin lg | Some i \<Rightarrow> i)"
  define st1 where "st1 = (case ls_index st of None \<Rightarrow> st\<lparr>ls_truncated := Some (lg_begin lg)\<rparr> | Some i \<Rightarrow> st)"
  have s1: "ls_apply_read L (lg_read a (lg_end lg) lg) st1 = (r, st')" "ls_index st1 = ls_index st" "ls_snapshots st1 = ls_snapshots st"
    using s t by (auto simp: ls_started_def a_def st1_def split: option.splits if_splits)
  have a: "a \<le> lg_end lg"
    using st(1) k log_invD(3) [OF lg] by (auto simp: a_def lagging_def split: option.splits)
  show thesis
  proof (cases "a < lg_begin lg")
    case True
    then show ?thesis
      using s1 a by (intro stale [of a]) (auto simp: ls_apply_read_def lg_read_def a_def st1_def split: option.splits)
  next
    case False
    let ?es = "filter (\<lambda>e. a \<le> fst e \<and> fst e \<le> lg_end lg) (lg_entries lg)"
    have "lg_read a (lg_end lg) lg = Ok ?es"
      using False a by (simp add: lg_read_def)
    moreover have run: "run_ops L (filter (after_index (ls_index st1)) ?es) (ls_snapshots st1) = Ok (contents L lg)"
      using read_catches_up [OF lg st a_def] False s1 by simp
    moreover have "sorted_wrt (<) (entry_positions ?es)"
      using log_invD(1) [OF lg] by (simp add: sorted_wrt_map sorted_wrt_filter)
    ultimately obtain j where j: "r = Ok ()" "st' = st1\<lparr>ls_snapshots := contents L lg, ls_index := j\<rparr>"
      "\<forall>e\<in>set ?es. \<exists>i. j = Some i \<and> fst e \<le> i" "j = ls_index st \<or> (\<exists>e\<in>set ?es. j = Some (fst e))"
      using ls_apply_run [of ?es L st1 "contents L lg"] s1 by (auto simp: ls_apply_read_def)
    have "lagging L lg (lg_end lg) st'"
    proof (cases j)
      case None
      then have "?es = []" "ls_index st = None"
        using j(3,4) by (auto simp: filter_empty_conv)
      then show ?thesis
        using run st(1) s1(3) j(2) None by (simp add: lagging_def)
    next
      case (Some i)
      then have "a \<le> i" "i \<le> lg_end lg"
        using j(4) a by (auto simp: a_def split: option.splits)
      moreover have "filter (\<lambda>e. i < fst e \<and> fst e \<le> lg_end lg) (lg_entries lg) = []"
        using j(3) \<open>a \<le> i\<close> by (fastforce simp: filter_empty_conv Some)
      ultimately show ?thesis
        using j(2) Some by (simp add: lagging_def)
    qed
    moreover obtain t where "st1 = st\<lparr>ls_truncated := Some t\<rparr>"
      using t by (cases st; cases "ls_index st") (auto simp: st1_def)
    ultimately show ?thesis
      using ok [where t = t and j = j] j(1,2) by simp
  qed
qed

definition elected_log :: "'w \<Rightarrow> nat \<Rightarrow> 'w slog \<Rightarrow> 'w slog" where
  "elected_log w gap lg = lg\<lparr>lg_end := lg_end lg + gap, lg_index := (lg_index lg)(w \<mapsto> lg_end lg + gap)\<rparr>"

definition unelected_log :: "'w \<Rightarrow> nat \<Rightarrow> 'w slog \<Rightarrow> 'w slog" where
  "unelected_log w gap lg = lg\<lparr>lg_end := lg_end lg + gap, lg_index := (lg_index lg)(w := None)\<rparr>"

lemma election_grows:
  "grows w lg (elected_log w gap lg)" "grows w lg (unelected_log w gap lg)"
  "log_inv L N lg \<Longrightarrow> log_inv L N (elected_log w gap lg)" "log_inv L N lg \<Longrightarrow> log_inv L N (unelected_log w gap lg)"
  "contents L (elected_log w gap lg) = contents L lg" "contents L (unelected_log w gap lg) = contents L lg"
  by (auto simp: grows_def elected_log_def unelected_log_def log_inv_def contents_def)

lemma start_cases:
  assumes lg: "log_inv L N lg" and st: "storage_inv L lg w st" and s: "ls_start L w el (st, lg) = (r, st', lg')"
  obtains
    (same) "lg' = lg" "st' = st" "r \<noteq> Abort" "ls_starting st \<noteq> None" "r = Ok () \<longrightarrow> ls_starting st = Some Ready"
  | (unelected) e gap lw where "ls_starting st = None" "el = Unelected e gap" "r = Error e" "lg' = unelected_log w gap lg"
      "st' = st\<lparr>ls_writer := lw, ls_starting := Some (Failed e)\<rparr>"
  | (stale) i gap lw e where "ls_starting st = None" "el = Elected gap" "r = Error e" "lg' = elected_log w gap lg"
      "st' = st\<lparr>ls_writer := lw, ls_starting := Some (Failed e)\<rparr>" "ls_index st = Some i" "i < lg_begin lg"
  | (ok) gap t j where "ls_starting st = None" "el = Elected gap" "r = Ok ()" "lg' = elected_log w gap lg"
      "st' = st\<lparr>ls_writer := \<lparr>lw_elected = True, lw_error = None\<rparr>, ls_starting := Some Ready, ls_truncated := Some t,
                ls_snapshots := contents L lg, ls_index := j\<rparr>" "lagging L lg' (lg_end lg') st'"
proof (cases "ls_starting st")
  case (Some x)
  then show ?thesis
    using s by (intro same) (auto simp: ls_start_def split: future_state.splits)
next
  case None
  show ?thesis
  proof (cases el)
    case (Unelected e gap)
    then show ?thesis
      using s None by (intro unelected) (auto simp: ls_start_def writer_start_def unelected_log_def)
  next
    case (Elected gap)
    let ?lg = "elected_log w gap lg" and ?st = "st\<lparr>ls_writer := \<lparr>lw_elected = True, lw_error = None\<rparr>\<rparr>"
    obtain q u where q: "ls_started L (lg_begin ?lg) (\<lambda>a. lg_read a (lg_end ?lg) ?lg) ?st = (q, u)"
      by fastforce
    obtain k where a: "applied L lg w st k"
      using st by (auto simp: storage_inv_def)
    have k: "k \<le> lg_end ?lg" "run_ops L (upto_pos k (lg_entries ?lg)) Map.empty = Ok (ls_snapshots ?st)"
      using a by (simp_all add: applied_def elected_log_def)
    have l: "lagging L ?lg k ?st"
      using a None lagging_cong [of ?lg lg ?st st] by (simp add: applied_def elected_log_def)
    have t: "ls_index ?st \<noteq> None \<longrightarrow> ls_truncated ?st \<noteq> None"
      using st by (simp add: storage_inv_def)
    note res = s None Elected q
    show ?thesis
      using election_grows(3) [OF lg] l k(2,1) t q
    proof (cases rule: started_ok)
      case (ok t j)
      have eq: "r = Ok ()" "lg' = ?lg" "st' = u\<lparr>ls_starting := Some Ready\<rparr>"
        using res ok(1) by (auto simp: ls_start_def writer_start_def elected_log_def)
      have "lagging L lg' (lg_end lg') st'"
        using ok(3) lagging_cong [of lg' ?lg st' u] eq by simp
      then show ?thesis
        using eq ok(2) by (intro that(4) [OF None Elected, where t = t and j = j]) (simp_all add: election_grows(5))
    next
      case (stale i)
      then show ?thesis
        using res by (intro that(3) [where gap = gap and i = i])
          (auto simp: ls_start_def writer_start_def elected_log_def)
    qed
  qed
qed

lemma applied_failed:
  assumes "applied L lg w st k" "lg_entries lg' = lg_entries lg" "lg_end lg \<le> lg_end lg'"
    "ls_starting st' = Some (Failed e)" "ls_snapshots st' = ls_snapshots st"
  shows "applied L lg' w st' k"
  using assms by (simp add: applied_def)

lemma start_failed_inv:
  assumes "storage_inv L lg w st" "lg_entries lg' = lg_entries lg" "lg_end lg \<le> lg_end lg'"
  shows "storage_inv L lg' w (st\<lparr>ls_writer := lw, ls_starting := Some (Failed e)\<rparr>)"
  using assms applied_failed [OF _ assms(2,3), of L w st _ "st\<lparr>ls_writer := lw, ls_starting := Some (Failed e)\<rparr>" e]
  by (auto simp: storage_inv_def)

lemma start_ok:
  assumes lg: "log_inv L N lg" and st: "storage_inv L lg w st" and s: "ls_start L w el (st, lg) = (r, st', lg')"
  shows "log_inv L N lg'" "storage_inv L lg' w st'" "grows w lg lg'" "contents L lg' = contents L lg" "r \<noteq> Abort"
    "r = Ok () \<Longrightarrow> ls_starting st' = Some Ready"
proof -
  have "log_inv L N lg' \<and> storage_inv L lg' w st' \<and> grows w lg lg' \<and> contents L lg' = contents L lg \<and> r \<noteq> Abort \<and>
      (r = Ok () \<longrightarrow> ls_starting st' = Some Ready)"
    using lg st s
  proof (cases rule: start_cases)
    case same
    then show ?thesis
      using lg st grows_refl by auto
  next
    case (unelected e gap lw)
    have "storage_inv L lg' w st'"
      unfolding unelected(4,5) by (rule start_failed_inv [OF st]) (simp_all add: unelected_log_def)
    then show ?thesis
      using unelected election_grows(2,4,6) lg by auto
  next
    case (stale i gap lw e)
    have "storage_inv L lg' w st'"
      unfolding stale(4,5) by (rule start_failed_inv [OF st]) (simp_all add: elected_log_def)
    then show ?thesis
      using stale election_grows(1,3,5) lg by auto
  next
    case (ok gap t j)
    have inv: "log_inv L N lg'"
      using ok(4) election_grows(3) [OF lg] by simp
    have "applied L lg' w st' (lg_end lg')"
      using ok upto_end [OF inv, of "lg_end lg'"] log_invD(5) [OF inv] election_grows(5) [of L w gap lg]
      by (simp add: applied_def elected_log_def)
    then have "storage_inv L lg' w st'"
      using ok(5) by (auto simp: storage_inv_def)
    then show ?thesis
      using ok inv election_grows(1,5) by auto
  qed
  then show "log_inv L N lg'" "storage_inv L lg' w st'" "grows w lg lg'" "contents L lg' = contents L lg" "r \<noteq> Abort"
    "r = Ok () \<Longrightarrow> ls_starting st' = Some Ready"
    by blast+
qed

lemma start_fresh:
  assumes "log_inv L N lg" "storage_inv L lg w st" "ls_starting st = None" "ls_index st = None"
  obtains st' lg' where "ls_start L w (Elected gap) (st, lg) = (Ok (), st', lg')" "ls_snapshots st' = contents L lg"
    "lg_index lg' w = Some (lg_end lg')" "ls_writer st' = \<lparr>lw_elected = True, lw_error = None\<rparr>"
proof -
  obtain r st' lg' where s: "ls_start L w (Elected gap) (st, lg) = (r, st', lg')"
    using prod_cases3 by blast
  show thesis
    using assms(1,2) s
  proof (cases rule: start_cases)
    case (ok gap t j)
    then show ?thesis
      using that s by (auto simp: elected_log_def)
  qed (use assms(3,4) in auto)
qed

subsection \<open>Writing\<close>

lemma lg_write_cases:
  assumes "lg_write w f act lg = (r, lg')"
  obtains
    (commit) "lg_index lg w = Some (lg_end lg)" "r = Ok (Some (Suc (lg_end lg)))"
      "lg' = (act (Suc (lg_end lg)) (lg\<lparr>lg_end := Suc (lg_end lg), lg_index := (lg_index lg)(w := None)\<rparr>))
         \<lparr>lg_index := (lg_index lg)(w \<mapsto> Suc (lg_end lg))\<rparr>"
  | (chosen) "lg_index lg w = Some (lg_end lg)" "r = Ok None \<or> (\<exists>e. r = Error e)"
      "lg' = act (Suc (lg_end lg)) (lg\<lparr>lg_end := Suc (lg_end lg), lg_index := (lg_index lg)(w := None)\<rparr>)"
  | (ignored) "r = Ok None \<or> (\<exists>e. r = Error e)" "lg' = lg\<lparr>lg_index := (lg_index lg)(w := None)\<rparr>"
  using assms by (cases f) (auto simp: lg_write_def Let_def split: if_splits)

lemma writer_call_cases:
  assumes "writer_call message act (lw, lg) = (r, lw', lg')"
  obtains (refused) e where "r = Error e" "lg' = lg"
  | (called) "act lg = (r, lg')"
  using assms by (auto simp: writer_call_def split: if_splits option.splits prod.splits outcome.splits)

definition extended :: "string \<Rightarrow> 'w slog \<Rightarrow> 'w slog \<Rightarrow> bool" where
  "extended d lg lg' \<longleftrightarrow>
     lg_entries lg' = lg_entries lg @ [(Suc (lg_end lg), d)] \<and> lg_begin lg' = lg_begin lg \<and> lg_end lg' = Suc (lg_end lg)"

lemma extended_ok:
  assumes lg: "log_inv L N lg" and d: "op_ok L N d" "apply_operation L (Suc (lg_end lg)) d (contents L lg) = Ok T"
    and e: "extended d lg lg'"
  shows "log_inv L N lg'" "contents L lg' = T"
proof -
  have run: "run_ops L (lg_entries lg') Map.empty = Ok T"
    using e d(2) log_invD(5) [OF lg] by (simp add: extended_def run_ops_append)
  have "from_pos (lg_begin lg') (lg_entries lg') = from_pos (lg_begin lg) (lg_entries lg) @ [(Suc (lg_end lg), d)]"
    using e log_invD(3) [OF lg] by (simp add: extended_def from_pos_def)
  then have "run_ops L (from_pos (lg_begin lg') (lg_entries lg')) Map.empty = Ok T"
    using d(2) log_invD(6) [OF lg] by (simp add: run_ops_append)
  moreover have "sorted_wrt (<) (entry_positions (lg_entries lg'))" "\<forall>e\<in>set (lg_entries lg'). 0 < fst e \<and> fst e \<le> lg_end lg'"
    using e log_invD(1,2,7) [OF lg] by (auto simp: extended_def sorted_wrt_append less_Suc_eq_le)
  moreover show "contents L lg' = T"
    using run by (simp add: contents_def)
  ultimately show "log_inv L N lg'"
    using run e d(1) log_invD(3,4) [OF lg] by (auto simp: log_inv_def extended_def)
qed

lemma extended_grows:
  assumes "extended d lg lg'" "\<forall>v. v \<noteq> w \<longrightarrow> lg_index lg' v = lg_index lg v"
  shows "grows w lg lg'"
  using assms by (auto simp: extended_def grows_def)

lemma demoted_inv:
  assumes st: "storage_inv L lg w st" and g: "grows w lg lg'" "lg_index lg' w = None"
    and same: "ls_index st' = ls_index st" "ls_snapshots st' = ls_snapshots st" "ls_truncated st' = ls_truncated st"
      "ls_pending st' \<le> ls_pending st" "ls_starting st' = ls_starting st \<or> ls_starting st = Some Ready \<and> ls_starting st' = None"
  shows "storage_inv L lg' w st'"
proof -
  obtain k where k: "applied L lg w st k"
    using st by (auto simp: storage_inv_def)
  have "lagging L lg' k st' = lagging L lg k st"
    using grows_upto(1) [OF g(1), of k] k same by (auto simp: lagging_def applied_def split: option.splits)
  then have "applied L lg' w st' k"
    using k g grows_upto(2) [OF g(1), of k] same by (auto simp: applied_def grows_def)
  then show ?thesis
    using st g(2) same by (auto simp: storage_inv_def)
qed

text \<open>The process that commits an operation has applied all that precede it.\<close>

lemma ready_applied:
  assumes "log_inv L N lg" "storage_inv L lg w st" "ls_starting st = Some Ready" "lg_index lg w = Some (lg_end lg)"
  shows "applied L lg w st (lg_end lg)" "ls_snapshots st = contents L lg"
proof -
  obtain k where "applied L lg w st k"
    using assms(2) by (auto simp: storage_inv_def)
  moreover have "k = lg_end lg"
    using calculation assms(3,4) by (auto simp: applied_def)
  ultimately show "applied L lg w st (lg_end lg)"
    by simp
  then show "ls_snapshots st = contents L lg"
    by (rule applied_end [OF assms(1)])
qed

lemma committed_inv:
  assumes lg: "log_inv L N lg" and st: "storage_inv L lg w st" "ls_starting st = Some Ready" "lg_index lg w = Some (lg_end lg)"
    and d: "op_ok L N d" "apply_operation L (Suc (lg_end lg)) d (ls_snapshots st) = Ok T"
    and e: "extended d lg lg'" "lg_index lg' = (lg_index lg)(w \<mapsto> Suc (lg_end lg))"
    and j: "j = option_max (ls_index st) (Some (Suc (lg_end lg))) \<or> j = ls_index st \<and> expunge_op L d \<and> ls_index st \<noteq> None"
  shows "storage_inv L lg' w (st\<lparr>ls_writer := lw, ls_snapshots := T, ls_index := j, ls_pending := n\<rparr>)"
proof -
  let ?st = "st\<lparr>ls_writer := lw, ls_snapshots := T, ls_index := j, ls_pending := n\<rparr>"
  note k = ready_applied [OF lg st]
  have inv: "log_inv L N lg'" "contents L lg' = T"
    using extended_ok [OF lg d(1) _ e(1)] d(2) k(2) by auto
  have "lagging L lg (lg_end lg) st"
    using k(1) st(2) by (simp add: applied_def)
  moreover have "(Suc (lg_end lg), b) \<notin> set (lg_entries lg)" for b
    using log_invD(2) [OF lg] by fastforce
  ultimately have "lagging L lg' (lg_end lg') ?st"
    using j e(1) log_invD(2) [OF lg]
    by (cases "ls_index st") (auto simp: lagging_def extended_def filter_empty_conv le_Suc_eq list_all_iff)
  then have "applied L lg' w ?st (lg_end lg')"
    using upto_end [OF inv(1), of "lg_end lg'"] log_invD(5) [OF inv(1)] inv(2) e by (simp add: applied_def extended_def)
  then show ?thesis
    using st by (auto simp: storage_inv_def)
qed

lemma append_cases:
  assumes "writer_append w f d (lw, lg) = (r, lw', lg')"
  obtains
    (commit) "lg_index lg w = Some (lg_end lg)" "r = Ok (Some (Suc (lg_end lg)))" "extended d lg lg'"
      "lg_index lg' = (lg_index lg)(w \<mapsto> Suc (lg_end lg))"
  | (chosen) "lg_index lg w = Some (lg_end lg)" "r = Ok None \<or> (\<exists>e. r = Error e)" "extended d lg lg'"
      "lg_index lg' = (lg_index lg)(w := None)"
  | (ignored) "r = Ok None \<or> (\<exists>e. r = Error e)" "lg' = lg\<lparr>lg_index := (lg_index lg)(w := None)\<rparr>"
  | (refused) e where "r = Error e" "lg' = lg"
  using assms unfolding writer_append_def
proof (cases rule: writer_call_cases)
  case called
  then show ?thesis
    by (cases rule: lg_write_cases) (use that in \<open>auto simp: extended_def lg_append_def\<close>)
qed (use that in auto)

text \<open>
  The common part of setting and expunging. The decision is based on the snapshots of the process; if it
  is to append, then the continuation makes the change that the operation makes when it is read.
\<close>

definition commits :: "state_log \<Rightarrow> string set \<Rightarrow> LogStorage \<Rightarrow> entries \<Rightarrow> decision outcome \<Rightarrow>
    (nat \<Rightarrow> nat option \<Rightarrow> LogStorage \<Rightarrow> bool outcome \<times> LogStorage) \<Rightarrow> bool" where
  "commits L N st target decided continue \<longleftrightarrow>
     decided \<noteq> Abort \<and> decided \<noteq> Ok (Reply True) \<and>
     (\<forall>m lw. continue m None (st\<lparr>ls_writer := lw\<rparr>) = (Ok False, st\<lparr>ls_writer := lw, ls_starting := None\<rparr>)) \<and>
     (\<forall>d m. decided = Ok (Append d m) \<longrightarrow> op_ok L N d \<and>
       (\<forall>p. \<exists>T j. apply_operation L p d (ls_snapshots st) = Ok T \<and> state_of T = target \<and>
          (j = option_max (ls_index st) (Some p) \<or> j = ls_index st \<and> expunge_op L d \<and> ls_index st \<noteq> None) \<and>
          (\<forall>lw. continue m (Some p) (st\<lparr>ls_writer := lw\<rparr>) =
             (Ok True, st\<lparr>ls_writer := lw, ls_snapshots := T, ls_index := j, ls_pending := Suc (ls_pending st)\<rparr>))))"

lemma append_effect:
  assumes lg: "log_inv L N lg" and st: "storage_inv L lg w st" "ls_starting st = Some Ready"
    and d: "op_ok L N d" "apply_operation L (Suc (lg_end lg)) d (ls_snapshots st) = Ok T"
    and q: "writer_append w f d (lw, lg) = (q, lw', lg')"
  obtains
    (committed) "q = Ok (Some (Suc (lg_end lg)))" "lg_index lg w = Some (lg_end lg)" "extended d lg lg'"
      "lg_index lg' = (lg_index lg)(w \<mapsto> Suc (lg_end lg))" "log_inv L N lg'" "grows w lg lg'"
      "ls_snapshots st = contents L lg" "contents L lg' = T"
  | (lost) "q = Ok None \<or> (\<exists>e. q = Error e)" "lg_index lg' w = None" "log_inv L N lg'" "grows w lg lg'"
      "contents L lg' = contents L lg \<or> ls_snapshots st = contents L lg \<and> contents L lg' = T"
  | (refused) e where "q = Error e" "lg' = lg"
proof -
  have ext: "log_inv L N lg'" "contents L lg' = T" "ls_snapshots st = contents L lg"
    if "lg_index lg w = Some (lg_end lg)" "extended d lg lg'"
    using extended_ok [OF lg d(1) _ that(2)] d(2) ready_applied(2) [OF lg st that(1)] by simp_all
  from q show thesis
  proof (cases rule: append_cases)
    case commit
    then show ?thesis
      using ext [OF commit(1,3)] extended_grows [OF commit(3), of w] by (intro that(1)) simp_all
  next
    case chosen
    then show ?thesis
      using ext [OF chosen(1,3)] extended_grows [OF chosen(3), of w] by (intro that(2)) simp_all
  next
    case ignored
    then show ?thesis
      using log_inv_cong [of lg' lg] lg by (intro that(2)) (simp_all add: grows_def)
  qed (rule that(3))
qed

lemma commit_ok:
  assumes lg: "log_inv L N lg" and st: "storage_inv L lg w st" "ls_starting st = Some Ready"
    and dec: "commits L N st target decided continue"
    and c: "log_commit w f decided continue (st, lg) = (r, st', lg')"
  shows "log_inv L N lg' \<and> storage_inv L lg' w st' \<and> grows w lg lg' \<and> r \<noteq> Abort \<and>
    (r \<noteq> Ok True \<and> contents L lg' = contents L lg \<or>
     (\<exists>d m. decided = Ok (Append d m)) \<and> ls_snapshots st = contents L lg \<and> state_of (contents L lg') = target)"
proof (cases "\<exists>d m. decided = Ok (Append d m)")
  case False
  then have "lg' = lg" "st' = st" "r \<noteq> Abort" "r \<noteq> Ok True"
    using c dec by (auto simp: log_commit_def commits_def split: outcome.splits decision.splits)
  then show ?thesis
    using lg st grows_refl by auto
next
  case True
  then obtain d m where d: "decided = Ok (Append d m)"
    by blast
  obtain q lw lg1 where q: "writer_append w f d (ls_writer st, lg) = (q, lw, lg1)"
    using prod_cases3 by blast
  obtain T j where T: "op_ok L N d" "apply_operation L (Suc (lg_end lg)) d (ls_snapshots st) = Ok T" "state_of T = target"
    "j = option_max (ls_index st) (Some (Suc (lg_end lg))) \<or> j = ls_index st \<and> expunge_op L d \<and> ls_index st \<noteq> None"
    "continue m (Some (Suc (lg_end lg))) (st\<lparr>ls_writer := lw\<rparr>) =
       (Ok True, st\<lparr>ls_writer := lw, ls_snapshots := T, ls_index := j, ls_pending := Suc (ls_pending st)\<rparr>)"
    using dec d unfolding commits_def by blast
  have lg': "lg' = lg1"
    using c d q by (auto simp: log_commit_def split: outcome.splits prod.splits)
  from lg st T(1,2) q show ?thesis
  proof (cases rule: append_effect)
    case committed
    then have "r = Ok True" "st' = st\<lparr>ls_writer := lw, ls_snapshots := T, ls_index := j, ls_pending := Suc (ls_pending st)\<rparr>"
      using c d q T(5) by (auto simp: log_commit_def)
    then show ?thesis
      using committed committed_inv [OF lg st committed(2) T(1,2) committed(3,4) T(4)] lg' d T(3) by simp
  next
    case lost
    then have r: "r \<noteq> Abort" "r \<noteq> Ok True" "st' = st\<lparr>ls_writer := lw\<rparr> \<or> st' = st\<lparr>ls_writer := lw, ls_starting := None\<rparr>"
      using c d q dec by (auto simp: log_commit_def commits_def)
    have "storage_inv L lg1 w st'"
      using r(3) st(2) by (intro demoted_inv [OF st(1) lost(4,2)]) auto
    then show ?thesis
      using lost(3-5) r(1,2) lg' d T(3) by auto
  next
    case (refused e)
    then have "r = Error e" "st' = st\<lparr>ls_writer := lw\<rparr>"
      using c d q by (auto simp: log_commit_def)
    then show ?thesis
      using lg st grows_refl lg' refused by auto
  qed
qed

end
