(* ===== verification/State_Run.thy ===== *)
theory State_Run
  imports State_Cluster
begin

section \<open>Operations on the state in the log\<close>

text \<open>
  Each operation of a \<open>LogStorageProcess\<close> keeps the invariants of the log and of all processes, and acts on the
  state that the log describes as an atomic operation.
\<close>

subsection \<open>Setting and expunging\<close>

text \<open>
  What the code relies on: operations are read back as they were written, and a patch with a difference
  gives the string that the difference was made for.
\<close>

definition sl_ok :: "state_log \<Rightarrow> bool" where
  "sl_ok L \<longleftrightarrow>
     (\<forall>x v. sl_serialize L x = Some v \<longrightarrow> sl_parse L v = Some x) \<and>
     (\<forall>a b d. sl_diff L a b = Ok d \<longrightarrow> sl_patch L a d = Ok b) \<and> (\<forall>a b. sl_diff L a b \<noteq> Abort)"

lemma entries_ok_empty: "entries_ok version (state_of Map.empty)"
  by (simp add: entries_ok_def)

lemma snapshots_ok:
  assumes "log_inv L N lg" "storage_inv L lg w st"
  shows "entries_ok (sl_version L) (state_of (ls_snapshots st))"
proof -
  obtain k where "run_ops L (upto_pos k (lg_entries lg)) Map.empty = Ok (ls_snapshots st)"
    using assms(2) by (auto simp: storage_inv_def applied_def)
  then show ?thesis
    by (rule run_entries_ok [OF ops_ok_part(1) [OF log_invD(4) [OF assms(1)]] _ entries_ok_empty])
qed

lemma contents_ok: "log_inv L N lg \<Longrightarrow> entries_ok (sl_version L) (state_of (contents L lg))"
  by (rule run_entries_ok [OF log_invD(4) log_invD(5) entries_ok_empty])

lemma stored_snapshot:
  assumes ok: "entries_ok version (state_of S)" and s: "S n = Some s"
  shows "en_name (sn_entry s) = n" "uuid_get version (en_uuid (sn_entry s)) = Ok (en_uuid (sn_entry s))"
proof -
  have e: "state_of S n = Some (sn_entry s)"
    using s by (simp add: state_of_def)
  show "en_name (sn_entry s) = n"
    using ok e unfolding entries_ok_def by blast
  show "uuid_get version (en_uuid (sn_entry s)) = Ok (en_uuid (sn_entry s))"
    using stored_uuid [OF ok e] .
qed

text \<open>An operation is serialized before it is appended.\<close>

lemma serialized_cases:
  assumes "sl_ok L" "x = (case sl_serialize L y of None \<Rightarrow> Error e | Some v \<Rightarrow> Ok (Append v m))"
  obtains (error) "x = Error e" | (append) v where "x = Ok (Append v m)" "sl_parse L v = Some y"
  using assms by (cases "sl_serialize L y") (auto simp: sl_ok_def)

lemma set_decide_eq:
  assumes ok: "entries_ok (sl_version L) (state_of (ls_snapshots st))"
    and c: "current (state_of (ls_snapshots st)) (en_name e) u"
  obtains
    (snapshot) "ls_set_decide L e u st =
       (case sl_serialize L \<lparr>op_type = SNAPSHOT, op_snapshot = Some e, op_diff = None, op_expunge = None\<rparr> of
          None \<Rightarrow> Error ''Failed to serialize SNAPSHOT Operation'' | Some v \<Rightarrow> Ok (Append v 0))"
  | (no_diff) r where "sl_diff L r (en_value e) = Abort" | (error) err where "ls_set_decide L e u st = Error err"
  | (diff) s d where "ls_snapshots st (en_name e) = Some s" "en_name (sn_entry s) = en_name e"
      "0 < sl_diffsBetweenSnapshots L" "sl_diff L (en_value (sn_entry s)) (en_value e) = Ok d"
      "ls_set_decide L e u st =
         (case sl_serialize L \<lparr>op_type = DIFF, op_snapshot = None, op_diff = Some (e\<lparr>en_value := d\<rparr>), op_expunge = None\<rparr> of
            None \<Rightarrow> Error ''Failed to serialize DIFF Operation'' | Some v \<Rightarrow> Ok (Append v (sn_diffs s + 1)))"
proof (cases "ls_snapshots st (en_name e)")
  case None
  then show ?thesis
    by (intro snapshot) (simp add: ls_set_decide_def)
next
  case (Some s)
  note s = stored_snapshot [OF ok Some]
  have u: "en_uuid (sn_entry s) = u"
    using c Some by (simp add: current_def state_of_def)
  note eq = ls_set_decide_def Let_def Some s(2) [unfolded u] u
  show ?thesis
  proof (cases "sn_diffs s < sl_diffsBetweenSnapshots L")
    case less: True
    show ?thesis
    proof (cases "sl_diff L (en_value (sn_entry s)) (en_value e)")
      case (Ok d)
      show ?thesis
      proof (cases "length d < length (en_value e)")
        case True
        then show ?thesis
          using less Ok by (intro diff [OF Some s(1)]) (simp_all add: eq)
      qed (intro snapshot, simp add: eq less Ok)
    qed (rule no_diff, assumption, intro error, simp add: eq less)
  qed (intro snapshot, simp add: eq)
qed

lemma set_decide_cases:
  assumes L: "sl_ok L" and ok: "entries_ok (sl_version L) (state_of (ls_snapshots st))"
  obtains
    (stale) "\<not> current (state_of (ls_snapshots st)) (en_name e) u" "ls_set_decide L e u st = Ok (Reply False)"
  | (error) err where "ls_set_decide L e u st = Error err"
  | (snapshot) v where "current (state_of (ls_snapshots st)) (en_name e) u" "ls_set_decide L e u st = Ok (Append v 0)"
      "sl_parse L v = Some \<lparr>op_type = SNAPSHOT, op_snapshot = Some e, op_diff = None, op_expunge = None\<rparr>"
  | (diff) s v d where "current (state_of (ls_snapshots st)) (en_name e) u"
      "ls_set_decide L e u st = Ok (Append v (sn_diffs s + 1))" "ls_snapshots st (en_name e) = Some s"
      "en_name (sn_entry s) = en_name e" "0 < sl_diffsBetweenSnapshots L" "sl_patch L (en_value (sn_entry s)) d = Ok (en_value e)"
      "sl_parse L v = Some \<lparr>op_type = DIFF, op_snapshot = None, op_diff = Some (e\<lparr>en_value := d\<rparr>), op_expunge = None\<rparr>"
proof (cases "current (state_of (ls_snapshots st)) (en_name e) u")
  case c: True
  from ok c show ?thesis
  proof (cases rule: set_decide_eq)
    case snapshot
    with L show ?thesis
      by (cases rule: serialized_cases) (use that(2) that(3) [OF c] in blast)+
  next
    case (diff s d)
    have p: "sl_patch L (en_value (sn_entry s)) d = Ok (en_value e)"
      using L diff(4) by (simp add: sl_ok_def)
    from L diff(5) show ?thesis
      by (cases rule: serialized_cases) (use that(2) that(4) [OF c _ diff(1-3) p] in blast)+
  qed (use L that(2) in \<open>auto simp: sl_ok_def\<close>)
next
  case False
  then obtain s where s: "ls_snapshots st (en_name e) = Some s" "en_uuid (sn_entry s) \<noteq> u"
    by (auto simp: current_def state_of_def split: option.splits)
  then show ?thesis
    using stale [OF False] stored_snapshot(2) [OF ok s(1)] by (simp add: ls_set_decide_def Let_def)
qed

lemma set_commits:
  assumes L: "sl_ok L" and ok: "entries_ok (sl_version L) (state_of (ls_snapshots st))"
    and e: "en_name e \<in> N" "valid_uuid (sl_version L) (en_uuid e)"
  shows "commits L N st ((state_of (ls_snapshots st))(en_name e \<mapsto> e)) (ls_set_decide L e u st) (ls_set_done e)"
proof -
  have none: "ls_set_done e m None (st\<lparr>ls_writer := lw\<rparr>) = (Ok False, st\<lparr>ls_writer := lw, ls_starting := None\<rparr>)" for m lw
    by (simp add: ls_set_done_def)
  from L ok show ?thesis
  proof (cases rule: set_decide_cases [where e = e and u = u])
    case (snapshot v)
    then show ?thesis
      using none e by (auto simp: commits_def op_ok_def apply_operation_def ls_set_done_def Let_def)
  next
    case (diff s v d)
    then show ?thesis
      using none e by (auto simp: commits_def op_ok_def apply_operation_def snapshot_patch_def ls_set_done_def Let_def)
  qed (use none in \<open>simp_all add: commits_def\<close>)
qed

lemma set_decide_current:
  assumes "sl_ok L" "entries_ok (sl_version L) (state_of (ls_snapshots st))" "ls_set_decide L e u st = Ok (Append d m)"
  shows "current (state_of (ls_snapshots st)) (en_name e) u"
  using assms(1,2)
  by (cases rule: set_decide_cases [where e = e and u = u]) (use assms(3) in simp_all)

lemma expunge_decide_cases:
  assumes L: "sl_ok L" and ok: "entries_ok (sl_version L) (state_of (ls_snapshots st))"
    and e: "valid_uuid (sl_version L) (en_uuid e)"
  obtains
    (stale) "ls_expunge_decide L e st = Ok (Reply False)"
  | (error) err where "ls_expunge_decide L e st = Error err"
  | (expunge) v s where "current (state_of (ls_snapshots st)) (en_name e) (en_uuid e)" "ls_snapshots st (en_name e) = Some s"
      "ls_expunge_decide L e st = Ok (Append v 0)"
      "sl_parse L v = Some \<lparr>op_type = EXPUNGE, op_snapshot = None, op_diff = None, op_expunge = Some (en_name e)\<rparr>"
proof (cases "ls_snapshots st (en_name e)")
  case None
  then show ?thesis
    by (intro stale) (simp add: ls_expunge_decide_def)
next
  case (Some s)
  note s = stored_snapshot [OF ok Some]
  have u: "uuid_get (sl_version L) (en_uuid e) = Ok (en_uuid e)"
    using e by (simp add: valid_uuid_def)
  let ?op = "\<lparr>op_type = EXPUNGE, op_snapshot = None, op_diff = None, op_expunge = Some (en_name e)\<rparr>"
  show ?thesis
  proof (cases "en_uuid (sn_entry s) = en_uuid e")
    case True
    then have c: "current (state_of (ls_snapshots st)) (en_name e) (en_uuid e)"
      using Some by (simp add: current_def state_of_def)
    show ?thesis
    proof (cases "sl_serialize L ?op")
      case None
      then show ?thesis
        using Some s(2) u True by (intro error) (simp add: ls_expunge_decide_def)
    next
      case v: (Some v)
      then have "sl_parse L v = Some ?op"
        using L by (simp add: sl_ok_def)
      then show ?thesis
        using expunge [OF c Some] Some s(2) u True v by (simp add: ls_expunge_decide_def)
    qed
  next
    case False
    then show ?thesis
      using Some s(2) u by (intro stale) (simp add: ls_expunge_decide_def)
  qed
qed

lemma expunge_commits:
  assumes L: "sl_ok L" and ok: "entries_ok (sl_version L) (state_of (ls_snapshots st))"
    and e: "en_name e \<in> N" "valid_uuid (sl_version L) (en_uuid e)"
    and i: "ls_index st = None \<longrightarrow> ls_snapshots st = Map.empty"
  shows "commits L N st ((state_of (ls_snapshots st))(en_name e := None)) (ls_expunge_decide L e st) (\<lambda>_. ls_expunge_done e)"
proof -
  have none: "ls_expunge_done e None (st\<lparr>ls_writer := lw\<rparr>) = (Ok False, st\<lparr>ls_writer := lw, ls_starting := None\<rparr>)" for lw
    by (simp add: ls_expunge_done_def)
  from L ok e(2) show ?thesis
  proof (cases rule: expunge_decide_cases)
    case (expunge v s)
    then have eff: "apply_operation L p v S = Ok (S(en_name e := None))" for p S
      by (simp add: apply_operation_def)
    then have x: "expunge_op L v"
      unfolding expunge_op_def by blast
    have "ls_index st \<noteq> None"
      using i expunge(2) by auto
    moreover have "st\<lparr>ls_index := ls_index st\<rparr> = st"
      by simp
    moreover have "ls_expunge_done e (Some p) (st\<lparr>ls_writer := lw\<rparr>) = (Ok True, st\<lparr>ls_writer := lw,
        ls_snapshots := (ls_snapshots st)(en_name e := None), ls_index := ls_index st, ls_pending := Suc (ls_pending st)\<rparr>)" for p lw
      using expunge(2) by (cases st) (simp add: ls_expunge_done_def)
    moreover have "op_ok L N v"
      using expunge(4) e(1) by (simp add: op_ok_def)
    ultimately show ?thesis
      unfolding commits_def expunge(3) using none eff x by (auto simp del: fun_upd_apply)
  qed (use none in \<open>simp_all add: commits_def\<close>)
qed

lemma expunge_decide_current:
  assumes "sl_ok L" "entries_ok (sl_version L) (state_of (ls_snapshots st))" "valid_uuid (sl_version L) (en_uuid e)"
    "ls_expunge_decide L e st = Ok (Append d m)"
  shows "current (state_of (ls_snapshots st)) (en_name e) (en_uuid e)" "state_of (ls_snapshots st) (en_name e) \<noteq> None"
  using assms(1-3) by (cases rule: expunge_decide_cases; use assms(4) in \<open>simp add: state_of_def\<close>)+

subsection \<open>The operations of one process\<close>

definition log_state :: "state_log \<Rightarrow> 'w slog \<Rightarrow> entries" where
  "log_state L lg = state_of (contents L lg)"

text \<open>What an operation that may swap \<open>old\<close> for \<open>new\<close>, if \<open>ok\<close> holds, does with the state.\<close>

definition swaps :: "bool \<Rightarrow> bool outcome \<Rightarrow> entries \<Rightarrow> entries \<Rightarrow> entries \<Rightarrow> bool" where
  "swaps ok r old new after \<longleftrightarrow>
     r \<noteq> Abort \<and> (r = Ok True \<longrightarrow> ok \<and> after = new) \<and> (r \<noteq> Ok True \<longrightarrow> after = old \<or> ok \<and> after = new)"

definition kept :: "state_log \<Rightarrow> string set \<Rightarrow> 'w \<Rightarrow> 'w slog \<Rightarrow> LogStorage \<times> 'w slog \<Rightarrow> bool" where
  "kept L N w lg = (\<lambda>(st', lg'). log_inv L N lg' \<and> storage_inv L lg' w st' \<and> grows w lg lg')"

lemma start_kept:
  assumes "log_inv L N lg" "storage_inv L lg w st" "ls_start L w el (st, lg) = (r, s)"
  shows "kept L N w lg s" "log_state L (snd s) = log_state L lg" "r \<noteq> Abort" "r = Ok () \<Longrightarrow> ls_starting (fst s) = Some Ready"
  using start_ok [OF assms(1,2), of el r "fst s" "snd s"] assms(3) by (auto simp: kept_def log_state_def)

text \<open>Setting and expunging start the process, decide, append and continue.\<close>

lemma swap_ok:
  assumes lg: "log_inv L N lg" and st: "storage_inv L lg w st"
    and dec: "\<And>st lg. log_inv L N lg \<Longrightarrow> storage_inv L lg w st \<Longrightarrow> ls_starting st = Some Ready \<Longrightarrow>
      commits L N st (new (state_of (ls_snapshots st))) (decide st) continue \<and>
      (\<forall>d m. decide st = Ok (Append d m) \<longrightarrow> ok (state_of (ls_snapshots st)))"
    and s: "(case ls_start L w el (st, lg) of
        (Ok _, st, lg) \<Rightarrow> log_commit w f (decide st) continue (st, lg)
      | (Error err, s) \<Rightarrow> (Error err, s)
      | (Abort, s) \<Rightarrow> (Abort, s)) = (r, s')"
  shows "kept L N w lg s' \<and> swaps (ok (log_state L lg)) r (log_state L lg) (new (log_state L lg)) (log_state L (snd s'))"
proof -
  obtain q st1 lg1 where q: "ls_start L w el (st, lg) = (q, st1, lg1)"
    using prod_cases3 by blast
  note one = start_ok [OF lg st q]
  show ?thesis
  proof (cases q)
    case (Ok x)
    obtain st2 lg2 where s': "s' = (st2, lg2)"
      by fastforce
    have c: "log_commit w f (decide st1) continue (st1, lg1) = (r, st2, lg2)"
      using s q Ok s' by simp
    have ready: "ls_starting st1 = Some Ready"
      using one(6) Ok by simp
    note d = dec [OF one(1,2) ready]
    note two = commit_ok [OF one(1,2) ready conjunct1 [OF d] c]
    then have "kept L N w lg s'"
      using grows_trans [OF one(3)] by (simp add: kept_def s')
    moreover have "ok (log_state L lg)" "state_of (ls_snapshots st1) = log_state L lg"
      if "decide st1 = Ok (Append d m)" "ls_snapshots st1 = contents L lg1" for d m
      using d that one(4) by (simp_all add: log_state_def)
    ultimately show ?thesis
      using two one(4) by (auto simp: swaps_def log_state_def s')
  next
    case (Error err)
    then show ?thesis
      using s q start_kept [OF lg st q] by (auto simp: swaps_def)
  qed (use one(5) in simp)
qed

lemma set_ok:
  fixes lg :: "'w slog"
  assumes L: "sl_ok L" and inv: "log_inv L N lg" "storage_inv L lg w st"
    and e: "en_name e \<in> N" "valid_uuid (sl_version L) (en_uuid e)"
    and s: "log_set L w el f e u (st, lg) = (r, s')"
  shows "kept L N w lg s' \<and>
    swaps (current (log_state L lg) (en_name e) u) r (log_state L lg) ((log_state L lg)(en_name e \<mapsto> e)) (log_state L (snd s'))"
proof (rule swap_ok [OF inv, where ok = "\<lambda>x. current x (en_name e) u" and new = "\<lambda>x. x(en_name e \<mapsto> e)"])
  show "(case ls_start L w el (st, lg) of
        (Ok _, st, lg) \<Rightarrow> log_commit w f (ls_set_decide L e u st) (ls_set_done e) (st, lg)
      | (Error err, s) \<Rightarrow> (Error err, s) | (Abort, s) \<Rightarrow> (Abort, s)) = (r, s')"
    using s by (simp add: log_set_def)
next
  fix st and lg :: "'w slog"
  assume inv: "log_inv L N lg" "storage_inv L lg w st"
  note ok = snapshots_ok [OF inv]
  show "commits L N st ((state_of (ls_snapshots st))(en_name e \<mapsto> e)) (ls_set_decide L e u st) (ls_set_done e) \<and>
      (\<forall>d m. ls_set_decide L e u st = Ok (Append d m) \<longrightarrow> current (state_of (ls_snapshots st)) (en_name e) u)"
    using set_commits [OF L ok e] set_decide_current [OF L ok] by blast
qed

lemma expunge_ok:
  fixes lg :: "'w slog"
  assumes L: "sl_ok L" and inv: "log_inv L N lg" "storage_inv L lg w st"
    and e: "en_name e \<in> N" "valid_uuid (sl_version L) (en_uuid e)"
    and s: "log_expunge L w el f e (st, lg) = (r, s')"
  shows "kept L N w lg s' \<and>
    swaps (log_state L lg (en_name e) \<noteq> None \<and> current (log_state L lg) (en_name e) (en_uuid e)) r
      (log_state L lg) ((log_state L lg)(en_name e := None)) (log_state L (snd s'))"
proof (rule swap_ok [OF inv, where ok = "\<lambda>x. x (en_name e) \<noteq> None \<and> current x (en_name e) (en_uuid e)" and new = "\<lambda>x. x(en_name e := None)"])
  show "(case ls_start L w el (st, lg) of
        (Ok _, st, lg) \<Rightarrow> log_commit w f (ls_expunge_decide L e st) (\<lambda>_. ls_expunge_done e) (st, lg)
      | (Error err, s) \<Rightarrow> (Error err, s) | (Abort, s) \<Rightarrow> (Abort, s)) = (r, s')"
    using s by (simp add: log_expunge_def)
next
  fix st and lg :: "'w slog"
  assume inv: "log_inv L N lg" "storage_inv L lg w st" "ls_starting st = Some Ready"
  note ok = snapshots_ok [OF inv(1,2)]
  have i: "ls_index st = None \<longrightarrow> ls_snapshots st = Map.empty"
    using inv(2,3) by (auto simp: storage_inv_def applied_def lagging_def split: option.splits)
  show "commits L N st ((state_of (ls_snapshots st))(en_name e := None)) (ls_expunge_decide L e st) (\<lambda>_. ls_expunge_done e) \<and>
      (\<forall>d m. ls_expunge_decide L e st = Ok (Append d m) \<longrightarrow>
        state_of (ls_snapshots st) (en_name e) \<noteq> None \<and> current (state_of (ls_snapshots st)) (en_name e) (en_uuid e))"
    using expunge_commits [OF L ok e i] expunge_decide_current [OF L ok e(2)] by blast
qed

subsection \<open>Truncation\<close>

definition shortened :: "nat \<Rightarrow> 'w slog \<Rightarrow> 'w slog \<Rightarrow> bool" where
  "shortened m lg lg' \<longleftrightarrow>
     lg_entries lg' = lg_entries lg \<and> lg_begin lg' = max (lg_begin lg) m \<and> lg_end lg' = Suc (lg_end lg)"

lemma truncate_cases:
  assumes "writer_truncate w f m (lw, lg) = (r, lw', lg')"
  obtains
    (commit) "lg_index lg w = Some (lg_end lg)" "r = Ok (Some (Suc (lg_end lg)))" "shortened m lg lg'"
      "lg_index lg' = (lg_index lg)(w \<mapsto> Suc (lg_end lg))"
  | (chosen) "r = Ok None \<or> (\<exists>e. r = Error e)" "shortened m lg lg'" "lg_index lg' = (lg_index lg)(w := None)"
  | (ignored) "r = Ok None \<or> (\<exists>e. r = Error e)" "lg' = lg\<lparr>lg_index := (lg_index lg)(w := None)\<rparr>"
  | (refused) e where "r = Error e" "lg' = lg"
  using assms unfolding writer_truncate_def
proof (cases rule: writer_call_cases)
  case called
  then show ?thesis
    by (cases rule: lg_write_cases) (use that in \<open>auto simp: shortened_def lg_truncate_def\<close>)
qed (use that in auto)

lemma shortened_ok:
  assumes N: "simple_names L N" and lg: "log_inv L N lg" and st: "storage_inv L lg w st" "ls_snapshots st \<noteq> Map.empty"
    and m: "shortened (Min (sn_position ` ran (ls_snapshots st))) lg lg'"
  shows "log_inv L N lg'" "contents L lg' = contents L lg"
proof -
  obtain k where k: "run_ops L (upto_pos k (lg_entries lg)) Map.empty = Ok (ls_snapshots st)" "k \<le> lg_end lg"
    using st(1) by (auto simp: storage_inv_def applied_def)
  note es = log_invD [OF lg]
  note bounds = snapshot_bounds [OF ops_ok_part(1) [OF es(4)] k(1)]
  have "Min (sn_position ` ran (ls_snapshots st)) \<le> lg_end lg"
    using Min_in [OF bounds(1)] bounds(2) st(2) es(2) by (fastforce simp: ran_nonempty upto_pos_def)
  moreover show "contents L lg' = contents L lg"
    using m by (simp add: shortened_def contents_def)
  ultimately show "log_inv L N lg'"
    using truncation_safe [OF N es(1,4,5,6) k(1) st(2)] es m by (auto simp: log_inv_def shortened_def)
qed

lemma shortened_storage:
  assumes lg: "log_inv L N lg" "log_inv L N lg'" "contents L lg' = contents L lg" and st: "storage_inv L lg w st"
    and i: "lg_index lg w = Some (lg_end lg)" "lg_index lg' = (lg_index lg)(w \<mapsto> Suc (lg_end lg))"
    and m: "shortened m lg lg'" and t: "ls_truncated st \<noteq> None"
  shows "storage_inv L lg' w (ls_truncate_done m (Some (Suc (lg_end lg))) st)"
proof -
  let ?st = "ls_truncate_done m (Some (Suc (lg_end lg))) st"
  have eq: "ls_starting ?st = ls_starting st" "ls_snapshots ?st = ls_snapshots st"
    "ls_index ?st = option_max (ls_index st) (Some (Suc (lg_end lg)))" "ls_truncated ?st \<noteq> None"
    using t by (auto simp: ls_truncate_done_def)
  have "\<exists>k. applied L lg' w ?st k"
  proof (cases "ls_starting st = Some Ready")
    case True
    note k = ready_applied [OF lg(1) st True i(1)]
    have "ls_index ?st = Some (lg_end lg')"
      using k(1) True m eq(3) by (auto simp: applied_def lagging_def shortened_def split: option.splits)
    moreover have "upto_pos (lg_end lg') (lg_entries lg') = lg_entries lg'"
      using upto_end [OF lg(2)] by simp
    ultimately have "applied L lg' w ?st (lg_end lg')"
      using k(2) eq(1,2) lg(3) log_invD(5) [OF lg(2)] i(2) m by (simp add: applied_def lagging_def shortened_def)
    then show ?thesis ..
  next
    case False
    moreover have "ls_starting st \<noteq> None"
      using st i(1) by (auto simp: storage_inv_def)
    ultimately obtain e where e: "ls_starting st = Some (Failed e)"
      by (metis future_state.exhaust option.exhaust)
    obtain k where "applied L lg w st k"
      using st by (auto simp: storage_inv_def)
    then have "applied L lg' w ?st k"
      using e eq m by (auto simp: applied_def shortened_def)
    then show ?thesis ..
  qed
  then show ?thesis
    using st i eq by (auto simp: storage_inv_def)
qed

lemma truncate_ok:
  assumes N: "simple_names L N" and lg: "log_inv L N lg" and st: "storage_inv L lg w st"
    and t: "ls_truncated st \<noteq> None" and x: "ls_truncate st = Ok (Some m)"
    and q: "writer_truncate w f m (ls_writer st, lg) = (q, lw, lg')"
    and s: "s' = (case q of Ok position \<Rightarrow> ls_truncate_done m position (st\<lparr>ls_writer := lw\<rparr>) | _ \<Rightarrow> st\<lparr>ls_writer := lw\<rparr>)"
  shows "kept L N w lg (s', lg') \<and> q \<noteq> Abort \<and> log_state L lg' = log_state L lg"
proof -
  have m: "m = Min (sn_position ` ran (ls_snapshots st))" "ls_snapshots st \<noteq> Map.empty"
    using x t by (auto simp: ls_truncate_def Let_def ran_nonempty split: option.splits if_splits)
  have short: "log_inv L N lg' \<and> contents L lg' = contents L lg" if "shortened m lg lg'"
    using shortened_ok [OF N lg st m(2)] that m(1) by blast
  have grow: "grows w lg lg'" if "shortened m lg lg'" "\<forall>v. v \<noteq> w \<longrightarrow> lg_index lg' v = lg_index lg v"
    using that by (simp add: grows_def shortened_def)
  have lost: "s' = st\<lparr>ls_writer := lw\<rparr>" if "q = Ok None \<or> (\<exists>e. q = Error e)"
    using that s by (auto simp: ls_truncate_done_def)
  from q show ?thesis
  proof (cases rule: truncate_cases)
    case commit
    have "storage_inv L lg' w s'"
      using shortened_storage [OF lg _ _ _ commit(1,4,3), of "st\<lparr>ls_writer := lw\<rparr>"] short [OF commit(3)] st t s commit(2) by simp
    then show ?thesis
      using short [OF commit(3)] grow [OF commit(3)] commit(2,4) by (simp add: kept_def log_state_def)
  next
    case chosen
    have g: "grows w lg lg'"
      using grow [OF chosen(2)] chosen(3) by simp
    have "storage_inv L lg' w s'"
      using lost [OF chosen(1)] chosen(3) by (intro demoted_inv [OF st g]) simp_all
    then show ?thesis
      using short [OF chosen(2)] g chosen(1) by (auto simp: kept_def log_state_def)
  next
    case ignored
    have g: "grows w lg lg'"
      using ignored(2) by (simp add: grows_def)
    have "storage_inv L lg' w s'"
      using lost [OF ignored(1)] ignored(2) by (intro demoted_inv [OF st g]) simp_all
    then show ?thesis
      using log_inv_cong [of lg' lg] lg g ignored by (auto simp: kept_def log_state_def)
  next
    case (refused e)
    then show ?thesis
      using lost lg st grows_refl by (auto simp: kept_def)
  qed
qed

lemma truncation_ok:
  assumes N: "simple_names L N" and lg: "log_inv L N lg" and st: "storage_inv L lg w st"
    and s: "log_truncation w f (st, lg) = (r, s')"
  shows "kept L N w lg s' \<and> r \<noteq> Abort \<and> log_state L (snd s') = log_state L lg"
proof (cases "ls_pending st = 0")
  case True
  then show ?thesis
    using s lg st grows_refl by (auto simp: log_truncation_def kept_def)
next
  case False
  define st1 where "st1 = st\<lparr>ls_pending := ls_pending st - 1\<rparr>"
  have t: "ls_truncated st1 \<noteq> None"
    using st False by (auto simp: st1_def storage_inv_def)
  have "lagging L lg k st1 = lagging L lg k st" for k
    by (rule lagging_cong) (simp_all add: st1_def)
  then have st1: "storage_inv L lg w st1"
    using st by (auto simp: storage_inv_def applied_def st1_def)
  obtain x where "ls_truncate st1 = Ok x"
    using t by (auto simp: ls_truncate_def Let_def)
  then consider (nothing) "ls_truncate st1 = Ok None" | (truncate) m where "ls_truncate st1 = Ok (Some m)"
    by (cases x) auto
  then show ?thesis
  proof cases
    case nothing
    then show ?thesis
      using s False lg st1 grows_refl by (auto simp: log_truncation_def kept_def st1_def)
  next
    case (truncate m)
    obtain q lw lg1 where q: "writer_truncate w f m (ls_writer st1, lg) = (q, lw, lg1)"
      using prod_cases3 by blast
    have "s' = (case q of Ok position \<Rightarrow> ls_truncate_done m position (st1\<lparr>ls_writer := lw\<rparr>) | _ \<Rightarrow> st1\<lparr>ls_writer := lw\<rparr>, lg1)"
      "r = Abort \<longleftrightarrow> q = Abort"
      using s False truncate q by (auto simp: log_truncation_def Let_def st1_def split: outcome.splits)
    then show ?thesis
      using truncate_ok [OF N lg st1 t truncate q refl] by simp
  qed
qed

end
