(* ===== verification/State_Scenario.thy ===== *)
theory State_Scenario
  imports State_Run
begin

section \<open>Executions of storages over a log\<close>

text \<open>
  Clusters of processes that share one replicated log and are restarted at any time. The theorems at the
  end say what their clients can rely on, and where the code does not keep what its comments promise.
\<close>

record 'w cluster =
  cl_log :: "'w slog"
  cl_storage :: "'w \<Rightarrow> LogStorage"

definition new_cluster :: "'w cluster" where
  "new_cluster =
     \<lparr>cl_log = \<lparr>lg_entries = [], lg_begin = 0, lg_end = 0, lg_index = Map.empty\<rparr>, cl_storage = (\<lambda>_. new_log_storage)\<rparr>"

definition cl_run :: "'w \<Rightarrow> (LogStorage \<times> 'w slog \<Rightarrow> 'a \<times> LogStorage \<times> 'w slog) \<Rightarrow> 'w cluster \<Rightarrow> 'a \<times> 'w cluster" where
  "cl_run w f c =
     (case f (cl_storage c w, cl_log c) of
        (r, st, lg) \<Rightarrow> (r, c\<lparr>cl_log := lg, cl_storage := (cl_storage c)(w := st)\<rparr>))"

definition cl_restart :: "'w \<Rightarrow> 'w cluster \<Rightarrow> 'w cluster" where
  "cl_restart w c =
     c\<lparr>cl_log := (cl_log c)\<lparr>lg_index := (lg_index (cl_log c))(w := None)\<rparr>,
       cl_storage := (cl_storage c)(w := new_log_storage)\<rparr>"

datatype 'w state_request =
    Get 'w election string
  | Names 'w election
  | Set 'w election fate Entry string
  | Expunge 'w election fate Entry
  | Truncate 'w fate
  | Restart 'w

datatype state_reply =
    Entry_reply "Entry option outcome"
  | Names_reply "string set outcome"
  | Bool_reply "bool outcome"
  | Unit_reply "unit outcome"

fun perform :: "state_log \<Rightarrow> 'w state_request \<Rightarrow> 'w cluster \<Rightarrow> state_reply \<times> 'w cluster" where
  "perform L (Get w el n) c = map_prod Entry_reply id (cl_run w (log_get L w el n) c)"
| "perform L (Names w el) c = map_prod Names_reply id (cl_run w (log_names L w el) c)"
| "perform L (Set w el f e u) c = map_prod Bool_reply id (cl_run w (log_set L w el f e u) c)"
| "perform L (Expunge w el f e) c = map_prod Bool_reply id (cl_run w (log_expunge L w el f e) c)"
| "perform L (Truncate w f) c = map_prod Unit_reply id (cl_run w (log_truncation w f) c)"
| "perform L (Restart w) c = (Unit_reply (Ok ()), cl_restart w c)"

text \<open>Clients use variables whose names are in \<open>N\<close>, and the class \<open>State\<close> gives them proper UUIDs.\<close>

fun proper_request :: "state_log \<Rightarrow> string set \<Rightarrow> 'w state_request \<Rightarrow> bool" where
  "proper_request L N (Set w el f e u) \<longleftrightarrow> en_name e \<in> N \<and> valid_uuid (sl_version L) (en_uuid e)"
| "proper_request L N (Expunge w el f e) \<longleftrightarrow> en_name e \<in> N \<and> valid_uuid (sl_version L) (en_uuid e)"
| "proper_request L N _ \<longleftrightarrow> True"

inductive reaches :: "state_log \<Rightarrow> string set \<Rightarrow> 'w cluster \<Rightarrow> bool" for L N where
  new: "reaches L N new_cluster"
| step: "reaches L N c \<Longrightarrow> proper_request L N q \<Longrightarrow> perform L q c = (r, c') \<Longrightarrow> reaches L N c'"

definition cl_state :: "state_log \<Rightarrow> 'w cluster \<Rightarrow> entries" where
  "cl_state L c = log_state L (cl_log c)"

definition cl_inv :: "state_log \<Rightarrow> string set \<Rightarrow> 'w cluster \<Rightarrow> bool" where
  "cl_inv L N c \<longleftrightarrow>
     sl_ok L \<and> simple_names L N \<and> log_inv L N (cl_log c) \<and> (\<forall>w. storage_inv L (cl_log c) w (cl_storage c w))"

text \<open>The specification: a map from names to entries and atomic operations on it.\<close>

fun state_step :: "'w state_request \<Rightarrow> state_reply \<Rightarrow> entries \<Rightarrow> entries \<Rightarrow> bool" where
  "state_step (Set w el f e u) (Bool_reply r) S S' \<longleftrightarrow> swaps (current S (en_name e) u) r S (S(en_name e \<mapsto> e)) S'"
| "state_step (Expunge w el f e) (Bool_reply r) S S' \<longleftrightarrow>
     swaps (S (en_name e) \<noteq> None \<and> current S (en_name e) (en_uuid e)) r S (S(en_name e := None)) S'"
| "state_step (Get w el n) (Entry_reply r) S S' \<longleftrightarrow> r \<noteq> Abort \<and> S' = S"
| "state_step (Names w el) (Names_reply r) S S' \<longleftrightarrow> r \<noteq> Abort \<and> S' = S"
| "state_step (Truncate w f) (Unit_reply r) S S' \<longleftrightarrow> r \<noteq> Abort \<and> S' = S"
| "state_step (Restart w) (Unit_reply r) S S' \<longleftrightarrow> r \<noteq> Abort \<and> S' = S"
| "state_step _ _ _ _ \<longleftrightarrow> False"

lemma cl_run_kept:
  assumes c: "cl_inv L N c" and r: "cl_run w f c = (r, c')"
    and k: "\<And>s. f (cl_storage c w, cl_log c) = (r, s) \<Longrightarrow> kept L N w (cl_log c) s \<and> P r (log_state L (snd s))"
  shows "cl_inv L N c' \<and> P r (cl_state L c')"
proof -
  obtain st lg where f: "f (cl_storage c w, cl_log c) = (r, st, lg)" "c' = c\<lparr>cl_log := lg, cl_storage := (cl_storage c)(w := st)\<rparr>"
    using r by (auto simp: cl_run_def split: prod.splits)
  have kept: "log_inv L N lg" "storage_inv L lg w st" "grows w (cl_log c) lg" "P r (log_state L lg)"
    using k [OF f(1)] by (auto simp: kept_def)
  have "storage_inv L lg v (cl_storage c v)" if "v \<noteq> w" for v
    using storage_inv_grows [OF _ kept(3) that] c by (auto simp: cl_inv_def)
  then show ?thesis
    using kept c by (auto simp: cl_inv_def cl_state_def f(2))
qed

lemma get_kept:
  assumes "log_inv L N lg" "storage_inv L lg w st"
  shows "log_get L w el n (st, lg) = (r, s) \<Longrightarrow> kept L N w lg s \<and> r \<noteq> Abort \<and> log_state L (snd s) = log_state L lg"
    "log_names L w el (st, lg) = (q, s) \<Longrightarrow> kept L N w lg s \<and> q \<noteq> Abort \<and> log_state L (snd s) = log_state L lg"
proof -
  obtain x s1 where x: "ls_start L w el (st, lg) = (x, s1)"
    by (cases "ls_start L w el (st, lg)")
  note s1 = start_kept [OF assms x]
  show "log_get L w el n (st, lg) = (r, s) \<Longrightarrow> kept L N w lg s \<and> r \<noteq> Abort \<and> log_state L (snd s) = log_state L lg"
    using s1 x by (cases x; cases s1) (auto simp: log_get_def)
  show "log_names L w el (st, lg) = (q, s) \<Longrightarrow> kept L N w lg s \<and> q \<noteq> Abort \<and> log_state L (snd s) = log_state L lg"
    using s1 x by (cases x; cases s1) (auto simp: log_names_def)
qed

lemma new_storage_inv:
  assumes "log_inv L N lg" "lg_index lg w = None"
  shows "storage_inv L lg w new_log_storage"
proof -
  have "upto_pos 0 (lg_entries lg) = []"
    using log_invD(7) [OF assms(1)] by (simp add: upto_pos_def filter_empty_conv)
  then have "applied L lg w new_log_storage 0"
    using assms(2) by (simp add: applied_def lagging_def new_log_storage_def)
  then show ?thesis
    using assms(2) by (auto simp: storage_inv_def new_log_storage_def)
qed

lemma restart_inv: "cl_inv L N c \<Longrightarrow> cl_inv L N (cl_restart w c) \<and> cl_state L (cl_restart w c) = cl_state L c"
proof -
  let ?lg = "(cl_log c)\<lparr>lg_index := (lg_index (cl_log c))(w := None)\<rparr>"
  assume c: "cl_inv L N c"
  have g: "grows w (cl_log c) ?lg"
    by (simp add: grows_def)
  have lg: "log_inv L N ?lg" "contents L ?lg = contents L (cl_log c)"
    using log_inv_cong [of ?lg "cl_log c"] c by (auto simp: cl_inv_def)
  have "storage_inv L ?lg v (cl_storage c v)" if "v \<noteq> w" for v
    using storage_inv_grows [OF _ g that] c by (auto simp: cl_inv_def)
  moreover have "storage_inv L ?lg w new_log_storage"
    using new_storage_inv [OF lg(1)] by simp
  ultimately show ?thesis
    using c lg by (auto simp: cl_inv_def cl_restart_def cl_state_def log_state_def)
qed

lemma perform_ok:
  assumes c: "cl_inv L N c" and q: "proper_request L N q" and r: "perform L q c = (r, c')"
  shows "cl_inv L N c' \<and> state_step q r (cl_state L c) (cl_state L c')"
proof -
  have inv: "log_inv L N (cl_log c)" "storage_inv L (cl_log c) w (cl_storage c w)" "sl_ok L" "simple_names L N" for w
    using c by (auto simp: cl_inv_def)
  show ?thesis
  proof (cases q)
    case (Get w el n)
    then obtain x where x: "r = Entry_reply x" "cl_run w (log_get L w el n) c = (x, c')"
      using r by (auto simp: map_prod_def split: prod.splits)
    show ?thesis
      using cl_run_kept [OF c x(2), where P = "\<lambda>x s. x \<noteq> Abort \<and> s = cl_state L c"] get_kept(1) [OF inv(1,2)] Get x(1)
      by (simp add: cl_state_def)
  next
    case (Names w el)
    then obtain x where x: "r = Names_reply x" "cl_run w (log_names L w el) c = (x, c')"
      using r by (auto simp: map_prod_def split: prod.splits)
    show ?thesis
      using cl_run_kept [OF c x(2), where P = "\<lambda>x s. x \<noteq> Abort \<and> s = cl_state L c"] get_kept(2) [OF inv(1,2)] Names x(1)
      by (simp add: cl_state_def)
  next
    case (Set w el f e u)
    then obtain x where x: "r = Bool_reply x" "cl_run w (log_set L w el f e u) c = (x, c')"
      using r by (auto simp: map_prod_def split: prod.splits)
    have e: "en_name e \<in> N" "valid_uuid (sl_version L) (en_uuid e)"
      using q Set by simp_all
    show ?thesis
      using cl_run_kept [OF c x(2), where P = "\<lambda>x. swaps (current (cl_state L c) (en_name e) u) x (cl_state L c) ((cl_state L c)(en_name e \<mapsto> e))"]
        set_ok [OF inv(3,1,2) e] Set x(1) by (simp add: cl_state_def)
  next
    case (Expunge w el f e)
    then obtain x where x: "r = Bool_reply x" "cl_run w (log_expunge L w el f e) c = (x, c')"
      using r by (auto simp: map_prod_def split: prod.splits)
    have e: "en_name e \<in> N" "valid_uuid (sl_version L) (en_uuid e)"
      using q Expunge by simp_all
    show ?thesis
      using cl_run_kept [OF c x(2), where P = "\<lambda>x. swaps (cl_state L c (en_name e) \<noteq> None \<and>
          current (cl_state L c) (en_name e) (en_uuid e)) x (cl_state L c) ((cl_state L c)(en_name e := None))"]
        expunge_ok [OF inv(3,1,2) e] Expunge x(1) by (simp add: cl_state_def)
  next
    case (Truncate w f)
    then obtain x where x: "r = Unit_reply x" "cl_run w (log_truncation w f) c = (x, c')"
      using r by (auto simp: map_prod_def split: prod.splits)
    show ?thesis
      using cl_run_kept [OF c x(2), where P = "\<lambda>x s. x \<noteq> Abort \<and> s = cl_state L c"] truncation_ok [OF inv(4,1,2)] Truncate x(1)
      by (simp add: cl_state_def)
  next
    case (Restart w)
    then show ?thesis
      using r restart_inv [OF c] by auto
  qed
qed

lemma reaches_inv:
  fixes c :: "'w cluster"
  assumes "reaches L N c" "sl_ok L" "simple_names L N"
  shows "cl_inv L N c"
  using assms(1)
proof induction
  case new
  have lg: "log_inv L N (cl_log (new_cluster :: 'w cluster))"
    by (simp add: log_inv_def new_cluster_def contents_def from_pos_def)
  then show ?case
    using new_storage_inv [OF lg] assms(2,3) by (simp add: cl_inv_def new_cluster_def)
next
  case (step c q r c')
  then show ?case
    using perform_ok by blast
qed

text \<open>The state after the operations up to a position.\<close>

definition history :: "state_log \<Rightarrow> 'w cluster \<Rightarrow> nat \<Rightarrow> entries" where
  "history L c k = (case run_ops L (upto_pos k (lg_entries (cl_log c))) Map.empty of Ok S \<Rightarrow> state_of S | _ \<Rightarrow> Map.empty)"

lemma get_history:
  assumes c: "cl_inv L N c" and g: "cl_run w (log_get L w el n) c = (Ok x, c')"
  shows "\<exists>k. x = history L c' k n"
proof -
  obtain st lg where s: "log_get L w el n (cl_storage c w, cl_log c) = (Ok x, st, lg)"
    "c' = c\<lparr>cl_log := lg, cl_storage := (cl_storage c)(w := st)\<rparr>"
    using g by (auto simp: cl_run_def split: prod.splits)
  then have st: "ls_start L w el (cl_storage c w, cl_log c) = (Ok (), st, lg)" "x = ls_get n st"
    by (auto simp: log_get_def split: prod.splits outcome.splits)
  have "storage_inv L lg w st"
    using start_ok(2) [OF _ _ st(1)] c by (auto simp: cl_inv_def)
  then obtain k where "run_ops L (upto_pos k (lg_entries lg)) Map.empty = Ok (ls_snapshots st)"
    by (auto simp: storage_inv_def applied_def)
  then have "x = history L c' k n"
    using st(2) s(2) by (simp add: history_def ls_get_def state_of_def)
  then show ?thesis ..
qed

lemma get_restarted:
  assumes c: "cl_inv L N c"
  shows "fst (cl_run w (log_get L w (Elected gap) n) (cl_restart w c)) = Ok (cl_state L c n)"
proof -
  have r: "cl_inv L N (cl_restart w c)" "cl_state L (cl_restart w c) = cl_state L c"
    using restart_inv [OF c] by simp_all
  let ?st = "cl_storage (cl_restart w c) w" and ?lg = "cl_log (cl_restart w c)"
  have inv: "log_inv L N ?lg" "storage_inv L ?lg w ?st"
    using r(1) by (auto simp: cl_inv_def)
  have fresh: "ls_starting ?st = None" "ls_index ?st = None"
    by (simp_all add: cl_restart_def new_log_storage_def)
  obtain st' lg' where "ls_start L w (Elected gap) (?st, ?lg) = (Ok (), st', lg')" "ls_snapshots st' = contents L ?lg"
    using start_fresh [OF inv fresh, of gap] by metis
  then show ?thesis
    using fun_cong [OF r(2), of n] by (auto simp: cl_run_def log_get_def ls_get_def cl_state_def log_state_def state_of_def)
qed

text \<open>
  As long as differences are disabled, which is the default, the storage implements the interface of
  versioned variables, whichever process is asked and whatever happens to the log meanwhile.
\<close>

definition log_storage_inv :: "state_log \<Rightarrow> 'w cluster \<Rightarrow> bool" where
  "log_storage_inv L c \<longleftrightarrow> sl_diffsBetweenSnapshots L = 0 \<and> cl_inv L UNIV c"

interpretation lgs: swap_storage "sl_version L" "\<lambda>e u. cl_run w (log_set L w el f e u)" "\<lambda>e. cl_run w (log_expunge L w el f e)"
  "log_storage_inv L" "cl_state L" for L and w :: 'w and el f
proof unfold_locales
  fix s s' :: "'w cluster" and e :: Entry and u r
  assume s: "log_storage_inv L s"
  then have c: "cl_inv L UNIV s"
    by (simp add: log_storage_inv_def)
  show "entries_ok (sl_version L) (cl_state L s)"
    using c contents_ok by (auto simp: cl_inv_def cl_state_def log_state_def)
  assume e: "valid_uuid (sl_version L) (en_uuid e)"
  show "cl_run w (log_set L w el f e u) s = (r, s') \<Longrightarrow> log_storage_inv L s' \<and> r \<noteq> Abort \<and>
      (r = Ok True \<longrightarrow> current (cl_state L s) (en_name e) u \<and> cl_state L s' = (cl_state L s)(en_name e \<mapsto> e)) \<and>
      (r \<noteq> Ok True \<longrightarrow> cl_state L s' = cl_state L s \<or>
         current (cl_state L s) (en_name e) u \<and> cl_state L s' = (cl_state L s)(en_name e \<mapsto> e))"
    using perform_ok [OF c, of "Set w el f e u" "Bool_reply r" s'] e s by (auto simp: swaps_def log_storage_inv_def)
  show "cl_run w (log_expunge L w el f e) s = (r, s') \<Longrightarrow> log_storage_inv L s' \<and> r \<noteq> Abort \<and>
      (r = Ok True \<longrightarrow> cl_state L s (en_name e) \<noteq> None \<and> current (cl_state L s) (en_name e) (en_uuid e) \<and>
         cl_state L s' = (cl_state L s)(en_name e := None)) \<and>
      (r \<noteq> Ok True \<longrightarrow> cl_state L s' = cl_state L s \<or>
         current (cl_state L s) (en_name e) (en_uuid e) \<and> cl_state L s' = (cl_state L s)(en_name e := None))"
    using perform_ok [OF c, of "Expunge w el f e" "Bool_reply r" s'] e s by (auto simp: swaps_def log_storage_inv_def)
qed

text \<open>Several requests, one after the other.\<close>

fun performs :: "state_log \<Rightarrow> 'w state_request list \<Rightarrow> 'w cluster \<Rightarrow> 'w cluster" where
  "performs L [] c = c"
| "performs L (q # qs) c = performs L qs (snd (perform L q c))"

lemma reaches_performs: "reaches L N c \<Longrightarrow> list_all (proper_request L N) qs \<Longrightarrow> reaches L N (performs L qs c)"
proof (induction qs arbitrary: c)
  case (Cons q qs)
  have "reaches L N (snd (perform L q c))"
    using reaches.step [OF Cons.prems(1), of q "fst (perform L q c)"] Cons.prems(2) by simp
  then show ?case
    using Cons by simp
qed simp

subsection \<open>An example\<close>

text \<open>
  A serialization for names of one character, and differences between a string and its extensions.
\<close>

definition op_bytes :: "Operation \<Rightarrow> string option" where
  "op_bytes x =
     (let short = (\<lambda>e. length (en_name e) = 1 \<and> length (en_uuid e) = 16); bytes = (\<lambda>e. en_name e @ en_uuid e @ en_value e) in
      case (op_type x, op_snapshot x, op_diff x, op_expunge x) of
        (SNAPSHOT, Some e, None, None) \<Rightarrow> if short e then Some (CHR ''S'' # bytes e) else None
      | (DIFF, None, Some e, None) \<Rightarrow> if short e then Some (CHR ''D'' # bytes e) else None
      | (EXPUNGE, None, None, Some n) \<Rightarrow> Some (CHR ''E'' # n)
      | _ \<Rightarrow> None)"

fun op_parse :: "string \<Rightarrow> Operation option" where
  "op_parse [] = None"
| "op_parse (c # v) =
     (let e = \<lparr>en_name = take 1 v, en_uuid = take 16 (drop 1 v), en_value = drop 17 v\<rparr> in
      if c = CHR ''S'' then Some \<lparr>op_type = SNAPSHOT, op_snapshot = Some e, op_diff = None, op_expunge = None\<rparr>
      else if c = CHR ''D'' then Some \<lparr>op_type = DIFF, op_snapshot = None, op_diff = Some e, op_expunge = None\<rparr>
      else Some \<lparr>op_type = EXPUNGE, op_snapshot = None, op_diff = None, op_expunge = Some v\<rparr>)"

definition example_log :: "nat \<Rightarrow> state_log" where
  "example_log n =
     \<lparr>sl_version = (\<lambda>_. True),
      sl_diff = (\<lambda>a b. if take (length a) b = a then Ok (drop (length a) b) else Error ''not an extension''),
      sl_patch = (\<lambda>a d. Ok (a @ d)),
      sl_serialize = op_bytes, sl_parse = op_parse, sl_diffsBetweenSnapshots = n\<rparr>"

lemma op_parse_bytes: "op_bytes x = Some v \<Longrightarrow> op_parse v = Some x"
proof (cases x)
  case (fields t s d n)
  assume "op_bytes x = Some v"
  then show ?thesis
    by (cases t) (auto simp: fields op_bytes_def Let_def drop_append split: option.splits if_splits)
qed

lemma append_patch: "take (length a) b = a \<Longrightarrow> a @ drop (length a) b = b"
  by (metis append_take_drop_id)

lemma example_log_ok: "sl_ok (example_log n)"
  using op_parse_bytes append_patch by (auto simp: sl_ok_def example_log_def split: if_splits)

text \<open>Entries and the evaluation of runs with them.\<close>

definition uuid :: "char \<Rightarrow> string" where
  "uuid c = replicate 16 c"

definition entry :: "string \<Rightarrow> char \<Rightarrow> string \<Rightarrow> Entry" where
  "entry n c v = \<lparr>en_name = n, en_uuid = uuid c, en_value = v\<rparr>"

lemma uuid_example: "uuid_get (\<lambda>_. True) (uuid c) = Ok (uuid c)" "uuid c = uuid d \<longleftrightarrow> c = d" "length (uuid c) = 16"
  by (simp_all add: uuid_get_Ok uuid_def)

lemma op_example:
  "op_parse (CHR ''S'' # n # uuid c @ v) = Some \<lparr>op_type = SNAPSHOT, op_snapshot = Some (entry [n] c v), op_diff = None, op_expunge = None\<rparr>"
  "op_parse (CHR ''D'' # n # uuid c @ v) = Some \<lparr>op_type = DIFF, op_snapshot = None, op_diff = Some (entry [n] c v), op_expunge = None\<rparr>"
  by (simp_all add: entry_def uuid_def)

lemma ran_eval:
  "ran (m(a \<mapsto> b)) = insert b (ran (m(a := None)))"
  "a \<noteq> c \<Longrightarrow> (m(a \<mapsto> b))(c := None) = (m(c := None))(a \<mapsto> b)"
  by (auto simp: ran_def fun_upd_def)

lemmas run_defs = cl_run_def log_get_def log_set_def ls_start_def writer_start_def ls_started_def ls_apply_read_def lg_read_def
  log_commit_def ls_set_decide_def ls_set_done_def writer_append_def writer_call_def lg_write_def lg_append_def Let_def
  log_truncation_def ls_truncate_def writer_truncate_def lg_truncate_def ls_truncate_done_def cl_restart_def
  apply_operation_def snapshot_patch_def ls_get_def new_cluster_def new_log_storage_def

lemmas example_defs = run_defs example_log_def op_bytes_def entry_def uuid_example op_example [unfolded entry_def] ran_eval
  cl_state_def log_state_def contents_def state_of_def

definition orphan_run :: "nat state_request list" where
  "orphan_run =
     [Set 0 (Elected 0) Commit (entry ''A'' (CHR ''1'') ''x'') [], Truncate 0 Commit,
      Set 0 (Elected 0) Commit (entry ''B'' (CHR ''2'') ''x'') [], Truncate 0 Commit,
      Set 0 (Elected 0) Commit (entry ''A'' (CHR ''3'') ''xy'') (uuid (CHR ''1'')), Truncate 0 Commit,
      Set 0 (Elected 0) Commit (entry ''A'' (CHR ''4'') ''z'') (uuid (CHR ''3'')), Truncate 0 Commit, Restart 0]"


definition demoted_run :: "nat state_request list" where
  "demoted_run =
     [Set 0 (Elected 0) Commit (entry ''A'' (CHR ''1'') ''x'') [], Truncate 0 Commit,
      Set 1 (Elected 0) Commit (entry ''A'' (CHR ''2'') ''y'') (uuid (CHR ''1'')), Truncate 1 Commit,
      Set 0 (Elected 0) Commit (entry ''A'' (CHR ''3'') ''z'') (uuid (CHR ''1''))]"

lemma example_proper:
  "list_all (proper_request (example_log n) UNIV) orphan_run" "list_all (proper_request (example_log n) UNIV) demoted_run"
  by (simp_all add: orphan_run_def demoted_run_def example_log_def entry_def valid_uuid_def uuid_example)

lemma example_simple: "simple_names (example_log 0) N"
  by (simp add: simple_names_def example_log_def)

lemma demoted_reached: "reaches (example_log n) UNIV (performs (example_log n) demoted_run new_cluster)"
  by (rule reaches_performs [OF reaches.new example_proper(2)])

lemma orphan_reached: "reaches (example_log n) UNIV (performs (example_log n) orphan_run new_cluster)"
  by (rule reaches_performs [OF reaches.new example_proper(1)])

subsection \<open>Properties\<close>







text \<open>
  Property C37. With differences and two variables, truncation can remove the snapshot that an older difference
  in the log refers to. The next process that reads the log fails a check.
\<close>

theorem orphan_diff_aborts:
  "let L = example_log 1; c = performs L orphan_run new_cluster in
     sl_ok L \<and> sl_diffsBetweenSnapshots L = 1 \<and> reaches L UNIV c \<and>
     cl_state L c ''A'' = Some (entry ''A'' (CHR ''4'') ''z'') \<and>
     fst (perform L (Get 0 (Elected 0) ''A'') c) = Entry_reply Abort"
proof -
  let ?L = "example_log 1"
  let ?c = "performs ?L orphan_run new_cluster"
  have "fst (perform ?L (Get 0 (Elected 0) ''A'') ?c) = Entry_reply Abort"
    by (simp add: orphan_run_def example_defs del: op_parse.simps)
  moreover have "cl_state ?L ?c ''A'' = Some (entry ''A'' (CHR ''4'') ''z'')"
    by (simp add: orphan_run_def example_defs del: op_parse.simps)
  moreover have "sl_diffsBetweenSnapshots ?L = 1"
    by (simp add: example_log_def)
  ultimately show ?thesis
    using orphan_reached example_log_ok unfolding Let_def by blast
qed

text \<open>
  Property C38. A process that was demoted cannot start again once another one has truncated the log beyond
  the last position it has read: reading fails, and every later operation of the process fails with it.
\<close>

theorem demoted_start_fails:
  "\<exists>c'. let L = example_log 0; c = performs L demoted_run new_cluster; e = ''Bad read range (truncated position)'' in
     sl_ok L \<and> reaches L UNIV c \<and> perform L (Get 0 (Elected 0) ''A'') c = (Entry_reply (Error e), c') \<and>
     (\<forall>el f n x u. fst (perform L (Get 0 el n) c') = Entry_reply (Error e) \<and> fst (perform L (Set 0 el f x u) c') = Bool_reply (Error e))"
proof -
  let ?L = "example_log 0" and ?e = "''Bad read range (truncated position)''"
  let ?c = "performs ?L demoted_run new_cluster"
  obtain c' where "perform ?L (Get 0 (Elected 0) ''A'') ?c = (Entry_reply (Error ?e), c')"
    "ls_starting (cl_storage c' 0) = Some (Failed ?e)"
    by (simp add: demoted_run_def example_defs del: op_parse.simps)
  moreover have "\<forall>el f n x u. fst (perform ?L (Get 0 el n) c') = Entry_reply (Error ?e) \<and> fst (perform ?L (Set 0 el f x u) c') = Bool_reply (Error ?e)"
    using calculation(2) by (simp add: cl_run_def log_get_def log_set_def ls_start_def)
  ultimately show ?thesis
    using demoted_reached example_log_ok unfolding Let_def by blast
qed

end
