(* ===== verification/Registry_Operations.thy ===== *)
theory Registry_Operations
  imports Mesos_Prelude
begin

section \<open>Operations on the registry\<close>

text \<open>
  The registry in which the master keeps the agents of the cluster (\<open>src/master/registry.proto\<close>) and the
  operations on it: those on agents of \<open>src/master/registry_operations.cpp\<close> and those on machines of
  \<open>src/master/maintenance.cpp\<close>. Quotas, weights and resource providers are one field that these operations
  do not touch. The conversions of resources of \<open>src/common/resources_utils.cpp\<close> are arguments. The identifier of
  a machine is a string, equal for machines that compare equal; times and durations are integers.
\<close>

subsection \<open>The registry\<close>

type_synonym SlaveID = string

type_synonym MachineID = string

record SlaveInfo =
  si_id :: SlaveID
  si_content :: string

datatype DrainState = UNKNOWN | DRAINING | DRAINED

record DrainConfig =
  max_grace_period :: "int option"
  mark_gone :: "bool option"

record DrainInfo =
  dr_state :: DrainState
  dr_config :: DrainConfig

record Slave =
  sv_info :: SlaveInfo
  sv_drain_info :: "DrainInfo option"
  sv_deactivated :: "bool option"

record UnreachableSlave =
  un_id :: SlaveID
  un_timestamp :: int
  un_drain_info :: "DrainInfo option"
  un_deactivated :: "bool option"

record GoneSlave =
  go_id :: SlaveID
  go_timestamp :: int

datatype Mode = UP | MODE_DRAINING | DOWN

record MachineInfo =
  mi_id :: MachineID
  mi_mode :: "Mode option"
  mi_unavailability :: "(int \<times> int option) option"

record Window =
  wi_machine_ids :: "MachineID list"
  wi_unavailability :: "int \<times> int option"

type_synonym Schedule = "Window list"

record Registry =
  rg_master :: "string option"
  rg_slaves :: "Slave list"
  rg_unreachable :: "UnreachableSlave list"
  rg_gone :: "GoneSlave list"
  rg_machines :: "MachineInfo list"
  rg_schedules :: "Schedule list"
  rg_minimum_capabilities :: "string list"
  rg_other :: string

record info_conversion =
  ic_upgrade :: "SlaveInfo \<Rightarrow> SlaveInfo"
  ic_downgrade :: "SlaveInfo \<Rightarrow> SlaveInfo option"
  ic_equal :: "SlaveInfo \<Rightarrow> SlaveInfo \<Rightarrow> bool"

text \<open>The getter of an optional \<open>deactivated\<close>, which defaults to false.\<close>

definition deactivated :: "bool option \<Rightarrow> bool" where
  "deactivated b = (b = Some True)"

subsection \<open>Repeated fields\<close>

fun remove_first :: "('a \<Rightarrow> bool) \<Rightarrow> 'a list \<Rightarrow> 'a list" where
  "remove_first P [] = []"
| "remove_first P (x # xs) = (if P x then xs else x # remove_first P xs)"

fun update_first :: "('a \<Rightarrow> bool) \<Rightarrow> ('a \<Rightarrow> 'a) \<Rightarrow> 'a list \<Rightarrow> 'a list" where
  "update_first P f [] = []"
| "update_first P f (x # xs) = (if P x then f x # xs else x # update_first P f xs)"

text \<open>\<open>DeleteSubrange(start, num)\<close>; a range that is not within the field violates its contract.\<close>

definition delete_subrange :: "nat \<Rightarrow> nat \<Rightarrow> 'a list \<Rightarrow> 'a list outcome" where
  "delete_subrange start num xs = (if start + num \<le> length xs then Ok (take start xs @ drop (start + num) xs) else Abort)"

definition addMinimumCapability :: "string \<Rightarrow> string list \<Rightarrow> string list" where
  "addMinimumCapability c cs = (if c \<in> set cs then cs else cs @ [c])"

definition removeMinimumCapability :: "string \<Rightarrow> string list \<Rightarrow> string list" where
  "removeMinimumCapability c cs = remove_first (\<lambda>x. x = c) cs"

abbreviation AGENT_DRAINING :: string where
  "AGENT_DRAINING \<equiv> ''AGENT_DRAINING''"

subsection \<open>Agents\<close>

text \<open>Each operation gets the registry and the accumulated set of the identifiers of admitted agents.\<close>

type_synonym performed = "bool outcome \<times> Registry \<times> SlaveID set"

abbreviation is_slave :: "SlaveID \<Rightarrow> Slave \<Rightarrow> bool" where
  "is_slave i \<equiv> \<lambda>s. si_id (sv_info s) = i"

abbreviation is_unreachable :: "SlaveID \<Rightarrow> UnreachableSlave \<Rightarrow> bool" where
  "is_unreachable i \<equiv> \<lambda>s. un_id s = i"

definition AdmitSlave_perform :: "info_conversion \<Rightarrow> SlaveInfo \<Rightarrow> Registry \<Rightarrow> SlaveID set \<Rightarrow> performed" where
  "AdmitSlave_perform E info R ids =
     (if si_id info \<in> ids then (Error ''Agent already admitted'', R, ids)
      else
        (case ic_downgrade E info of
           None \<Rightarrow> (Abort, R, ids)
         | Some info \<Rightarrow>
             (Ok True,
              R\<lparr>rg_slaves := rg_slaves R @ [\<lparr>sv_info = info, sv_drain_info = None, sv_deactivated = None\<rparr>]\<rparr>,
              insert (si_id info) ids)))"

definition UpdateSlave_perform :: "info_conversion \<Rightarrow> SlaveInfo \<Rightarrow> Registry \<Rightarrow> SlaveID set \<Rightarrow> performed" where
  "UpdateSlave_perform E info R ids =
     (if si_id info \<notin> ids then (Error ''Agent not yet admitted.'', R, ids)
      else
        (case find (is_slave (si_id info)) (rg_slaves R) of
           None \<Rightarrow> (Error (''Failed to find agent '' @ si_id info), R, ids)
         | Some slave \<Rightarrow>
             if ic_equal E info (ic_upgrade E (sv_info slave)) then (Ok False, R, ids)
             else
               (case ic_downgrade E info of
                  None \<Rightarrow> (Abort, R, ids)
                | Some downgraded \<Rightarrow>
                    (Ok True,
                     R\<lparr>rg_slaves := update_first (is_slave (si_id info)) (\<lambda>s. s\<lparr>sv_info := downgraded\<rparr>) (rg_slaves R)\<rparr>,
                     ids))))"

definition MarkSlaveUnreachable_perform :: "SlaveInfo \<Rightarrow> int \<Rightarrow> Registry \<Rightarrow> SlaveID set \<Rightarrow> performed" where
  "MarkSlaveUnreachable_perform info t R ids =
     (if si_id info \<notin> ids then (Error ''Agent not yet admitted'', R, ids)
      else
        (case find (is_slave (si_id info)) (rg_slaves R) of
           None \<Rightarrow> (Error (''Failed to find agent '' @ si_id info), R, ids)
         | Some slave \<Rightarrow>
             (Ok True,
              R\<lparr>rg_unreachable := rg_unreachable R @
                  [\<lparr>un_id = si_id info, un_timestamp = t, un_drain_info = sv_drain_info slave,
                    un_deactivated = Some (deactivated (sv_deactivated slave))\<rparr>],
                rg_slaves := remove_first (is_slave (si_id info)) (rg_slaves R)\<rparr>,
              ids - {si_id info})))"

definition MarkSlaveReachable_perform :: "info_conversion \<Rightarrow> SlaveInfo \<Rightarrow> Registry \<Rightarrow> SlaveID set \<Rightarrow> performed" where
  "MarkSlaveReachable_perform E info R ids =
     (if si_id info \<in> ids then (Ok False, R, ids)
      else
        (let reachable = \<lparr>sv_info = info, sv_drain_info = None, sv_deactivated = None\<rparr>;
             reachable =
               (case find (is_unreachable (si_id info)) (rg_unreachable R) of
                  None \<Rightarrow> reachable
                | Some slave \<Rightarrow>
                    reachable\<lparr>sv_drain_info := un_drain_info slave,
                              sv_deactivated := Some (deactivated (un_deactivated slave))\<rparr>)
         in
         case ic_downgrade E info of
           None \<Rightarrow> (Abort, R, ids)
         | Some downgraded \<Rightarrow>
             (Ok True,
              R\<lparr>rg_unreachable := remove_first (is_unreachable (si_id info)) (rg_unreachable R),
                rg_slaves := rg_slaves R @ [reachable]\<rparr>,
              insert (si_id downgraded) ids)))"

text \<open>The loop of \<open>Prune\<close> over one list, from index \<open>i\<close>.\<close>

function prune_loop :: "('a \<Rightarrow> bool) \<Rightarrow> nat \<Rightarrow> bool \<Rightarrow> 'a list \<Rightarrow> (bool \<times> 'a list) outcome" where
  "prune_loop P i mutate xs =
     (if i < length xs
      then
        if P (xs ! i)
        then
          (case delete_subrange i (i + 1) xs of
             Ok xs' \<Rightarrow> prune_loop P i True xs'
           | Error e \<Rightarrow> Error e
           | Abort \<Rightarrow> Abort)
        else prune_loop P (i + 1) mutate xs
      else Ok (mutate, xs))"
  by pat_completeness auto
termination
  by (relation "measure (\<lambda>(P, i, m, xs). length xs - i)")
    (auto simp: delete_subrange_def split: if_splits)

declare prune_loop.simps [simp del]

definition Prune_perform :: "SlaveID set \<Rightarrow> SlaveID set \<Rightarrow> Registry \<Rightarrow> SlaveID set \<Rightarrow> performed" where
  "Prune_perform toRemoveUnreachable toRemoveGone R ids =
     (case prune_loop (\<lambda>s. un_id s \<in> toRemoveUnreachable) 0 False (rg_unreachable R) of
        Ok (m1, unreachable) \<Rightarrow>
          (let R = R\<lparr>rg_unreachable := unreachable\<rparr> in
           case prune_loop (\<lambda>s. go_id s \<in> toRemoveGone) 0 m1 (rg_gone R) of
             Ok (m2, gone) \<Rightarrow> (Ok m2, R\<lparr>rg_gone := gone\<rparr>, ids)
           | Error e \<Rightarrow> (Error e, R, ids)
           | Abort \<Rightarrow> (Abort, R, ids))
      | Error e \<Rightarrow> (Error e, R, ids)
      | Abort \<Rightarrow> (Abort, R, ids))"

definition RemoveSlave_perform :: "SlaveInfo \<Rightarrow> Registry \<Rightarrow> SlaveID set \<Rightarrow> performed" where
  "RemoveSlave_perform info R ids =
     (if \<exists>s\<in>set (rg_slaves R). is_slave (si_id info) s
      then (Ok True, R\<lparr>rg_slaves := remove_first (is_slave (si_id info)) (rg_slaves R)\<rparr>, ids - {si_id info})
      else (Error ''Agent not yet admitted'', R, ids))"

definition MarkSlaveGone_perform :: "SlaveID \<Rightarrow> int \<Rightarrow> Registry \<Rightarrow> SlaveID set \<Rightarrow> performed" where
  "MarkSlaveGone_perform i t R ids =
     (if \<exists>s\<in>set (rg_gone R). go_id s = i then (Error (''Agent '' @ i @ '' already marked as gone''), R, ids)
      else
        (let gone = (\<lambda>R. R\<lparr>rg_gone := rg_gone R @ [\<lparr>go_id = i, go_timestamp = t\<rparr>]\<rparr>) in
         if i \<in> ids
         then
           (Ok True, gone (R\<lparr>rg_slaves := remove_first (is_slave i) (rg_slaves R)\<rparr>),
            if \<exists>s\<in>set (rg_slaves R). is_slave i s then ids - {i} else ids)
         else if \<exists>s\<in>set (rg_unreachable R). is_unreachable i s
         then (Ok True, gone (R\<lparr>rg_unreachable := remove_first (is_unreachable i) (rg_unreachable R)\<rparr>), ids)
         else (Error (''Failed to find agent '' @ i), R, ids)))"

subsection \<open>Draining and deactivation\<close>

text \<open>What \<open>DrainAgent\<close> writes into \<open>mutable_drain_info()\<close>.\<close>

definition draining :: "int option \<Rightarrow> bool \<Rightarrow> DrainInfo option \<Rightarrow> DrainInfo option" where
  "draining maxGracePeriod markGone d =
     (let config = (case d of None \<Rightarrow> \<lparr>max_grace_period = None, mark_gone = None\<rparr> | Some d \<Rightarrow> dr_config d);
          config = (case maxGracePeriod of None \<Rightarrow> config | Some g \<Rightarrow> config\<lparr>max_grace_period := Some g\<rparr>)
      in Some \<lparr>dr_state = DRAINING, dr_config = config\<lparr>mark_gone := Some markGone\<rparr>\<rparr>)"

definition DrainAgent_perform :: "SlaveID \<Rightarrow> int option \<Rightarrow> bool \<Rightarrow> Registry \<Rightarrow> SlaveID set \<Rightarrow> performed" where
  "DrainAgent_perform i maxGracePeriod markGone R ids =
     (let capable = (\<lambda>R. R\<lparr>rg_minimum_capabilities := addMinimumCapability AGENT_DRAINING (rg_minimum_capabilities R)\<rparr>) in
      if i \<in> ids
      then
        (Ok True,
         capable (R\<lparr>rg_slaves := update_first (is_slave i)
           (\<lambda>s. s\<lparr>sv_drain_info := draining maxGracePeriod markGone (sv_drain_info s), sv_deactivated := Some True\<rparr>)
           (rg_slaves R)\<rparr>), ids)
      else if \<exists>s\<in>set (rg_unreachable R). is_unreachable i s
      then
        (Ok True,
         capable (R\<lparr>rg_unreachable := update_first (is_unreachable i)
           (\<lambda>s. s\<lparr>un_drain_info := draining maxGracePeriod markGone (un_drain_info s), un_deactivated := Some True\<rparr>)
           (rg_unreachable R)\<rparr>), ids)
      else (Ok False, R, ids))"

definition drained :: "SlaveID \<Rightarrow> DrainInfo option \<Rightarrow> DrainInfo option outcome" where
  "drained i d =
     (case d of
        None \<Rightarrow> Error (''Agent '' @ i @ '' is not DRAINING'')
      | Some d \<Rightarrow> if dr_state d \<noteq> DRAINING then Error (''Agent '' @ i @ '' is not DRAINING'') else Ok (Some (d\<lparr>dr_state := DRAINED\<rparr>)))"

definition MarkAgentDrained_perform :: "SlaveID \<Rightarrow> Registry \<Rightarrow> SlaveID set \<Rightarrow> performed" where
  "MarkAgentDrained_perform i R ids =
     (if i \<in> ids
      then
        (case find (is_slave i) (rg_slaves R) of
           None \<Rightarrow> (Ok True, R, ids)
         | Some s \<Rightarrow>
             (case drained i (sv_drain_info s) of
                Ok d \<Rightarrow> (Ok True, R\<lparr>rg_slaves := update_first (is_slave i) (\<lambda>s. s\<lparr>sv_drain_info := d\<rparr>) (rg_slaves R)\<rparr>, ids)
              | Error e \<Rightarrow> (Error e, R, ids)
              | Abort \<Rightarrow> (Abort, R, ids)))
      else
        (case find (is_unreachable i) (rg_unreachable R) of
           None \<Rightarrow> (Ok False, R, ids)
         | Some s \<Rightarrow>
             (case drained i (un_drain_info s) of
                Ok d \<Rightarrow>
                  (Ok True,
                   R\<lparr>rg_unreachable := update_first (is_unreachable i) (\<lambda>s. s\<lparr>un_drain_info := d\<rparr>) (rg_unreachable R)\<rparr>, ids)
              | Error e \<Rightarrow> (Error e, R, ids)
              | Abort \<Rightarrow> (Abort, R, ids))))"

definition DeactivateAgent_perform :: "SlaveID \<Rightarrow> Registry \<Rightarrow> SlaveID set \<Rightarrow> performed" where
  "DeactivateAgent_perform i R ids =
     (let capable = (\<lambda>R. R\<lparr>rg_minimum_capabilities := addMinimumCapability AGENT_DRAINING (rg_minimum_capabilities R)\<rparr>) in
      if i \<in> ids
      then
        (Ok True,
         capable (R\<lparr>rg_slaves := update_first (is_slave i) (\<lambda>s. s\<lparr>sv_deactivated := Some True\<rparr>) (rg_slaves R)\<rparr>), ids)
      else if \<exists>s\<in>set (rg_unreachable R). is_unreachable i s
      then
        (Ok True,
         capable (R\<lparr>rg_unreachable :=
           update_first (is_unreachable i) (\<lambda>s. s\<lparr>un_deactivated := Some True\<rparr>) (rg_unreachable R)\<rparr>), ids)
      else (Ok False, R, ids))"

text \<open>
  The loops of \<open>ReactivateAgent\<close> over both lists, with \<open>found\<close> and \<open>moreThanOneDeactivated\<close> as they are so
  far; they stop when both are true.
\<close>

fun reactivate_loop :: "('a \<Rightarrow> bool) \<Rightarrow> ('a \<Rightarrow> bool) \<Rightarrow> ('a \<Rightarrow> 'a) \<Rightarrow> bool \<Rightarrow> bool \<Rightarrow> 'a list \<Rightarrow> bool \<times> bool \<times> 'a list" where
  "reactivate_loop this deact clear found several [] = (found, several, [])"
| "reactivate_loop this deact clear found several (x # xs) =
     (if this x
      then
        if several then (True, several, clear x # xs)
        else
          (case reactivate_loop this deact clear True several xs of (f, m, ys) \<Rightarrow> (f, m, clear x # ys))
      else if deact x
      then
        if found then (found, True, x # xs)
        else
          (case reactivate_loop this deact clear found True xs of (f, m, ys) \<Rightarrow> (f, m, x # ys))
      else
        (case reactivate_loop this deact clear found several xs of (f, m, ys) \<Rightarrow> (f, m, x # ys)))"

definition ReactivateAgent_perform :: "SlaveID \<Rightarrow> Registry \<Rightarrow> SlaveID set \<Rightarrow> performed" where
  "ReactivateAgent_perform i R ids =
     (case reactivate_loop (is_slave i) (\<lambda>s. deactivated (sv_deactivated s))
             (\<lambda>s. s\<lparr>sv_drain_info := None, sv_deactivated := None\<rparr>) False False (rg_slaves R) of
        (found, several, slaves) \<Rightarrow>
          (case (if \<not> found \<or> \<not> several
                 then reactivate_loop (is_unreachable i) (\<lambda>s. deactivated (un_deactivated s))
                   (\<lambda>s. s\<lparr>un_drain_info := None, un_deactivated := None\<rparr>) found several (rg_unreachable R)
                 else (found, several, rg_unreachable R)) of
             (found, several, unreachable) \<Rightarrow>
               (Ok found,
                R\<lparr>rg_slaves := slaves, rg_unreachable := unreachable,
                  rg_minimum_capabilities :=
                    (if found \<and> \<not> several then removeMinimumCapability AGENT_DRAINING (rg_minimum_capabilities R)
                     else rg_minimum_capabilities R)\<rparr>, ids)))"

subsection \<open>Machines\<close>

definition schedule_unavailability :: "Schedule \<Rightarrow> MachineID \<rightharpoonup> int \<times> int option" where
  "schedule_unavailability schedule =
     fold (\<lambda>w m. fold (\<lambda>i m. m(i \<mapsto> wi_unavailability w)) (wi_machine_ids w) m) schedule Map.empty"

definition scheduled :: "Schedule list \<Rightarrow> MachineID set" where
  "scheduled schedules = (\<Union>agenda\<in>set schedules. \<Union>w\<in>set agenda. set (wi_machine_ids w))"

definition UpdateSchedule_perform :: "Schedule \<Rightarrow> Registry \<Rightarrow> SlaveID set \<Rightarrow> performed" where
  "UpdateSchedule_perform schedule R ids =
     (let existing = scheduled (rg_schedules R);
          updated = schedule_unavailability schedule;
          kept = map (\<lambda>m. m\<lparr>mi_unavailability := updated (mi_id m)\<rparr>) (filter (\<lambda>m. updated (mi_id m) \<noteq> None) (rg_machines R));
          new = concat (map (\<lambda>w. map (\<lambda>i. \<lparr>mi_id = i, mi_mode = Some MODE_DRAINING, mi_unavailability = Some (wi_unavailability w)\<rparr>)
                  (filter (\<lambda>i. i \<notin> existing) (wi_machine_ids w))) schedule)
      in (Ok True, R\<lparr>rg_machines := kept @ new, rg_schedules := [schedule]\<rparr>, ids))"

definition StartMaintenance_perform :: "MachineID set \<Rightarrow> Registry \<Rightarrow> SlaveID set \<Rightarrow> performed" where
  "StartMaintenance_perform machines R ids =
     (Ok (\<exists>m\<in>set (rg_machines R). mi_id m \<in> machines),
      R\<lparr>rg_machines := map (\<lambda>m. if mi_id m \<in> machines then m\<lparr>mi_mode := Some DOWN\<rparr> else m) (rg_machines R)\<rparr>, ids)"

definition StopMaintenance_perform :: "MachineID set \<Rightarrow> Registry \<Rightarrow> SlaveID set \<Rightarrow> performed" where
  "StopMaintenance_perform machines R ids =
     (let strip = (\<lambda>schedule.
            filter (\<lambda>w. wi_machine_ids w \<noteq> [])
              (map (\<lambda>w. w\<lparr>wi_machine_ids := filter (\<lambda>i. i \<notin> machines) (wi_machine_ids w)\<rparr>) schedule))
      in
      (Ok (\<exists>m\<in>set (rg_machines R). mi_id m \<in> machines),
       R\<lparr>rg_machines := filter (\<lambda>m. mi_id m \<notin> machines) (rg_machines R),
         rg_schedules := filter (\<lambda>schedule. schedule \<noteq> []) (map strip (rg_schedules R))\<rparr>, ids))"

subsection \<open>All operations\<close>

datatype RegistryOperation =
    Recover string
  | AdmitSlave SlaveInfo
  | UpdateSlave SlaveInfo
  | MarkSlaveUnreachable SlaveInfo int
  | MarkSlaveReachable SlaveInfo
  | Prune "SlaveID set" "SlaveID set"
  | RemoveSlave SlaveInfo
  | MarkSlaveGone SlaveID int
  | DrainAgent SlaveID "int option" bool
  | MarkAgentDrained SlaveID
  | DeactivateAgent SlaveID
  | ReactivateAgent SlaveID
  | UpdateSchedule Schedule
  | StartMaintenance "MachineID set"
  | StopMaintenance "MachineID set"

fun perform_operation :: "info_conversion \<Rightarrow> RegistryOperation \<Rightarrow> Registry \<Rightarrow> SlaveID set \<Rightarrow> performed" where
  "perform_operation E (Recover info) R ids = (Ok True, R\<lparr>rg_master := Some info\<rparr>, ids)"
| "perform_operation E (AdmitSlave info) R ids = AdmitSlave_perform E info R ids"
| "perform_operation E (UpdateSlave info) R ids = UpdateSlave_perform E info R ids"
| "perform_operation E (MarkSlaveUnreachable info t) R ids = MarkSlaveUnreachable_perform info t R ids"
| "perform_operation E (MarkSlaveReachable info) R ids = MarkSlaveReachable_perform E info R ids"
| "perform_operation E (Prune u g) R ids = Prune_perform u g R ids"
| "perform_operation E (RemoveSlave info) R ids = RemoveSlave_perform info R ids"
| "perform_operation E (MarkSlaveGone i t) R ids = MarkSlaveGone_perform i t R ids"
| "perform_operation E (DrainAgent i g b) R ids = DrainAgent_perform i g b R ids"
| "perform_operation E (MarkAgentDrained i) R ids = MarkAgentDrained_perform i R ids"
| "perform_operation E (DeactivateAgent i) R ids = DeactivateAgent_perform i R ids"
| "perform_operation E (ReactivateAgent i) R ids = ReactivateAgent_perform i R ids"
| "perform_operation E (UpdateSchedule schedule) R ids = UpdateSchedule_perform schedule R ids"
| "perform_operation E (StartMaintenance machines) R ids = StartMaintenance_perform machines R ids"
| "perform_operation E (StopMaintenance machines) R ids = StopMaintenance_perform machines R ids"

end
