(* ===== verification/Registrar.thy ===== *)
theory Registrar
  imports Registry_Operations State_Storage
begin

section \<open>The registrar\<close>

text \<open>
  The process of \<open>src/master/registrar.cpp\<close> that applies batches of operations to the registry and stores it
  with \<open>State\<close>. A handler gets the registrar and returns the changed one, or \<open>Abort\<close> where a \<open>CHECK\<close> fails.
  The promises of operations that were completed are a list, in the order in which they are completed; the
  storage operation whose continuation is awaited is a field. The serialization of the registry is an argument.
\<close>

subsection \<open>State\<close>

text \<open>An operation with its promise and its \<open>success\<close>; the promise of the operation \<open>Recover\<close> is \<open>None\<close>.\<close>

type_synonym queued = "nat option \<times> RegistryOperation \<times> bool"

datatype 'a future = Pending | Ready 'a | Failed string | Discarded

datatype request = NoRequest | FetchRequest string | StoreRequest Variable Registry "queued list"

record registrar =
  rr_variable :: "Variable option"
  rr_registry :: "Registry option"
  rr_operations :: "queued list"
  rr_updating :: bool
  rr_recovered :: "Registry future option"
  rr_error :: "string option"
  rr_request :: request
  rr_gated :: "(nat \<times> RegistryOperation) list"
  rr_results :: "(nat option \<times> bool outcome) list"

definition registrar_init :: registrar where
  "registrar_init = \<lparr>rr_variable = None, rr_registry = None, rr_operations = [], rr_updating = False, rr_recovered = None,
     rr_error = None, rr_request = NoRequest, rr_gated = [], rr_results = []\<rparr>"

record registry_codec =
  registry_serialize :: "Registry \<Rightarrow> string outcome"
  registry_deserialize :: "string \<Rightarrow> Registry outcome"

subsection \<open>Updates\<close>

definition fail_operations :: "queued list \<Rightarrow> string \<Rightarrow> registrar \<Rightarrow> registrar" where
  "fail_operations ops message r = r\<lparr>rr_results := rr_results r @ map (\<lambda>(k, x, b). (k, Error message)) ops\<rparr>"

definition registrar_abort :: "string \<Rightarrow> registrar \<Rightarrow> registrar" where
  "registrar_abort message r =
     (fail_operations (rr_operations r) message (r\<lparr>rr_error := Some message\<rparr>))\<lparr>rr_operations := []\<rparr>"

definition registry_ids :: "Registry \<Rightarrow> SlaveID set" where
  "registry_ids R = (\<lambda>s. si_id (sv_info s)) ` set (rg_slaves R)"

text \<open>\<open>operator()\<close> of each operation in turn, which keeps whether it was successful.\<close>

fun apply_operations :: "info_conversion \<Rightarrow> queued list \<Rightarrow> Registry \<Rightarrow> SlaveID set \<Rightarrow> (queued list \<times> Registry) option" where
  "apply_operations E [] R ids = Some ([], R)"
| "apply_operations E ((k, x, b) # ops) R ids =
     (case perform_operation E x R ids of
        (Abort, _) \<Rightarrow> None
      | (Error e, R, ids) \<Rightarrow> map_option (\<lambda>(ops, R). ((k, x, False) # ops, R)) (apply_operations E ops R ids)
      | (Ok m, R, ids) \<Rightarrow> map_option (\<lambda>(ops, R). ((k, x, True) # ops, R)) (apply_operations E ops R ids))"

definition update_registry :: "info_conversion \<Rightarrow> registry_codec \<Rightarrow> registrar \<Rightarrow> registrar outcome" where
  "update_registry E C r =
     (if rr_operations r = [] then Ok r
      else
        (case (rr_updating r, rr_error r, rr_variable r, rr_registry r) of
           (False, None, Some v, Some R) \<Rightarrow>
             (case apply_operations E (rr_operations r) R (registry_ids R) of
                None \<Rightarrow> Abort
              | Some (ops, R) \<Rightarrow>
                  (case registry_serialize C R of
                     Abort \<Rightarrow> Abort
                   | Error e \<Rightarrow>
                       (let message = ''Failed to update registry: '' @ e in
                        Ok (registrar_abort message
                              (fail_operations ops message (r\<lparr>rr_updating := True, rr_operations := []\<rparr>))))
                   | Ok x \<Rightarrow> Ok (r\<lparr>rr_updating := True, rr_request := StoreRequest (mutate x v) R ops, rr_operations := []\<rparr>)))
         | _ \<Rightarrow> Abort))"

definition updated_registry ::
  "info_conversion \<Rightarrow> registry_codec \<Rightarrow> Variable option future \<Rightarrow> Registry \<Rightarrow> queued list \<Rightarrow> registrar \<Rightarrow> registrar outcome" where
  "updated_registry E C store R applied r =
     (let r = r\<lparr>rr_updating := False, rr_request := NoRequest\<rparr>;
          failed = (\<lambda>e. let message = ''Failed to update registry: '' @ e in
            Ok (registrar_abort message (fail_operations applied message r)))
      in
      case store of
        Ready (Some v) \<Rightarrow>
          update_registry E C
            (r\<lparr>rr_variable := Some v, rr_registry := Some R,
               rr_results := rr_results r @ map (\<lambda>(k, x, b). (k, Ok b)) applied\<rparr>)
      | Failed e \<Rightarrow> failed e
      | Discarded \<Rightarrow> failed ''discarded''
      | _ \<Rightarrow> failed ''version mismatch'')"

subsection \<open>Recovery\<close>

definition registrar_recover :: "string \<Rightarrow> registrar \<Rightarrow> registrar" where
  "registrar_recover info r =
     (if rr_recovered r = None
      then r\<lparr>rr_request := FetchRequest info, rr_updating := True, rr_recovered := Some Pending\<rparr>
      else r)"

text \<open>\<open>recovered.get()->fail(\<dots>)\<close>, which fails the operations that wait for it.\<close>

definition recovery_failed :: "string \<Rightarrow> registrar \<Rightarrow> registrar" where
  "recovery_failed e r =
     (let message = ''Failed to recover registrar: '' @ e in
      r\<lparr>rr_recovered := Some (Failed message), rr_gated := [],
        rr_results := rr_results r @ map (\<lambda>(k, x). (Some k, Error message)) (rr_gated r)\<rparr>)"

definition registrar_fetched ::
  "info_conversion \<Rightarrow> registry_codec \<Rightarrow> string \<Rightarrow> Variable future \<Rightarrow> registrar \<Rightarrow> registrar outcome" where
  "registrar_fetched E C info recovery r =
     (let r = r\<lparr>rr_updating := False, rr_request := NoRequest\<rparr> in
      case recovery of
        Pending \<Rightarrow> Abort
      | Failed e \<Rightarrow> Ok (recovery_failed e r)
      | Discarded \<Rightarrow> Ok (recovery_failed ''discarded'' r)
      | Ready v \<Rightarrow>
          (case registry_deserialize C (variable_value v) of
             Abort \<Rightarrow> Abort
           | Error e \<Rightarrow> Ok (recovery_failed e r)
           | Ok R \<Rightarrow>
               update_registry E C
                 (r\<lparr>rr_variable := Some v, rr_registry := Some R,
                    rr_operations := rr_operations r @ [(None, Recover info, False)]\<rparr>)))"

definition registrar_recovered :: "bool outcome \<Rightarrow> registrar \<Rightarrow> registrar outcome" where
  "registrar_recovered recover r =
     (case recover of
        Abort \<Rightarrow> Abort
      | Error e \<Rightarrow> Ok (recovery_failed (''Failed to persist MasterInfo: '' @ e) r)
      | Ok False \<Rightarrow> Ok (recovery_failed ''Failed to persist MasterInfo: version mismatch'' r)
      | Ok True \<Rightarrow>
          (case (rr_variable r, rr_registry r) of
             (Some v, Some R) \<Rightarrow> Ok (r\<lparr>rr_recovered := Some (Ready R)\<rparr>)
           | _ \<Rightarrow> Abort))"

subsection \<open>Operations\<close>

text \<open>
  \<open>apply\<close> hands the operation to \<open>_apply\<close> once the recovery is complete; a failed recovery fails it.
\<close>

definition registrar_apply :: "nat \<Rightarrow> RegistryOperation \<Rightarrow> registrar \<Rightarrow> registrar" where
  "registrar_apply k x r =
     (case rr_recovered r of
        None \<Rightarrow> r\<lparr>rr_results := rr_results r @ [(Some k, Error ''Attempted to apply the operation before recovering'')]\<rparr>
      | Some (Failed e) \<Rightarrow> r\<lparr>rr_results := rr_results r @ [(Some k, Error e)]\<rparr>
      | Some _ \<Rightarrow> r\<lparr>rr_gated := rr_gated r @ [(k, x)]\<rparr>)"

definition registrar_enqueue ::
  "info_conversion \<Rightarrow> registry_codec \<Rightarrow> nat \<Rightarrow> RegistryOperation \<Rightarrow> registrar \<Rightarrow> registrar outcome" where
  "registrar_enqueue E C k x r =
     (case rr_error r of
        Some e \<Rightarrow> Ok (r\<lparr>rr_results := rr_results r @ [(Some k, Error e)]\<rparr>)
      | None \<Rightarrow>
          if rr_variable r = None then Abort
          else
            (let r = r\<lparr>rr_operations := rr_operations r @ [(Some k, x, False)]\<rparr> in
             if rr_updating r then Ok r else update_registry E C r))"

end
