(* ===== verification/Registry_Invariant.thy ===== *)
theory Registry_Invariant
  imports Registry_Operations "HOL-Library.Sublist"
begin

section \<open>Invariants of the registry\<close>

text \<open>
  What every operation on the registry keeps: an agent is in one list only and once, the accumulated set is
  that of the admitted agents, deactivated agents require a capability of the master, and the machines are
  those of the schedule.
\<close>

subsection \<open>Lists\<close>

lemma remove_first_subseq: "subseq (remove_first P xs) xs"
  by (induction xs) auto

lemma remove_first_absent: "\<forall>x\<in>set xs. \<not> P x \<Longrightarrow> remove_first P xs = xs"
  by (induction xs) auto

lemma remove_first_map:
  assumes "distinct (map f xs)"
  shows "distinct (map f (remove_first (\<lambda>x. f x = a) xs))" "f ` set (remove_first (\<lambda>x. f x = a) xs) = f ` set xs - {a}"
  using assms
proof (induction xs)
  case (Cons x xs)
  { case 1
    then show ?case
      using Cons.IH(2) Cons.IH(1) by auto
  next
    case 2
    then show ?case
      using Cons.IH(2) by (auto simp: image_iff)
  }
qed simp_all

lemma update_first_map: "\<forall>x. P x \<longrightarrow> g (f x) = g x \<Longrightarrow> map g (update_first P f xs) = map g xs"
  by (induction xs) auto

lemma update_first_elem: "x \<in> set (update_first P f xs) \<Longrightarrow> x \<in> set xs \<or> (\<exists>y\<in>set xs. P y \<and> x = f y)"
  by (induction xs) (auto split: if_splits)

lemma update_first_find:
  "x \<in> set (update_first P f xs) \<Longrightarrow> find P xs = Some y \<Longrightarrow> x \<in> set xs \<or> y \<in> set xs \<and> x = f y"
  by (induction xs) (auto split: if_splits)

lemma find_elem: "find P xs = Some x \<Longrightarrow> x \<in> set xs \<and> P x"
  by (induction xs) (auto split: if_splits)

lemma find_none: "find P xs = None \<longleftrightarrow> (\<forall>x\<in>set xs. \<not> P x)"
  by (induction xs) auto

lemma subseq_distinct_map: "subseq ys xs \<Longrightarrow> distinct (map f xs) \<Longrightarrow> distinct (map f ys)"
  by (induction rule: list_emb.induct) (auto dest: list_emb_set)

lemma subseq_set: "subseq ys xs \<Longrightarrow> set ys \<subseteq> set xs"
  by (auto dest: list_emb_set)

lemma delete_subrange_subseq: "delete_subrange i n xs = Ok ys \<Longrightarrow> subseq ys xs"
proof -
  assume "delete_subrange i n xs = Ok ys"
  then have "ys = take i xs @ drop (i + n) xs"
    by (auto simp: delete_subrange_def split: if_splits)
  moreover have "subseq (drop n (drop i xs)) (drop i xs)"
    by (rule suffix_imp_subseq [OF suffix_drop])
  then have "subseq (take i xs @ drop n (drop i xs)) (take i xs @ drop i xs)"
    by (intro list_emb_append_mono) simp_all
  then have "subseq (take i xs @ drop (i + n) xs) xs"
    by (simp add: add.commute)
  ultimately show ?thesis
    by simp
qed

lemma prune_loop_subseq: "prune_loop P i m xs = Ok (m', ys) \<Longrightarrow> subseq ys xs"
proof (induction P i m xs rule: prune_loop.induct)
  case (1 P i m xs)
  then show ?case
    using delete_subrange_subseq [of i "i + 1" xs] subseq_order.trans
    by (subst (asm) (2) prune_loop.simps) (auto split: if_splits outcome.splits)
qed

subsection \<open>The loop of ReactivateAgent\<close>

lemma reactivate_loop_elem:
  "reactivate_loop this deact clear f m xs = (f', m', ys) \<Longrightarrow> y \<in> set ys \<Longrightarrow> y \<in> set xs \<or> (\<exists>x\<in>set xs. this x \<and> y = clear x)"
  by (induction xs arbitrary: f m f' m' ys) (fastforce split: if_splits prod.splits)+

lemma reactivate_loop_map:
  "\<forall>x. g (clear x) = g x \<Longrightarrow> reactivate_loop this deact clear f m xs = (f', m', ys) \<Longrightarrow> map g ys = map g xs"
  by (induction xs arbitrary: f m f' m' ys) (auto split: if_splits prod.splits)

lemma reactivate_loop_none:
  "\<forall>x. \<not> deact (clear x) \<Longrightarrow> reactivate_loop this deact clear f m xs = (f', False, ys) \<Longrightarrow> \<not> m \<and> (\<forall>y\<in>set ys. \<not> deact y)"
  by (induction xs arbitrary: f m f' ys) (auto split: if_splits prod.splits)

abbreviation reactivate_slaves :: "SlaveID \<Rightarrow> Slave list \<Rightarrow> bool \<times> bool \<times> Slave list" where
  "reactivate_slaves i \<equiv> reactivate_loop (is_slave i) (\<lambda>s. deactivated (sv_deactivated s))
     (\<lambda>s. s\<lparr>sv_drain_info := None, sv_deactivated := None\<rparr>) False False"

abbreviation reactivate_unreachable ::
    "SlaveID \<Rightarrow> bool \<Rightarrow> bool \<Rightarrow> UnreachableSlave list \<Rightarrow> bool \<times> bool \<times> UnreachableSlave list" where
  "reactivate_unreachable i \<equiv> reactivate_loop (is_unreachable i) (\<lambda>s. deactivated (un_deactivated s))
     (\<lambda>s. s\<lparr>un_drain_info := None, un_deactivated := None\<rparr>)"

lemma ReactivateAgent_cases:
  assumes "ReactivateAgent_perform i R ids = (r, R', ids')"
  obtains f m ss f' m' us where "reactivate_slaves i (rg_slaves R) = (f, m, ss)"
    "f \<and> m \<and> f' = f \<and> m' = m \<and> us = rg_unreachable R \<or> reactivate_unreachable i f m (rg_unreachable R) = (f', m', us)"
    "r = Ok f'" "ids' = ids"
    "R' = R\<lparr>rg_slaves := ss, rg_unreachable := us, rg_minimum_capabilities :=
       (if f' \<and> \<not> m' then removeMinimumCapability AGENT_DRAINING (rg_minimum_capabilities R) else rg_minimum_capabilities R)\<rparr>"
proof -
  obtain f m ss where 1: "reactivate_slaves i (rg_slaves R) = (f, m, ss)"
    by (metis prod_cases3)
  obtain f' m' us where 2: "(if \<not> f \<or> \<not> m then reactivate_unreachable i f m (rg_unreachable R) else (f, m, rg_unreachable R)) = (f', m', us)"
    by (metis prod_cases3)
  show thesis
  proof (rule that [OF 1])
    show "f \<and> m \<and> f' = f \<and> m' = m \<and> us = rg_unreachable R \<or> reactivate_unreachable i f m (rg_unreachable R) = (f', m', us)"
      using 2 by (auto split: if_splits)
  qed (use assms in \<open>simp_all only: ReactivateAgent_perform_def 1 2 prod.case prod.inject\<close>)
qed

subsection \<open>Agents\<close>

abbreviation admitted :: "Registry \<Rightarrow> SlaveID list" where
  "admitted R \<equiv> map (\<lambda>s. si_id (sv_info s)) (rg_slaves R)"

abbreviation unreachable :: "Registry \<Rightarrow> SlaveID list" where
  "unreachable R \<equiv> map un_id (rg_unreachable R)"

abbreviation gone :: "Registry \<Rightarrow> SlaveID list" where
  "gone R \<equiv> map go_id (rg_gone R)"

definition agents_ok :: "Registry \<Rightarrow> SlaveID set \<Rightarrow> bool" where
  "agents_ok R ids \<longleftrightarrow>
     ids = set (admitted R) \<and> distinct (admitted R) \<and> distinct (unreachable R) \<and> distinct (gone R) \<and>
     set (admitted R) \<inter> set (unreachable R) = {} \<and> set (admitted R) \<inter> set (gone R) = {} \<and>
     set (unreachable R) \<inter> set (gone R) = {}"

definition drain_ok :: "Registry \<Rightarrow> bool" where
  "drain_ok R \<longleftrightarrow>
     (\<forall>s\<in>set (rg_slaves R). (sv_drain_info s \<noteq> None \<longrightarrow> deactivated (sv_deactivated s)) \<and>
        (deactivated (sv_deactivated s) \<longrightarrow> AGENT_DRAINING \<in> set (rg_minimum_capabilities R))) \<and>
     (\<forall>s\<in>set (rg_unreachable R). (un_drain_info s \<noteq> None \<longrightarrow> deactivated (un_deactivated s)) \<and>
        (deactivated (un_deactivated s) \<longrightarrow> AGENT_DRAINING \<in> set (rg_minimum_capabilities R)))"

definition machines_ok :: "Registry \<Rightarrow> bool" where
  "machines_ok R \<longleftrightarrow> distinct (map mi_id (rg_machines R)) \<and> mi_id ` set (rg_machines R) = scheduled (rg_schedules R)"

text \<open>
  What the master sees to: identifiers of new agents are fresh, agents that are gone do not come back, and a
  schedule names no machine twice, which its validation checks.
\<close>

fun proper_operation :: "Registry \<Rightarrow> RegistryOperation \<Rightarrow> bool" where
  "proper_operation R (AdmitSlave info) \<longleftrightarrow> si_id info \<notin> set (unreachable R) \<union> set (gone R)"
| "proper_operation R (MarkSlaveReachable info) \<longleftrightarrow> si_id info \<notin> set (gone R)"
| "proper_operation R (UpdateSchedule schedule) \<longleftrightarrow> distinct (concat (map wi_machine_ids schedule))"
| "proper_operation R _ \<longleftrightarrow> True"

text \<open>The conversions of resources do not change the identifier of an agent.\<close>

definition conversion_ok :: "info_conversion \<Rightarrow> bool" where
  "conversion_ok E \<longleftrightarrow> (\<forall>i j. ic_downgrade E i = Some j \<longrightarrow> si_id j = si_id i)"

lemma agents_okD:
  assumes "agents_ok R ids"
  shows "ids = set (admitted R)" "distinct (admitted R)" "distinct (unreachable R)" "distinct (gone R)"
    "set (admitted R) \<inter> set (unreachable R) = {}" "set (admitted R) \<inter> set (gone R) = {}" "set (unreachable R) \<inter> set (gone R) = {}"
  using assms unfolding agents_ok_def by blast+

lemma agents_ok_lists:
  assumes "admitted R' = admitted R" "unreachable R' = unreachable R" "gone R' = gone R"
  shows "agents_ok R' ids = agents_ok R ids"
  unfolding agents_ok_def assms ..

lemma agents_admit:
  assumes "agents_ok R ids" "admitted R' = admitted R @ [i]" "set (unreachable R') = set (unreachable R) - {i}"
    "distinct (unreachable R')" "gone R' = gone R" "i \<notin> set (gone R)" "i \<notin> ids"
  shows "agents_ok R' (insert i ids)"
  using agents_okD [OF assms(1)] assms(2-) unfolding agents_ok_def by auto

lemma agents_remove:
  assumes R: "agents_ok R ids" and s: "rg_slaves R' = remove_first (is_slave i) (rg_slaves R)"
    and u: "unreachable R' = unreachable R" "gone R' = gone R"
  shows "agents_ok R' (ids - {i})" "i \<notin> set (admitted R')"
  using agents_okD [OF R] remove_first_map [OF agents_okD(2) [OF R], of i] u unfolding agents_ok_def s by auto

lemma agents_forget:
  assumes R: "agents_ok R ids" and s: "admitted R' = admitted R" "subseq (rg_unreachable R') (rg_unreachable R)"
    "subseq (rg_gone R') (rg_gone R)"
  shows "agents_ok R' ids"
proof -
  have "distinct (unreachable R')" "distinct (gone R')"
    using subseq_distinct_map s(2,3) agents_okD(3,4) [OF R] by blast+
  moreover have "set (unreachable R') \<subseteq> set (unreachable R)" "set (gone R') \<subseteq> set (gone R)"
    using subseq_set [OF s(2)] subseq_set [OF s(3)] by auto
  ultimately show ?thesis
    using agents_okD [OF R] unfolding agents_ok_def s(1) by blast
qed

lemma agents_unreachable:
  assumes "agents_ok R ids" "unreachable R' = unreachable R @ [i]" "admitted R' = admitted R" "gone R' = gone R"
    "i \<notin> set (unreachable R)" "i \<notin> set (gone R)" "i \<notin> ids"
  shows "agents_ok R' ids"
  using agents_okD [OF assms(1)] assms(2-) unfolding agents_ok_def by auto

lemma agents_gone:
  assumes "agents_ok R ids" "gone R' = gone R @ [i]" "admitted R' = admitted R" "unreachable R' = unreachable R"
    "i \<notin> set (unreachable R)" "i \<notin> set (gone R)" "i \<notin> ids"
  shows "agents_ok R' ids"
  using agents_okD [OF assms(1)] assms(2-) unfolding agents_ok_def by auto

lemma agents_AdmitSlave:
  assumes E: "conversion_ok E" and R: "agents_ok R ids" and i: "si_id info \<notin> set (unreachable R) \<union> set (gone R)"
    and p: "AdmitSlave_perform E info R ids = (r, R', ids')" "r \<noteq> Abort"
  shows "agents_ok R' ids'"
proof (cases "si_id info \<in> ids")
  case True
  then show ?thesis
    using p R by (auto simp: AdmitSlave_perform_def)
next
  case False
  then obtain j where j: "ic_downgrade E info = Some j"
    using p by (cases "ic_downgrade E info") (auto simp: AdmitSlave_perform_def)
  then have id: "si_id j = si_id info"
    using E by (auto simp: conversion_ok_def)
  have "R' = R\<lparr>rg_slaves := rg_slaves R @ [\<lparr>sv_info = j, sv_drain_info = None, sv_deactivated = None\<rparr>]\<rparr>" "ids' = insert (si_id info) ids"
    using p j False id by (simp_all add: AdmitSlave_perform_def)
  then show ?thesis
    using agents_admit [OF R, of R' "si_id info"] i False id agents_okD(3) [OF R] by simp
qed

lemma agents_MarkSlaveReachable:
  assumes E: "conversion_ok E" and R: "agents_ok R ids" and i: "si_id info \<notin> set (gone R)"
    and p: "MarkSlaveReachable_perform E info R ids = (r, R', ids')" "r \<noteq> Abort"
  shows "agents_ok R' ids'"
proof (cases "si_id info \<in> ids")
  case True
  then show ?thesis
    using p R by (auto simp: MarkSlaveReachable_perform_def)
next
  case False
  then obtain j where j: "ic_downgrade E info = Some j"
    using p by (cases "ic_downgrade E info") (auto simp: MarkSlaveReachable_perform_def Let_def)
  then have id: "si_id j = si_id info"
    using E by (auto simp: conversion_ok_def)
  have "admitted R' = admitted R @ [si_id info]" "gone R' = gone R" "ids' = insert (si_id info) ids"
    "rg_unreachable R' = remove_first (is_unreachable (si_id info)) (rg_unreachable R)"
    using p j False id by (auto simp: MarkSlaveReachable_perform_def Let_def split: option.splits)
  then show ?thesis
    using agents_admit [OF R, of R' "si_id info"] i False remove_first_map [OF agents_okD(3) [OF R], of "si_id info"] by simp
qed

lemma agents_MarkSlaveUnreachable:
  assumes R: "agents_ok R ids" and p: "MarkSlaveUnreachable_perform info t R ids = (r, R', ids')"
  shows "agents_ok R' ids'"
proof (cases "r = Ok True")
  case True
  let ?i = "si_id info"
  let ?R = "R\<lparr>rg_slaves := remove_first (is_slave ?i) (rg_slaves R)\<rparr>"
  have R': "unreachable R' = unreachable ?R @ [?i]" "admitted R' = admitted ?R" "gone R' = gone ?R" "ids' = ids - {?i}" "?i \<in> ids"
    using p True by (auto simp: MarkSlaveUnreachable_perform_def split: if_splits option.splits)
  have "agents_ok ?R (ids - {?i})"
    by (rule agents_remove(1) [OF R]) simp_all
  then have "agents_ok R' (ids - {?i})"
    by (rule agents_unreachable [OF _ R'(1-3)]) (use agents_okD [OF R] R'(5) in auto)
  then show ?thesis
    using R'(4) by simp
next
  case False
  then show ?thesis
    using p R by (auto simp: MarkSlaveUnreachable_perform_def split: if_splits option.splits)
qed

lemma agents_MarkSlaveGone:
  assumes R: "agents_ok R ids" and p: "MarkSlaveGone_perform i t R ids = (r, R', ids')"
  shows "agents_ok R' ids'"
proof (cases "i \<notin> set (gone R) \<and> i \<in> set (admitted R) \<union> set (unreachable R)")
  case False
  then have "R' = R" "ids' = ids"
    using p agents_okD(1) [OF R] by (auto simp: MarkSlaveGone_perform_def split: if_splits)
  then show ?thesis
    using R by simp
next
  case i: True
  show ?thesis
  proof (cases "i \<in> ids")
    case True
    let ?R = "R\<lparr>rg_slaves := remove_first (is_slave i) (rg_slaves R)\<rparr>"
    have ex: "\<exists>s\<in>set (rg_slaves R). is_slave i s" "\<not> (\<exists>s\<in>set (rg_gone R). go_id s = i)"
      using True i agents_okD(1) [OF R] by (auto simp: image_iff)
    have R': "R' = ?R\<lparr>rg_gone := rg_gone ?R @ [\<lparr>go_id = i, go_timestamp = t\<rparr>]\<rparr>" "ids' = ids - {i}"
      using p True ex by (simp_all add: MarkSlaveGone_perform_def Let_def)
    have "agents_ok ?R (ids - {i})"
      by (rule agents_remove(1) [OF R]) simp_all
    then show ?thesis
      unfolding R'(2) by (rule agents_gone [where i = i]) (use R'(1) i True agents_okD [OF R] in auto)
  next
    case False
    let ?R = "R\<lparr>rg_unreachable := remove_first (is_unreachable i) (rg_unreachable R)\<rparr>"
    have ex: "\<exists>s\<in>set (rg_unreachable R). is_unreachable i s" "\<not> (\<exists>s\<in>set (rg_gone R). go_id s = i)"
      using False i agents_okD(1) [OF R] by (auto simp: image_iff)
    have R': "R' = ?R\<lparr>rg_gone := rg_gone ?R @ [\<lparr>go_id = i, go_timestamp = t\<rparr>]\<rparr>" "ids' = ids"
      using p False ex by (simp_all add: MarkSlaveGone_perform_def Let_def)
    have "agents_ok ?R ids"
      by (rule agents_forget [OF R]) (simp_all add: remove_first_subseq)
    then show ?thesis
      unfolding R'(2) by (rule agents_gone [where i = i])
        (use R'(1) i False remove_first_map(2) [OF agents_okD(3) [OF R], of i] in auto)
  qed
qed

lemma agents_Prune:
  assumes R: "agents_ok R ids" and p: "Prune_perform u g R ids = (r, R', ids')" "r \<noteq> Abort"
  shows "agents_ok R' ids'"
proof -
  have "admitted R' = admitted R" "ids' = ids"
    "subseq (rg_unreachable R') (rg_unreachable R)" "subseq (rg_gone R') (rg_gone R)"
    using p by (auto simp: Prune_perform_def Let_def dest: prune_loop_subseq split: outcome.splits prod.splits)
  then show ?thesis
    using agents_forget [OF R] by simp
qed

lemma agents_Drain_Deactivate:
  assumes R: "agents_ok R ids"
    and p: "DrainAgent_perform i g b R ids = (r, R', ids') \<or> DeactivateAgent_perform i R ids = (r, R', ids')"
  shows "agents_ok R' ids'"
proof -
  have "admitted R' = admitted R" "unreachable R' = unreachable R" "gone R' = gone R" "ids' = ids"
    using p by (auto simp: DrainAgent_perform_def DeactivateAgent_perform_def Let_def update_first_map split: if_splits)
  then show ?thesis
    using R agents_ok_lists [of R' R ids] by simp
qed

lemma agents_MarkAgentDrained:
  assumes R: "agents_ok R ids" and p: "MarkAgentDrained_perform i R ids = (r, R', ids')"
  shows "agents_ok R' ids'"
proof -
  have "admitted R' = admitted R" "unreachable R' = unreachable R" "gone R' = gone R" "ids' = ids"
    using p by (auto simp: MarkAgentDrained_perform_def update_first_map split: if_splits option.splits outcome.splits)
  then show ?thesis
    using R agents_ok_lists [of R' R ids] by simp
qed

lemma agents_perform:
  assumes E: "conversion_ok E" and R: "agents_ok R ids" and o: "proper_operation R x"
    and p: "perform_operation E x R ids = (r, R', ids')" "r \<noteq> Abort"
  shows "agents_ok R' ids'"
proof (cases x)
  case (RemoveSlave info)
  then show ?thesis
    using p R agents_remove(1) [OF R, of R' "si_id info"] by (auto simp: RemoveSlave_perform_def split: if_splits)
next
  case (ReactivateAgent i)
  then have "ReactivateAgent_perform i R ids = (r, R', ids')"
    using p by simp
  then have "admitted R' = admitted R \<and> unreachable R' = unreachable R \<and> gone R' = gone R \<and> ids' = ids"
  proof (rule ReactivateAgent_cases)
    fix f m ss f' m' us
    assume 1: "reactivate_slaves i (rg_slaves R) = (f, m, ss)"
      and 2: "f \<and> m \<and> f' = f \<and> m' = m \<and> us = rg_unreachable R \<or> reactivate_unreachable i f m (rg_unreachable R) = (f', m', us)"
      and R': "ids' = ids" "R' = R\<lparr>rg_slaves := ss, rg_unreachable := us, rg_minimum_capabilities :=
       (if f' \<and> \<not> m' then removeMinimumCapability AGENT_DRAINING (rg_minimum_capabilities R) else rg_minimum_capabilities R)\<rparr>"
    have "map (\<lambda>s. si_id (sv_info s)) ss = admitted R"
      by (rule reactivate_loop_map [OF _ 1]) simp
    moreover have "map un_id us = unreachable R"
      using 2
    proof
      assume "reactivate_unreachable i f m (rg_unreachable R) = (f', m', us)"
      then show ?thesis
        by (rule reactivate_loop_map [rotated]) simp
    qed simp
    ultimately show ?thesis
      using R' by simp
  qed
  then show ?thesis
    using R agents_ok_lists by blast
next
  case (UpdateSlave info)
  have "admitted R' = admitted R" "unreachable R' = unreachable R" "gone R' = gone R" "ids' = ids"
    using p E UpdateSlave
    by (auto simp: UpdateSlave_perform_def conversion_ok_def split: option.splits if_splits intro!: update_first_map)
  then show ?thesis
    using R agents_ok_lists [of R' R ids] by simp
next
  case (AdmitSlave info)
  then show ?thesis
    using p o agents_AdmitSlave [OF E R] by simp
next
  case (MarkSlaveReachable info)
  then show ?thesis
    using p o agents_MarkSlaveReachable [OF E R] by simp
next
  case (MarkSlaveUnreachable info t)
  then show ?thesis
    using p agents_MarkSlaveUnreachable [OF R] by simp
next
  case (MarkSlaveGone i t)
  then show ?thesis
    using p agents_MarkSlaveGone [OF R] by simp
next
  case (Prune u g)
  then show ?thesis
    using p agents_Prune [OF R] by simp
next
  case (MarkAgentDrained i)
  then show ?thesis
    using p agents_MarkAgentDrained [OF R] by simp
next
  case (DrainAgent i g b)
  then show ?thesis
    using p agents_Drain_Deactivate [OF R, of i g b r R' ids'] by simp
next
  case (DeactivateAgent i)
  then show ?thesis
    using p agents_Drain_Deactivate [OF R, of i None False r R' ids'] by simp
next
  case (UpdateSchedule schedule)
  then show ?thesis
    using p R agents_ok_lists [of R' R ids] by (auto simp: UpdateSchedule_perform_def Let_def)
next
  case (StartMaintenance ms)
  then show ?thesis
    using p R agents_ok_lists [of R' R ids] by (auto simp: StartMaintenance_perform_def)
next
  case (StopMaintenance ms)
  then show ?thesis
    using p R agents_ok_lists [of R' R ids] by (auto simp: StopMaintenance_perform_def Let_def)
next
  case (Recover info)
  then show ?thesis
    using p R agents_ok_lists [of R' R ids] by auto
qed

end
