(* ===== verification/Registry_Draining.thy ===== *)
theory Registry_Draining
  imports Registry_Invariant
begin

section \<open>Deactivated agents of the registry\<close>

text \<open>
  Every operation keeps that agents with a drain configuration are deactivated, and that the registry requires
  the capability to drain agents of the masters that read it as long as an agent is deactivated.
\<close>

lemma drain_weaken:
  assumes "drain_ok R" "set (rg_slaves R') \<subseteq> set (rg_slaves R)" "set (rg_unreachable R') \<subseteq> set (rg_unreachable R)"
    "set (rg_minimum_capabilities R) \<subseteq> set (rg_minimum_capabilities R')"
  shows "drain_ok R'"
  using assms unfolding drain_ok_def by blast

lemma addMinimumCapability_set: "set (addMinimumCapability c cs) = insert c (set cs)"
  by (auto simp: addMinimumCapability_def)

lemma remove_first_set: "set (remove_first P xs) \<subseteq> set xs"
  by (rule subseq_set [OF remove_first_subseq])

lemma drain_admission:
  assumes R: "drain_ok R" and x: "x = AdmitSlave info \<or> x = UpdateSlave info"
    and p: "perform_operation E x R ids = (r, R', ids')"
  shows "drain_ok R'"
  using p x R
  by (auto simp: AdmitSlave_perform_def UpdateSlave_perform_def drain_ok_def deactivated_def
      split: if_splits option.splits dest!: update_first_elem)

lemma drain_MarkSlaveUnreachable:
  assumes R: "drain_ok R" and p: "MarkSlaveUnreachable_perform info t R ids = (r, R', ids')"
  shows "drain_ok R'"
  using p R remove_first_set [of "is_slave (si_id info)" "rg_slaves R"]
  by (auto simp: MarkSlaveUnreachable_perform_def drain_ok_def deactivated_def dest!: find_elem split: if_splits option.splits)

lemma drain_MarkSlaveReachable:
  assumes R: "drain_ok R" and p: "MarkSlaveReachable_perform E info R ids = (r, R', ids')"
  shows "drain_ok R'"
  using p R remove_first_set [of "is_unreachable (si_id info)" "rg_unreachable R"]
  by (auto simp: MarkSlaveReachable_perform_def Let_def drain_ok_def deactivated_def dest!: find_elem split: if_splits option.splits)

lemma drain_RemoveSlave:
  assumes R: "drain_ok R" and p: "RemoveSlave_perform info R ids = (r, R', ids')"
  shows "drain_ok R'"
proof (rule drain_weaken [OF R])
  show "set (rg_slaves R') \<subseteq> set (rg_slaves R)"
    using p remove_first_set [of "is_slave (si_id info)" "rg_slaves R"]
    by (simp add: RemoveSlave_perform_def split: if_splits) auto
qed (use p in \<open>auto simp: RemoveSlave_perform_def split: if_splits\<close>)

lemma drain_MarkSlaveGone:
  assumes R: "drain_ok R" and p: "MarkSlaveGone_perform i t R ids = (r, R', ids')"
  shows "drain_ok R'"
proof (rule drain_weaken [OF R])
  have "rg_slaves R' = rg_slaves R \<or> rg_slaves R' = remove_first (is_slave i) (rg_slaves R)"
    and "rg_unreachable R' = rg_unreachable R \<or> rg_unreachable R' = remove_first (is_unreachable i) (rg_unreachable R)"
    and "rg_minimum_capabilities R' = rg_minimum_capabilities R"
    using p by (auto simp: MarkSlaveGone_perform_def Let_def split: if_splits)
  then show "set (rg_slaves R') \<subseteq> set (rg_slaves R)" "set (rg_unreachable R') \<subseteq> set (rg_unreachable R)"
    "set (rg_minimum_capabilities R) \<subseteq> set (rg_minimum_capabilities R')"
    using remove_first_set [of "is_slave i" "rg_slaves R"] remove_first_set [of "is_unreachable i" "rg_unreachable R"] by auto
qed

lemma drain_Prune:
  assumes R: "drain_ok R" and p: "Prune_perform u g R ids = (r, R', ids')"
  shows "drain_ok R'"
  using p
  by (intro drain_weaken [OF R])
    (auto simp: Prune_perform_def Let_def dest!: prune_loop_subseq subseq_set split: outcome.splits prod.splits)

lemma drain_Drain_Deactivate:
  assumes R: "drain_ok R"
    and p: "DrainAgent_perform i g b R ids = (r, R', ids') \<or> DeactivateAgent_perform i R ids = (r, R', ids')"
  shows "drain_ok R'"
  using p R
  by (auto simp: DrainAgent_perform_def DeactivateAgent_perform_def Let_def drain_ok_def deactivated_def
      addMinimumCapability_set dest!: update_first_elem split: if_splits)

lemma drain_MarkAgentDrained:
  assumes R: "drain_ok R" and p: "MarkAgentDrained_perform i R ids = (r, R', ids')"
  shows "drain_ok R'"
  using p R
  by (auto simp: MarkAgentDrained_perform_def drained_def drain_ok_def dest!: update_first_find
      split: if_splits option.splits outcome.splits)

lemma drain_ReactivateAgent:
  assumes R: "drain_ok R" and p: "ReactivateAgent_perform i R ids = (r, R', ids')"
  shows "drain_ok R'"
  using p
proof (rule ReactivateAgent_cases)
  fix f m ss f' m' us
  assume 1: "reactivate_slaves i (rg_slaves R) = (f, m, ss)"
    and 2: "f \<and> m \<and> f' = f \<and> m' = m \<and> us = rg_unreachable R \<or> reactivate_unreachable i f m (rg_unreachable R) = (f', m', us)"
    and R': "R' = R\<lparr>rg_slaves := ss, rg_unreachable := us, rg_minimum_capabilities :=
     (if f' \<and> \<not> m' then removeMinimumCapability AGENT_DRAINING (rg_minimum_capabilities R) else rg_minimum_capabilities R)\<rparr>"
  have ss: "s \<in> set (rg_slaves R) \<or> sv_drain_info s = None \<and> sv_deactivated s = None" if "s \<in> set ss" for s
    using reactivate_loop_elem [OF 1 that] by auto
  have us: "s \<in> set (rg_unreachable R) \<or> un_drain_info s = None \<and> un_deactivated s = None" if "s \<in> set us" for s
    using 2
  proof
    assume "reactivate_unreachable i f m (rg_unreachable R) = (f', m', us)"
    from reactivate_loop_elem [OF this that] show ?thesis
      by auto
  qed (use that in simp)
  have ds: "(sv_drain_info s \<noteq> None \<longrightarrow> deactivated (sv_deactivated s)) \<and>
      (deactivated (sv_deactivated s) \<longrightarrow> AGENT_DRAINING \<in> set (rg_minimum_capabilities R))" if "s \<in> set ss" for s
    using ss [OF that] R unfolding drain_ok_def deactivated_def by fastforce
  have du: "(un_drain_info s \<noteq> None \<longrightarrow> deactivated (un_deactivated s)) \<and>
      (deactivated (un_deactivated s) \<longrightarrow> AGENT_DRAINING \<in> set (rg_minimum_capabilities R))" if "s \<in> set us" for s
    using us [OF that] R unfolding drain_ok_def deactivated_def by fastforce
  show ?thesis
  proof (cases "f' \<and> \<not> m'")
    case True
    then have 3: "reactivate_unreachable i f m (rg_unreachable R) = (f', False, us)"
      using 2 by auto
    have "\<not> m \<and> (\<forall>s\<in>set us. \<not> deactivated (un_deactivated s))"
      by (rule reactivate_loop_none [OF _ 3]) (simp add: deactivated_def)
    moreover from this have "reactivate_slaves i (rg_slaves R) = (f, False, ss)"
      using 1 by simp
    then have "\<not> False \<and> (\<forall>s\<in>set ss. \<not> deactivated (sv_deactivated s))"
      by (rule reactivate_loop_none [rotated]) (simp add: deactivated_def)
    ultimately show ?thesis
      using R' ds du unfolding drain_ok_def by simp
  next
    case False
    then have "rg_minimum_capabilities R' = rg_minimum_capabilities R" "rg_slaves R' = ss" "rg_unreachable R' = us"
      using R' by auto
    then show ?thesis
      using ds du unfolding drain_ok_def by (simp only:) blast
  qed
qed

lemma drain_perform:
  assumes R: "drain_ok R" and p: "perform_operation E x R ids = (r, R', ids')"
  shows "drain_ok R'"
proof (cases x)
  case (Recover info)
  then show ?thesis
    using p by (intro drain_weaken [OF R]) auto
next
  case (UpdateSchedule schedule)
  then show ?thesis
    using p by (intro drain_weaken [OF R]) (auto simp: UpdateSchedule_perform_def Let_def)
next
  case (StartMaintenance ms)
  then show ?thesis
    using p by (intro drain_weaken [OF R]) (auto simp: StartMaintenance_perform_def)
next
  case (StopMaintenance ms)
  then show ?thesis
    using p by (intro drain_weaken [OF R]) (auto simp: StopMaintenance_perform_def Let_def)
next
  case (AdmitSlave info)
  then show ?thesis
    using drain_admission [OF R _ p, of info] by simp
next
  case (UpdateSlave info)
  then show ?thesis
    using drain_admission [OF R _ p, of info] by simp
next
  case (MarkSlaveUnreachable info t)
  then show ?thesis
    using p drain_MarkSlaveUnreachable [OF R] by simp
next
  case (MarkSlaveReachable info)
  then show ?thesis
    using p drain_MarkSlaveReachable [OF R] by simp
next
  case (Prune u g)
  then show ?thesis
    using p drain_Prune [OF R] by simp
next
  case (RemoveSlave info)
  then show ?thesis
    using p drain_RemoveSlave [OF R] by simp
next
  case (MarkSlaveGone i t)
  then show ?thesis
    using p drain_MarkSlaveGone [OF R] by simp
next
  case (DrainAgent i g b)
  then show ?thesis
    using p drain_Drain_Deactivate [OF R, of i g b ids r R' ids'] by simp
next
  case (MarkAgentDrained i)
  then show ?thesis
    using p drain_MarkAgentDrained [OF R] by simp
next
  case (DeactivateAgent i)
  then show ?thesis
    using p drain_Drain_Deactivate [OF R, of i None False ids r R' ids'] by simp
next
  case (ReactivateAgent i)
  then show ?thesis
    using p drain_ReactivateAgent [OF R] by simp
qed

end
