(* ===== verification/Registrar_System.thy ===== *)
theory Registrar_System
  imports Registrar Registry_Draining
begin

section \<open>Registrars of several masters\<close>

text \<open>
  Any number of registrars, one per master, over one storage. The storage executes a fetch or a store some
  time after it was requested, and its answer is delivered some time after that; a registrar may also give up
  on a storage operation (\<open>registry_fetch_timeout\<close>, \<open>registry_store_timeout\<close>), which the storage may execute
  nevertheless. A registrar that makes no more steps is a master that has terminated.

  The batches that were written to the storage, in that order, and the UUIDs that were generated are history
  variables: no handler reads them.
\<close>

subsection \<open>Steps\<close>

datatype answer = Fetched "Variable future" | Stored "Variable option future"

record 's masters =
  ms_storage :: 's
  ms_registrar :: "nat \<Rightarrow> registrar"
  ms_answer :: "nat \<Rightarrow> answer option"
  ms_late :: "(Variable \<times> queued list) list"
  ms_committed :: "queued list list"
  ms_used :: "string set"

fun future_of :: "'a outcome \<Rightarrow> 'a future" where
  "future_of Abort = Pending"
| "future_of (Error e) = Failed e"
| "future_of (Ok x) = Ready x"

abbreviation REGISTRY :: string where
  "REGISTRY \<equiv> ''registry''"

definition registry_version :: "entries \<Rightarrow> string option" where
  "registry_version st = map_option en_uuid (st REGISTRY)"

text \<open>A store that was executed with the UUID \<open>u\<close> has been written when the entry has that UUID.\<close>

definition record_commit :: "entries \<Rightarrow> string \<Rightarrow> queued list \<Rightarrow> queued list list \<Rightarrow> queued list list" where
  "record_commit st u ops committed = (if registry_version st = Some u then committed @ [ops] else committed)"

inductive masters_step ::
  "info_conversion \<Rightarrow> registry_codec \<Rightarrow> (string \<Rightarrow> bool) \<Rightarrow> (string \<Rightarrow> 's \<Rightarrow> Entry option outcome \<times> 's) \<Rightarrow>
   (Entry \<Rightarrow> string \<Rightarrow> 's \<Rightarrow> bool outcome \<times> 's) \<Rightarrow> ('s \<Rightarrow> entries) \<Rightarrow> 's masters \<Rightarrow> 's masters \<Rightarrow> bool"
  for E C version get set_entry state where
  do_recover:
    "masters_step E C version get set_entry state m
       (m\<lparr>ms_registrar := (ms_registrar m)(i := registrar_recover info (ms_registrar m i))\<rparr>)"
| do_fetch:
    "rr_request (ms_registrar m i) = FetchRequest info \<Longrightarrow> ms_answer m i = None \<Longrightarrow>
     valid_uuid version u \<Longrightarrow> u \<notin> ms_used m \<Longrightarrow> state_fetch get u REGISTRY (ms_storage m) = (q, s) \<Longrightarrow> q \<noteq> Abort \<Longrightarrow>
     masters_step E C version get set_entry state m
       (m\<lparr>ms_storage := s, ms_answer := (ms_answer m)(i \<mapsto> Fetched (future_of q)), ms_used := insert u (ms_used m)\<rparr>)"
| do_fetched:
    "rr_request (ms_registrar m i) = FetchRequest info \<Longrightarrow>
     ms_answer m i = Some (Fetched f) \<or> f = Failed e \<or> f = Discarded \<Longrightarrow>
     registrar_fetched E C info f (ms_registrar m i) = Ok r \<Longrightarrow>
     masters_step E C version get set_entry state m
       (m\<lparr>ms_registrar := (ms_registrar m)(i := r), ms_answer := (ms_answer m)(i := None)\<rparr>)"
| do_store:
    "rr_request (ms_registrar m i) = StoreRequest v R ops \<Longrightarrow> ms_answer m i = None \<Longrightarrow>
     valid_uuid version u \<Longrightarrow> u \<notin> ms_used m \<Longrightarrow> state_store version set_entry u v (ms_storage m) = (q, s) \<Longrightarrow> q \<noteq> Abort \<Longrightarrow>
     masters_step E C version get set_entry state m
       (m\<lparr>ms_storage := s, ms_answer := (ms_answer m)(i \<mapsto> Stored (future_of q)),
          ms_committed := record_commit (state s) u ops (ms_committed m), ms_used := insert u (ms_used m)\<rparr>)"
| do_stored:
    "rr_request (ms_registrar m i) = StoreRequest v R ops \<Longrightarrow> ms_answer m i = Some (Stored f) \<Longrightarrow>
     updated_registry E C f R ops (ms_registrar m i) = Ok r \<Longrightarrow>
     masters_step E C version get set_entry state m
       (m\<lparr>ms_registrar := (ms_registrar m)(i := r), ms_answer := (ms_answer m)(i := None)\<rparr>)"
| do_store_lost:
    "rr_request (ms_registrar m i) = StoreRequest v R ops \<Longrightarrow> f = Failed e \<or> f = Discarded \<Longrightarrow>
     updated_registry E C f R ops (ms_registrar m i) = Ok r \<Longrightarrow>
     masters_step E C version get set_entry state m
       (m\<lparr>ms_registrar := (ms_registrar m)(i := r), ms_answer := (ms_answer m)(i := None),
          ms_late := (if ms_answer m i = None then ms_late m @ [(v, ops)] else ms_late m)\<rparr>)"
| do_late_store:
    "ms_late m = ls @ (v, ops) # ls' \<Longrightarrow>
     valid_uuid version u \<Longrightarrow> u \<notin> ms_used m \<Longrightarrow> state_store version set_entry u v (ms_storage m) = (q, s) \<Longrightarrow> q \<noteq> Abort \<Longrightarrow>
     masters_step E C version get set_entry state m
       (m\<lparr>ms_storage := s, ms_late := ls @ ls',
          ms_committed := record_commit (state s) u ops (ms_committed m), ms_used := insert u (ms_used m)\<rparr>)"
| do_recovered:
    "(None, b) \<in> set (rr_results (ms_registrar m i)) \<Longrightarrow> rr_recovered (ms_registrar m i) = Some Pending \<Longrightarrow>
     registrar_recovered b (ms_registrar m i) = Ok r \<Longrightarrow>
     masters_step E C version get set_entry state m (m\<lparr>ms_registrar := (ms_registrar m)(i := r)\<rparr>)"
| do_apply:
    "masters_step E C version get set_entry state m
       (m\<lparr>ms_registrar := (ms_registrar m)(i := registrar_apply k x (ms_registrar m i))\<rparr>)"
| do_enqueue:
    "rr_gated (ms_registrar m i) = (k, x) # ops \<Longrightarrow> rr_recovered (ms_registrar m i) = Some (Ready R) \<Longrightarrow>
     registrar_enqueue E C k x ((ms_registrar m i)\<lparr>rr_gated := ops\<rparr>) = Ok r \<Longrightarrow>
     masters_step E C version get set_entry state m (m\<lparr>ms_registrar := (ms_registrar m)(i := r)\<rparr>)"

definition masters_init :: "('s \<Rightarrow> entries) \<Rightarrow> 's \<Rightarrow> 's masters" where
  "masters_init state s = \<lparr>ms_storage = s, ms_registrar = (\<lambda>i. registrar_init), ms_answer = (\<lambda>i. None), ms_late = [],
     ms_committed = [], ms_used = {u. registry_version (state s) = Some u}\<rparr>"

inductive masters_run ::
  "info_conversion \<Rightarrow> registry_codec \<Rightarrow> (string \<Rightarrow> bool) \<Rightarrow> (string \<Rightarrow> 's \<Rightarrow> Entry option outcome \<times> 's) \<Rightarrow>
   (Entry \<Rightarrow> string \<Rightarrow> 's \<Rightarrow> bool outcome \<times> 's) \<Rightarrow> ('s \<Rightarrow> entries) \<Rightarrow> 's \<Rightarrow> 's masters \<Rightarrow> bool"
  for E C version get set_entry state s where
  run_start: "masters_run E C version get set_entry state s (masters_init state s)"
| run_step: "masters_run E C version get set_entry state s m \<Longrightarrow> masters_step E C version get set_entry state m m' \<Longrightarrow>
     masters_run E C version get set_entry state s m'"

subsection \<open>The registry of the storage\<close>

text \<open>A variable that does not exist has an empty value.\<close>

definition stored_registry :: "registry_codec \<Rightarrow> entries \<Rightarrow> Registry outcome" where
  "stored_registry C st = registry_deserialize C (case st REGISTRY of None \<Rightarrow> [] | Some e \<Rightarrow> en_value e)"

text \<open>The batches of operations applied one after the other, with the results that they have.\<close>

fun replay_batches :: "info_conversion \<Rightarrow> queued list list \<Rightarrow> Registry \<Rightarrow> Registry option" where
  "replay_batches E [] R = Some R"
| "replay_batches E (ops # batches) R =
     (case apply_operations E ops R (registry_ids R) of
        Some (ops', R') \<Rightarrow> if ops' = ops then replay_batches E batches R' else None
      | None \<Rightarrow> None)"

definition codec_ok :: "registry_codec \<Rightarrow> bool" where
  "codec_ok C \<longleftrightarrow> (\<forall>R x. registry_serialize C R = Ok x \<longrightarrow> registry_deserialize C x = Ok R)"

end
