(* ===== verification/Registrar_Safety.thy ===== *)
theory Registrar_Safety
  imports Registrar_System
begin

section \<open>Safety of the registrars\<close>

text \<open>
  The registry of the storage is the result of the batches that were written, one after the other; an operation
  that was reported as done is in one of them.
\<close>

subsection \<open>Batches\<close>

lemma apply_operations_again: "apply_operations E ops R ids = Some (ops', R') \<Longrightarrow> apply_operations E ops' R ids = Some (ops', R')"
  by (induction ops arbitrary: R ids ops') (auto split: outcome.splits prod.splits)

lemma replay_append:
  "replay_batches E bs R = Some R1 \<Longrightarrow> apply_operations E ops R1 (registry_ids R1) = Some (ops, R2) \<Longrightarrow>
   replay_batches E (bs @ [ops]) R = Some R2"
  by (induction bs arbitrary: R) (auto split: option.splits if_splits)

subsection \<open>What a registrar knows\<close>

text \<open>The registry that a registrar has for a variable is the stored one unless the variable is outdated.\<close>

definition link :: "registry_codec \<Rightarrow> entries \<Rightarrow> string set \<Rightarrow> Variable \<Rightarrow> Registry outcome \<Rightarrow> bool" where
  "link C st used v R \<longleftrightarrow> en_name (va_entry v) = REGISTRY \<and> en_uuid (va_entry v) \<in> used \<and>
     (current st REGISTRY (en_uuid (va_entry v)) \<longrightarrow> stored_registry C st = R)"

definition store_ok ::
  "info_conversion \<Rightarrow> registry_codec \<Rightarrow> entries \<Rightarrow> string set \<Rightarrow> Variable \<Rightarrow> Registry \<Rightarrow> queued list \<Rightarrow> bool" where
  "store_ok E C st used v R' ops \<longleftrightarrow> registry_deserialize C (variable_value v) = Ok R' \<and>
     (\<exists>R. link C st used v (Ok R) \<and> apply_operations E ops R (registry_ids R) = Some (ops, R'))"

fun answer_ok :: "registry_codec \<Rightarrow> entries \<Rightarrow> string set \<Rightarrow> queued list list \<Rightarrow> request \<Rightarrow> answer option \<Rightarrow> bool" where
  "answer_ok C st used committed NoRequest (Some a) \<longleftrightarrow> False"
| "answer_ok C st used committed _ (Some (Fetched (Ready v))) \<longleftrightarrow> link C st used v (registry_deserialize C (variable_value v))"
| "answer_ok C st used committed (StoreRequest v R ops) (Some (Stored (Ready (Some w)))) \<longleftrightarrow>
     link C st used w (Ok R) \<and> ops \<in> set committed"
| "answer_ok C st used committed _ _ \<longleftrightarrow> True"

definition results_ok :: "queued list list \<Rightarrow> (nat option \<times> bool outcome) list \<Rightarrow> bool" where
  "results_ok committed results \<longleftrightarrow> (\<forall>k b. (k, Ok b) \<in> set results \<longrightarrow> (\<exists>ops\<in>set committed. \<exists>x. (k, x, b) \<in> set ops))"

definition registrar_ok ::
  "info_conversion \<Rightarrow> registry_codec \<Rightarrow> entries \<Rightarrow> string set \<Rightarrow> queued list list \<Rightarrow> registrar \<Rightarrow> bool" where
  "registrar_ok E C st used committed r \<longleftrightarrow>
     (\<forall>v R. rr_variable r = Some v \<and> rr_registry r = Some R \<longrightarrow> link C st used v (Ok R)) \<and>
     (\<forall>v R ops. rr_request r = StoreRequest v R ops \<longrightarrow> store_ok E C st used v R ops) \<and>
     (\<not> rr_updating r \<longrightarrow> rr_request r = NoRequest) \<and> results_ok committed (rr_results r)"

subsection \<open>The storage changes\<close>

text \<open>What a change of the storage does not invalidate: versions do not become current again.\<close>

definition storage_after :: "registry_codec \<Rightarrow> entries \<Rightarrow> string set \<Rightarrow> entries \<Rightarrow> bool" where
  "storage_after C st used st' \<longleftrightarrow>
     (\<forall>u\<in>used. current st' REGISTRY u \<longrightarrow> current st REGISTRY u \<and> stored_registry C st' = stored_registry C st)"

lemma link_after: "link C st used v R \<Longrightarrow> storage_after C st used st' \<Longrightarrow> used \<subseteq> used' \<Longrightarrow> link C st' used' v R"
  unfolding link_def storage_after_def by auto

lemma store_ok_after:
  "store_ok E C st used v R ops \<Longrightarrow> storage_after C st used st' \<Longrightarrow> used \<subseteq> used' \<Longrightarrow> store_ok E C st' used' v R ops"
  unfolding store_ok_def using link_after by blast

lemma answer_ok_after:
  "answer_ok C st used committed q a \<Longrightarrow> storage_after C st used st' \<Longrightarrow> used \<subseteq> used' \<Longrightarrow> set committed \<subseteq> set committed' \<Longrightarrow>
   answer_ok C st' used' committed' q a"
  by (induction C st used committed q a rule: answer_ok.induct) (auto intro: link_after)

lemma answer_ok_FetchRequest: "answer_ok C st used committed q a \<Longrightarrow> answer_ok C st used committed (FetchRequest info) a"
  by (auto elim: answer_ok.elims)

lemma results_ok_after: "results_ok committed rs \<Longrightarrow> set committed \<subseteq> set committed' \<Longrightarrow> results_ok committed' rs"
  unfolding results_ok_def by blast

lemma registrar_ok_after:
  "registrar_ok E C st used committed r \<Longrightarrow> storage_after C st used st' \<Longrightarrow> used \<subseteq> used' \<Longrightarrow> set committed \<subseteq> set committed' \<Longrightarrow>
   registrar_ok E C st' used' committed' r"
  unfolding registrar_ok_def using link_after store_ok_after results_ok_after by metis

lemma storage_after_refl [simp]: "storage_after C st used st"
  by (simp add: storage_after_def)

lemma storage_after_write: "st' REGISTRY = Some e \<Longrightarrow> en_uuid e \<notin> used \<Longrightarrow> storage_after C st used st'"
  by (auto simp: storage_after_def current_def)

subsection \<open>Handlers\<close>

lemma results_ok_append: "results_ok committed (rs @ rs') \<longleftrightarrow> results_ok committed rs \<and> results_ok committed rs'"
  by (auto simp: results_ok_def)

lemma results_ok_failed [simp]:
  "results_ok committed (map (\<lambda>(k, x, b). (k, Error m)) ops)" "results_ok committed (map (\<lambda>(k, x). (Some k, Error m)) gs)"
  "results_ok committed []" "results_ok committed [(k, Error m)]"
  by (auto simp: results_ok_def)

lemma results_ok_set: "ops \<in> set committed \<Longrightarrow> results_ok committed (map (\<lambda>(k, x, b). (k, Ok b)) ops)"
  by (auto simp: results_ok_def)

lemmas registrar_handlers = fail_operations_def registrar_abort_def recovery_failed_def registrar_recover_def registrar_apply_def

lemma registrar_ok_update:
  assumes C: "codec_ok C" and r: "registrar_ok E C st used committed r" and u: "update_registry E C r = Ok r'"
  shows "registrar_ok E C st used committed r'"
proof (cases "rr_operations r = []")
  case True
  then show ?thesis
    using u r by (simp add: update_registry_def)
next
  case False
  then obtain v R ops R' where s: "rr_variable r = Some v" "rr_registry r = Some R"
    and a: "apply_operations E (rr_operations r) R (registry_ids R) = Some (ops, R')"
    using u by (auto simp: update_registry_def split: option.splits bool.splits)
  have l: "link C st used v (Ok R)"
    using r s by (simp add: registrar_ok_def)
  consider x where "registry_serialize C R' = Ok x"
      "r' = r\<lparr>rr_updating := True, rr_request := StoreRequest (mutate x v) R' ops, rr_operations := []\<rparr>"
    | m where "r' = registrar_abort m (fail_operations ops m (r\<lparr>rr_updating := True, rr_operations := []\<rparr>))"
    using u False s a by (auto simp: update_registry_def Let_def split: option.splits bool.splits outcome.splits)
  then show ?thesis
  proof cases
    case 1
    then have "store_ok E C st used (mutate x v) R' ops"
      using l C apply_operations_again [OF a]
      by (auto simp: store_ok_def link_def mutate_def variable_value_def codec_ok_def)
    then show ?thesis
      using r 1(2) by (simp add: registrar_ok_def)
  next
    case 2
    then show ?thesis
      using r by (simp add: registrar_ok_def registrar_handlers results_ok_append)
  qed
qed

lemma registrar_ok_updated:
  assumes C: "codec_ok C" and r: "registrar_ok E C st used committed r" and q: "rr_request r = StoreRequest v R ops"
    and a: "\<And>w. f = Ready (Some w) \<Longrightarrow> link C st used w (Ok R) \<and> ops \<in> set committed"
    and u: "updated_registry E C f R ops r = Ok r'"
  shows "registrar_ok E C st used committed r'"
proof (cases "\<exists>w. f = Ready (Some w)")
  case True
  then obtain w where w: "f = Ready (Some w)"
    by blast
  let ?r = "r\<lparr>rr_updating := False, rr_request := NoRequest, rr_variable := Some w, rr_registry := Some R,
    rr_results := rr_results r @ map (\<lambda>(k, x, b). (k, Ok b)) ops\<rparr>"
  have "registrar_ok E C st used committed ?r"
    using r a [OF w] results_ok_set by (simp add: registrar_ok_def results_ok_append)
  moreover have "update_registry E C ?r = Ok r'"
    using u w by (simp add: updated_registry_def Let_def)
  ultimately show ?thesis
    using registrar_ok_update [OF C] by blast
next
  case False
  then obtain m where "r' = registrar_abort m (fail_operations ops m (r\<lparr>rr_updating := False, rr_request := NoRequest\<rparr>))"
    using u by (auto simp: updated_registry_def Let_def split: future.splits option.splits)
  then show ?thesis
    using r by (simp add: registrar_ok_def registrar_handlers results_ok_append)
qed

lemma registrar_ok_fetched:
  assumes C: "codec_ok C" and r: "registrar_ok E C st used committed r"
    and a: "\<And>v. f = Ready v \<Longrightarrow> link C st used v (registry_deserialize C (variable_value v))"
    and u: "registrar_fetched E C info f r = Ok r'"
  shows "registrar_ok E C st used committed r'"
proof (cases "\<exists>v R. f = Ready v \<and> registry_deserialize C (variable_value v) = Ok R")
  case True
  then obtain v R where v: "f = Ready v" "registry_deserialize C (variable_value v) = Ok R"
    by blast
  let ?r = "r\<lparr>rr_updating := False, rr_request := NoRequest, rr_variable := Some v, rr_registry := Some R,
    rr_operations := rr_operations r @ [(None, Recover info, False)]\<rparr>"
  have "registrar_ok E C st used committed ?r"
    using r a [OF v(1)] v(2) by (simp add: registrar_ok_def)
  moreover have "update_registry E C ?r = Ok r'"
    using u v by (simp add: registrar_fetched_def Let_def)
  ultimately show ?thesis
    using registrar_ok_update [OF C] by blast
next
  case False
  then obtain e where "r' = recovery_failed e (r\<lparr>rr_updating := False, rr_request := NoRequest\<rparr>)"
    using u by (auto simp: registrar_fetched_def Let_def split: future.splits outcome.splits)
  then show ?thesis
    using r by (simp add: registrar_ok_def registrar_handlers Let_def results_ok_append)
qed

lemma registrar_ok_recovered:
  assumes r: "registrar_ok E C st used committed r" and u: "registrar_recovered b r = Ok r'"
  shows "registrar_ok E C st used committed r'"
proof -
  have "(\<exists>e. r' = recovery_failed e r) \<or> (\<exists>R. r' = r\<lparr>rr_recovered := Some (Ready R)\<rparr>)"
    using u by (auto simp: registrar_recovered_def split: outcome.splits bool.splits option.splits)
  then show ?thesis
    using r by (auto simp: registrar_ok_def registrar_handlers Let_def results_ok_append)
qed

lemma registrar_ok_recover: "registrar_ok E C st used committed r \<Longrightarrow> registrar_ok E C st used committed (registrar_recover info r)"
  by (simp add: registrar_ok_def registrar_recover_def)

lemma registrar_ok_apply: "registrar_ok E C st used committed r \<Longrightarrow> registrar_ok E C st used committed (registrar_apply k x r)"
  by (simp add: registrar_ok_def registrar_apply_def results_ok_append split: option.splits future.splits)

lemma registrar_ok_enqueue:
  assumes C: "codec_ok C" and r: "registrar_ok E C st used committed r"
    and u: "registrar_enqueue E C k x (r\<lparr>rr_gated := gs\<rparr>) = Ok r'"
  shows "registrar_ok E C st used committed r'"
proof -
  let ?r = "r\<lparr>rr_gated := gs, rr_operations := rr_operations r @ [(Some k, x, False)]\<rparr>"
  have r1: "registrar_ok E C st used committed ?r"
    using r by (simp add: registrar_ok_def)
  show ?thesis
  proof (cases "rr_error r")
    case None
    then have "r' = ?r \<or> update_registry E C ?r = Ok r'"
      using u by (simp add: registrar_enqueue_def Let_def split: if_splits)
    then show ?thesis
      using r1 registrar_ok_update [OF C r1] by blast
  next
    case (Some e)
    then have "r' = r\<lparr>rr_gated := gs, rr_results := rr_results r @ [(Some k, Error e)]\<rparr>"
      using u by (simp add: registrar_enqueue_def)
    then show ?thesis
      using r by (simp add: registrar_ok_def results_ok_append)
  qed
qed

subsection \<open>All masters\<close>

definition masters_ok :: "info_conversion \<Rightarrow> registry_codec \<Rightarrow> ('s \<Rightarrow> entries) \<Rightarrow> Registry \<Rightarrow> 's masters \<Rightarrow> bool" where
  "masters_ok E C state R0 m \<longleftrightarrow>
     (\<exists>R. stored_registry C (state (ms_storage m)) = Ok R \<and> replay_batches E (ms_committed m) R0 = Some R) \<and>
     (\<forall>u. registry_version (state (ms_storage m)) = Some u \<longrightarrow> u \<in> ms_used m) \<and>
     (\<forall>i. registrar_ok E C (state (ms_storage m)) (ms_used m) (ms_committed m) (ms_registrar m i) \<and>
        answer_ok C (state (ms_storage m)) (ms_used m) (ms_committed m) (rr_request (ms_registrar m i)) (ms_answer m i)) \<and>
     (\<forall>(v, ops)\<in>set (ms_late m). \<exists>R'. store_ok E C (state (ms_storage m)) (ms_used m) v R' ops)"

lemma masters_ok_init:
  assumes "stored_registry C (state s) = Ok R0"
  shows "masters_ok E C state R0 (masters_init state s)"
  using assms by (simp add: masters_ok_def masters_init_def registrar_ok_def registrar_init_def)

text \<open>A step of one registrar, with the answer that it gets or none.\<close>

lemma masters_ok_registrar:
  assumes m: "masters_ok E C state R0 m"
    and r: "registrar_ok E C (state (ms_storage m)) (ms_used m) (ms_committed m) r"
    and a: "answer_ok C (state (ms_storage m)) (ms_used m) (ms_committed m) (rr_request r) a"
  shows "masters_ok E C state R0 (m\<lparr>ms_registrar := (ms_registrar m)(i := r), ms_answer := (ms_answer m)(i := a)\<rparr>)"
  using m r a unfolding masters_ok_def by auto

text \<open>The storage is written with a new version, or it stays as it is.\<close>

lemma masters_ok_storage:
  assumes m: "masters_ok E C state R0 m" and after: "storage_after C (state (ms_storage m)) (ms_used m) (state s)"
    and R: "\<exists>R. stored_registry C (state s) = Ok R \<and> replay_batches E committed R0 = Some R"
    and u: "\<forall>u. registry_version (state s) = Some u \<longrightarrow> u \<in> used" "ms_used m \<subseteq> used" "set (ms_committed m) \<subseteq> set committed"
    and l: "set late \<subseteq> set (ms_late m)"
  shows "masters_ok E C state R0 (m\<lparr>ms_storage := s, ms_late := late, ms_committed := committed, ms_used := used\<rparr>)"
proof -
  note ok = m [unfolded masters_ok_def]
  have "registrar_ok E C (state s) used committed (ms_registrar m i)"
    "answer_ok C (state s) used committed (rr_request (ms_registrar m i)) (ms_answer m i)" for i
    using ok registrar_ok_after [OF _ after u(2,3)] answer_ok_after [OF _ after u(2,3)] by blast+
  moreover have "\<exists>R'. store_ok E C (state s) used v R' ops" if "(v, ops) \<in> set late" for v ops
    using ok l that store_ok_after [OF _ after u(2)] by blast
  ultimately show ?thesis
    using R u(1) unfolding masters_ok_def by auto
qed

subsection \<open>Over any storage\<close>

context versioned_storage
begin

lemma store_executed:
  assumes s: "inv s" and st: "state_store version set_entry u v s = (q, s')" "q \<noteq> Abort" and u: "valid_uuid version u"
    and e: "e = \<lparr>en_name = en_name (va_entry v), en_uuid = u, en_value = variable_value v\<rparr>"
  shows "inv s' \<and> (state s' = state s \<and> (\<forall>w. q \<noteq> Ok (Some w)) \<or>
    current (state s) (en_name (va_entry v)) (en_uuid (va_entry v)) \<and> state s' = (state s)(en_name (va_entry v) \<mapsto> e) \<and>
    (\<forall>w. q = Ok (Some w) \<longrightarrow> va_entry w = e))"
proof -
  let ?x = "en_uuid (va_entry v)"
  have x: "uuid_get version ?x = Ok ?x"
    using st uuid_get_cases [of version ?x] by (auto simp: state_store_def)
  obtain r t where r: "set_entry e ?x s = (r, t)"
    by fastforce
  have q: "s' = t" "q = (case r of Ok b \<Rightarrow> Ok (if b then Some \<lparr>va_entry = e\<rparr> else None) | Error m \<Rightarrow> Error m | Abort \<Rightarrow> Abort)"
    using st(1) x r by (auto simp: state_store_def e variable_value_def Let_def split: outcome.splits)
  have "valid_uuid version (en_uuid e)" "en_name e = en_name (va_entry v)"
    using u e by simp_all
  from set_law [OF s this(1) r] this(2) show ?thesis
    unfolding q by (cases "r = Ok True") (auto split: outcome.splits)
qed

lemma masters_ok_executed:
  assumes m: "masters_ok E C state R0 m" "inv (ms_storage m)"
    and o: "store_ok E C (state (ms_storage m)) (ms_used m) v R' ops"
    and u: "valid_uuid version u" "u \<notin> ms_used m"
    and st: "state_store version set_entry u v (ms_storage m) = (q, s)" "q \<noteq> Abort"
    and l: "set late \<subseteq> set (ms_late m)"
    and c: "committed = record_commit (state s) u ops (ms_committed m)"
  shows "inv s" "masters_ok E C state R0 (m\<lparr>ms_storage := s, ms_late := late, ms_committed := committed, ms_used := insert u (ms_used m)\<rparr>)"
    "q = Ok (Some w) \<Longrightarrow> link C (state s) (insert u (ms_used m)) w (Ok R') \<and> ops \<in> set committed"
proof -
  let ?s = "ms_storage m" and ?e = "\<lparr>en_name = REGISTRY, en_uuid = u, en_value = variable_value v\<rparr>"
  obtain R where R: "registry_deserialize C (variable_value v) = Ok R'" "link C (state ?s) (ms_used m) v (Ok R)"
      "apply_operations E ops R (registry_ids R) = Some (ops, R')"
    using o by (auto simp: store_ok_def)
  have n: "en_name (va_entry v) = REGISTRY"
    using R(2) by (simp add: link_def)
  note ok = m(1) [unfolded masters_ok_def]
  note ex = store_executed [OF m(2) st u(1) refl, unfolded n]
  show "inv s"
    using ex by blast
  consider (same) "state s = state ?s" "\<forall>w. q \<noteq> Ok (Some w)"
    | (written) "current (state ?s) REGISTRY (en_uuid (va_entry v))" "state s = (state ?s)(REGISTRY \<mapsto> ?e)"
        "\<forall>w. q = Ok (Some w) \<longrightarrow> va_entry w = ?e"
    using ex by blast
  then have "masters_ok E C state R0 (m\<lparr>ms_storage := s, ms_late := late, ms_committed := committed, ms_used := insert u (ms_used m)\<rparr>) \<and>
      (q = Ok (Some w) \<longrightarrow> link C (state s) (insert u (ms_used m)) w (Ok R') \<and> ops \<in> set committed)"
  proof cases
    case same
    then have "committed = ms_committed m"
      using c u(2) ok by (auto simp: record_commit_def)
    then show ?thesis
      using same ok by (intro conjI masters_ok_storage [OF m(1)]) (use l in auto)
  next
    case written
    have c': "committed = ms_committed m @ [ops]" and sr: "stored_registry C (state s) = Ok R'"
      using c written(2) R(1) by (simp_all add: record_commit_def registry_version_def stored_registry_def)
    have "stored_registry C (state ?s) = Ok R"
      using R(2) written(1) by (simp add: link_def)
    then have "replay_batches E committed R0 = Some R'"
      using ok R(3) replay_append unfolding c' by auto
    then have "masters_ok E C state R0 (m\<lparr>ms_storage := s, ms_late := late, ms_committed := committed, ms_used := insert u (ms_used m)\<rparr>)"
      using sr c' written(2) l u(2)
      by (intro masters_ok_storage [OF m(1) storage_after_write [of _ ?e]]) (auto simp: registry_version_def)
    then show ?thesis
      using sr c' written(3) by (auto simp: link_def)
  qed
  then show "masters_ok E C state R0 (m\<lparr>ms_storage := s, ms_late := late, ms_committed := committed, ms_used := insert u (ms_used m)\<rparr>)"
    "q = Ok (Some w) \<Longrightarrow> link C (state s) (insert u (ms_used m)) w (Ok R') \<and> ops \<in> set committed"
    by blast+
qed

lemma masters_ok_registrar_only:
  assumes "masters_ok E C state R0 m" "registrar_ok E C (state (ms_storage m)) (ms_used m) (ms_committed m) r"
    "answer_ok C (state (ms_storage m)) (ms_used m) (ms_committed m) (rr_request r) (ms_answer m i)"
  shows "masters_ok E C state R0 (m\<lparr>ms_registrar := (ms_registrar m)(i := r)\<rparr>)"
  using masters_ok_registrar [OF assms, of i] by (cases m) simp

lemma masters_ok_fetch:
  assumes m: "masters_ok E C state R0 m" "inv (ms_storage m)" and q: "rr_request (ms_registrar m i) = FetchRequest info"
    and f: "state_fetch get u REGISTRY (ms_storage m) = (q, s)" "q \<noteq> Abort"
  shows "inv s \<and> masters_ok E C state R0
    (m\<lparr>ms_storage := s, ms_answer := (ms_answer m)(i \<mapsto> Fetched (future_of q)), ms_used := insert u (ms_used m)\<rparr>)"
proof -
  obtain g where g: "get REGISTRY (ms_storage m) = (g, s)"
    using f(1) by (cases "get REGISTRY (ms_storage m)") (auto simp: state_fetch_def split: outcome.splits option.splits)
  have s: "inv s" "state s = state (ms_storage m)" "\<And>x. g = Ok x \<Longrightarrow> x = state (ms_storage m) REGISTRY"
    using get_law [OF m(2) g] by auto
  let ?m = "m\<lparr>ms_storage := s, ms_late := ms_late m, ms_committed := ms_committed m, ms_used := insert u (ms_used m)\<rparr>"
  have "masters_ok E C state R0 ?m"
    by (rule masters_ok_storage [OF m(1)]) (use m(1) s(2) in \<open>auto simp: masters_ok_def\<close>)
  moreover have "link C (state s) (insert u (ms_used m)) v (registry_deserialize C (variable_value v))" if "q = Ok v" for v
  proof -
    have v: "va_entry v = (case state s REGISTRY of None \<Rightarrow> \<lparr>en_name = REGISTRY, en_uuid = u, en_value = []\<rparr> | Some e \<Rightarrow> e)"
      using f(1) g s(2,3) that by (auto simp: state_fetch_def split: outcome.splits option.splits)
    show ?thesis
      using m(1) s(2) inv_entries [OF s(1)]
      by (cases "state s REGISTRY") (auto simp: link_def v stored_registry_def variable_value_def masters_ok_def registry_version_def entries_ok_def)
  qed
  then have "answer_ok C (state s) (insert u (ms_used m)) (ms_committed m) (FetchRequest info) (Some (Fetched (future_of q)))"
    using f(2) by (cases q) simp_all
  ultimately have "masters_ok E C state R0 (?m\<lparr>ms_registrar := (ms_registrar ?m)(i := ms_registrar m i),
      ms_answer := (ms_answer ?m)(i := Some (Fetched (future_of q)))\<rparr>)"
    by (intro masters_ok_registrar) (auto simp: masters_ok_def q)
  then show ?thesis
    using s(1) by (cases m) simp
qed

lemma masters_ok_stored:
  assumes m: "masters_ok E C state R0 m" "inv (ms_storage m)" and rq: "rr_request (ms_registrar m i) = StoreRequest v R ops"
    and o: "store_ok E C (state (ms_storage m)) (ms_used m) v R ops"
    and u: "valid_uuid version u" "u \<notin> ms_used m"
    and st: "state_store version set_entry u v (ms_storage m) = (q, s)" "q \<noteq> Abort"
    and c: "committed = record_commit (state s) u ops (ms_committed m)"
  shows "inv s \<and> masters_ok E C state R0 (m\<lparr>ms_storage := s, ms_answer := (ms_answer m)(i \<mapsto> Stored (future_of q)),
    ms_committed := committed, ms_used := insert u (ms_used m)\<rparr>)"
proof -
  let ?m = "m\<lparr>ms_storage := s, ms_late := ms_late m, ms_committed := committed, ms_used := insert u (ms_used m)\<rparr>"
  note ex = masters_ok_executed [OF m o u st subset_refl c]
  have "answer_ok C (state s) (insert u (ms_used m)) committed (StoreRequest v R ops) (Some (Stored (future_of q)))"
    using ex(3) st(2) by (cases q rule: future_of.cases) (auto split: option.splits, metis answer_ok.simps not_None_eq)
  then have "masters_ok E C state R0 (?m\<lparr>ms_registrar := (ms_registrar ?m)(i := ms_registrar m i),
      ms_answer := (ms_answer ?m)(i := Some (Stored (future_of q)))\<rparr>)"
    using ex(2) by (intro masters_ok_registrar) (auto simp: masters_ok_def rq)
  then show ?thesis
    using ex(1) by (cases m) simp
qed

lemma masters_ok_step:
  assumes C: "codec_ok C" and m: "masters_ok E C state R0 m" "inv (ms_storage m)"
    and step: "masters_step E C version get set_entry state m m'"
  shows "masters_ok E C state R0 m' \<and> inv (ms_storage m')"
proof -
  have r: "registrar_ok E C (state (ms_storage m)) (ms_used m) (ms_committed m) (ms_registrar m i)"
    and a: "answer_ok C (state (ms_storage m)) (ms_used m) (ms_committed m) (rr_request (ms_registrar m i)) (ms_answer m i)" for i
    using m(1) by (simp_all add: masters_ok_def)
  have v: "registry_version (state (ms_storage m)) = Some u \<Longrightarrow> u \<in> ms_used m" for u
    using m(1) by (simp add: masters_ok_def)
  show ?thesis
    using step
  proof cases
    case (do_recover i info)
    have "answer_ok C (state (ms_storage m)) (ms_used m) (ms_committed m) (rr_request (registrar_recover info (ms_registrar m i))) (ms_answer m i)"
      using a [of i] answer_ok_FetchRequest by (simp add: registrar_recover_def)
    then show ?thesis
      using do_recover m(2) registrar_ok_recover [OF r] masters_ok_registrar_only [OF m(1)] by simp
  next
    case (do_apply i k x)
    have "rr_request (registrar_apply k x (ms_registrar m i)) = rr_request (ms_registrar m i)"
      by (simp add: registrar_apply_def split: option.splits future.splits)
    then show ?thesis
      using do_apply m(2) a [of i] registrar_ok_apply [OF r] masters_ok_registrar_only [OF m(1)] by simp
  next
    case (do_recovered b i r')
    moreover have "rr_request r' = rr_request (ms_registrar m i)"
      using do_recovered(4)
      by (auto simp: registrar_recovered_def recovery_failed_def Let_def split: outcome.splits bool.splits option.splits)
    ultimately show ?thesis
      using m(2) a [of i] registrar_ok_recovered [OF r] by (auto intro!: masters_ok_registrar_only [OF m(1)])
  next
    case (do_fetched i info f e r')
    have "registrar_ok E C (state (ms_storage m)) (ms_used m) (ms_committed m) r'"
      by (rule registrar_ok_fetched [OF C r _ do_fetched(4)]) (use do_fetched(2,3) a [of i] in auto)
    then show ?thesis
      using do_fetched(1) m(2) masters_ok_registrar [OF m(1), of r' None i] by simp
  next
    case (do_stored i w R ops f r')
    have "registrar_ok E C (state (ms_storage m)) (ms_used m) (ms_committed m) r'"
      by (rule registrar_ok_updated [OF C r do_stored(2) _ do_stored(4)]) (use do_stored(2,3) a [of i] in auto)
    then show ?thesis
      using do_stored(1) m(2) masters_ok_registrar [OF m(1), of r' None i] by simp
  next
    case (do_fetch i info u q s)
    then show ?thesis
      using masters_ok_fetch [OF m do_fetch(2,6,7)] by simp
  next
    case (do_store i w R ops u q s)
    then show ?thesis
      using masters_ok_stored [OF m do_store(2) _ do_store(4-7) refl] r [of i] by (auto simp: registrar_ok_def)
  next
    case (do_store_lost i w R ops f e r')
    have "registrar_ok E C (state (ms_storage m)) (ms_used m) (ms_committed m) r'"
      by (rule registrar_ok_updated [OF C r do_store_lost(2) _ do_store_lost(4)]) (use do_store_lost(3) in auto)
    then have "masters_ok E C state R0 (m\<lparr>ms_registrar := (ms_registrar m)(i := r'), ms_answer := (ms_answer m)(i := None)\<rparr>)"
      by (intro masters_ok_registrar [OF m(1)]) simp_all
    moreover have "store_ok E C (state (ms_storage m)) (ms_used m) w R ops"
      using r [of i] do_store_lost(2) by (simp add: registrar_ok_def)
    ultimately show ?thesis
      using do_store_lost(1) m(2) by (auto simp: masters_ok_def)
  next
    case (do_late_store ls w ops ls' u q s)
    obtain R' where "store_ok E C (state (ms_storage m)) (ms_used m) w R' ops"
      using m(1) do_late_store(2) by (auto simp: masters_ok_def)
    from masters_ok_executed(1,2) [OF m this do_late_store(3-6) _ refl, of "ls @ ls'"] show ?thesis
      using do_late_store(1,2) by auto
  next
    case (do_enqueue i k x ops R r')
    have "answer_ok C (state (ms_storage m)) (ms_used m) (ms_committed m) (rr_request r') (ms_answer m i)"
    proof (cases "rr_request r' = rr_request (ms_registrar m i)")
      case False
      then have "\<not> rr_updating (ms_registrar m i)"
        using do_enqueue(4) by (auto simp: registrar_enqueue_def Let_def split: option.splits if_splits)
      then have "rr_request (ms_registrar m i) = NoRequest"
        using r [of i] by (simp add: registrar_ok_def)
      then have "ms_answer m i = None"
        using a [of i] by (cases "ms_answer m i") simp_all
      then show ?thesis
        by simp
    qed (use a [of i] in simp)
    then show ?thesis
      using do_enqueue(1) m(2) registrar_ok_enqueue [OF C r do_enqueue(4)] masters_ok_registrar_only [OF m(1)] by simp
  qed
qed

lemma masters_run_ok:
  assumes "masters_run E C version get set_entry state s m" "inv s" "codec_ok C" "stored_registry C (state s) = Ok R0"
  shows "masters_ok E C state R0 m \<and> inv (ms_storage m)"
  using assms
proof (induction rule: masters_run.induct)
  case run_start
  then show ?case
    using masters_ok_init by (simp add: masters_init_def)
next
  case (run_step m m')
  then show ?case
    using masters_ok_step by blast
qed

end

end
