(* ===== verification/Registry_Maintenance.thy ===== *)
theory Registry_Maintenance
  imports Registry_Invariant
begin

section \<open>Machines of the registry\<close>

text \<open>
  The operations of maintenance keep that the machines of the registry are those that its schedules name, each
  once.
\<close>

lemma fold_upd_dom: "dom (fold (\<lambda>i m. m(i \<mapsto> v)) js m) = dom m \<union> set js"
  by (induction js arbitrary: m) auto

lemma schedule_unavailability_dom: "dom (schedule_unavailability schedule) = (\<Union>w\<in>set schedule. set (wi_machine_ids w))"
proof -
  have "dom (fold (\<lambda>w m. fold (\<lambda>i m. m(i \<mapsto> wi_unavailability w)) (wi_machine_ids w) m) schedule m) =
      dom m \<union> (\<Union>w\<in>set schedule. set (wi_machine_ids w))" for m
    by (induction schedule arbitrary: m) (auto simp: fold_upd_dom)
  from this [of Map.empty] show ?thesis
    by (simp add: schedule_unavailability_def)
qed

lemma machines_UpdateSchedule:
  assumes R: "machines_ok R" and d: "distinct (concat (map wi_machine_ids schedule))"
    and p: "UpdateSchedule_perform schedule R ids = (r, R', ids')"
  shows "machines_ok R'"
proof -
  let ?u = "schedule_unavailability schedule" and ?old = "scheduled (rg_schedules R)"
  have ids: "map mi_id (rg_machines R') =
      filter (\<lambda>i. ?u i \<noteq> None) (map mi_id (rg_machines R)) @ filter (\<lambda>i. i \<notin> ?old) (concat (map wi_machine_ids schedule))"
    and sched: "scheduled (rg_schedules R') = dom ?u"
    using p by (auto simp: UpdateSchedule_perform_def Let_def map_concat filter_concat comp_def filter_map scheduled_def
        schedule_unavailability_dom)
  have "distinct (map mi_id (rg_machines R'))"
    unfolding ids using R d by (auto simp: machines_ok_def)
  moreover have "set (map mi_id (rg_machines R')) = dom ?u"
    unfolding ids using R by (auto simp: machines_ok_def schedule_unavailability_dom [symmetric] dom_def)
  ultimately show ?thesis
    by (simp add: machines_ok_def sched)
qed

lemma machines_StartMaintenance:
  assumes R: "machines_ok R" and p: "StartMaintenance_perform ms R ids = (r, R', ids')"
  shows "machines_ok R'"
proof -
  have "map mi_id (rg_machines R') = map mi_id (rg_machines R)" "rg_schedules R' = rg_schedules R"
    using p by (auto simp: StartMaintenance_perform_def)
  then show ?thesis
    using R unfolding machines_ok_def by (metis set_map)
qed

lemma machines_kept:
  assumes "perform_operation E x R ids = (r, R', ids')"
  shows "(\<exists>schedule. x = UpdateSchedule schedule) \<or> (\<exists>ms. x = StartMaintenance ms) \<or> (\<exists>ms. x = StopMaintenance ms) \<or>
    rg_machines R' = rg_machines R \<and> rg_schedules R' = rg_schedules R"
proof (cases x)
  case (ReactivateAgent i)
  then have "ReactivateAgent_perform i R ids = (r, R', ids')"
    using assms by simp
  then show ?thesis
    by (rule ReactivateAgent_cases) simp
next
  case (MarkSlaveGone i t)
  then show ?thesis
    using assms by (simp add: MarkSlaveGone_perform_def Let_def split: if_splits) auto
next
  case (DrainAgent i g b)
  then show ?thesis
    using assms by (simp add: DrainAgent_perform_def Let_def split: if_splits) auto
next
  case (DeactivateAgent i)
  then show ?thesis
    using assms by (simp add: DeactivateAgent_perform_def Let_def split: if_splits) auto
next
  case (MarkAgentDrained i)
  then show ?thesis
    using assms by (simp add: MarkAgentDrained_perform_def split: if_splits option.splits outcome.splits) auto
next
  case (MarkSlaveReachable info)
  then show ?thesis
    using assms by (simp add: MarkSlaveReachable_perform_def Let_def split: if_splits option.splits) auto
next
  case (Prune u g)
  then show ?thesis
    using assms by (simp add: Prune_perform_def Let_def split: outcome.splits prod.splits) auto
qed (use assms in \<open>auto simp: AdmitSlave_perform_def UpdateSlave_perform_def MarkSlaveUnreachable_perform_def
      RemoveSlave_perform_def split: if_splits option.splits\<close>)

abbreviation strip_machines :: "MachineID set \<Rightarrow> Schedule \<Rightarrow> Schedule" where
  "strip_machines ms schedule \<equiv> filter (\<lambda>w. wi_machine_ids w \<noteq> [])
     (map (\<lambda>w. w\<lparr>wi_machine_ids := filter (\<lambda>i. i \<notin> ms) (wi_machine_ids w)\<rparr>) schedule)"

lemma strip_machines_ids:
  "(\<Union>w\<in>set (strip_machines ms schedule). set (wi_machine_ids w)) = (\<Union>w\<in>set schedule. set (wi_machine_ids w)) - ms"
  by (induction schedule) (auto simp: filter_empty_conv)

lemma scheduled_strip:
  "scheduled (filter (\<lambda>schedule. schedule \<noteq> []) (map (strip_machines ms) schedules)) = scheduled schedules - ms"
proof (induction schedules)
  case (Cons schedule schedules)
  have split: "scheduled (x # xs) = (\<Union>w\<in>set x. set (wi_machine_ids w)) \<union> scheduled xs"
    "scheduled (filter (\<lambda>schedule. schedule \<noteq> []) (x # xs)) =
       (\<Union>w\<in>set x. set (wi_machine_ids w)) \<union> scheduled (filter (\<lambda>schedule. schedule \<noteq> []) xs)" for x xs
    by (auto simp: scheduled_def)
  show ?case
    unfolding list.map split Cons.IH strip_machines_ids by blast
qed (simp add: scheduled_def)

lemma machines_StopMaintenance:
  assumes R: "machines_ok R" and p: "StopMaintenance_perform ms R ids = (r, R', ids')"
  shows "machines_ok R'"
proof -
  have R': "R' = R\<lparr>rg_machines := filter (\<lambda>m. mi_id m \<notin> ms) (rg_machines R),
      rg_schedules := filter (\<lambda>schedule. schedule \<noteq> []) (map (strip_machines ms) (rg_schedules R))\<rparr>"
    using p by (simp only: StopMaintenance_perform_def Let_def prod.inject)
  have "rg_schedules R' = filter (\<lambda>schedule. schedule \<noteq> []) (map (strip_machines ms) (rg_schedules R))"
    by (cases R) (simp only: R' Registry.select_convs Registry.update_convs)
  then have "scheduled (rg_schedules R') = scheduled (rg_schedules R) - ms"
    by (simp only: scheduled_strip)
  moreover have "map mi_id (rg_machines R') = filter (\<lambda>i. i \<notin> ms) (map mi_id (rg_machines R))"
    by (simp add: R' filter_map comp_def)
  then have "distinct (map mi_id (rg_machines R'))" "set (map mi_id (rg_machines R')) = mi_id ` set (rg_machines R) - ms"
    using R by (auto simp: machines_ok_def)
  ultimately show ?thesis
    using R by (simp add: machines_ok_def)
qed

lemma machines_perform:
  assumes R: "machines_ok R" and x: "proper_operation R x" and p: "perform_operation E x R ids = (r, R', ids')"
  shows "machines_ok R'"
proof -
  consider schedule where "x = UpdateSchedule schedule" | ms where "x = StartMaintenance ms" | ms where "x = StopMaintenance ms"
    | "rg_machines R' = rg_machines R" "rg_schedules R' = rg_schedules R"
    using machines_kept [OF p] by blast
  then show ?thesis
  proof cases
    case 1
    then show ?thesis
      using p x machines_UpdateSchedule [OF R] by simp
  next
    case 2
    then show ?thesis
      using p machines_StartMaintenance [OF R] by simp
  next
    case 3
    then show ?thesis
      using p machines_StopMaintenance [OF R] by simp
  next
    case 4
    then show ?thesis
      using R by (simp add: machines_ok_def)
  qed
qed

end
