(* ===== verification/Registrar_Example.thy ===== *)
theory Registrar_Example
  imports Registrar_Safety Registry_Maintenance
begin

section \<open>A run of two masters\<close>

text \<open>
  The first master recovers the registry and admits an agent. The second master then becomes the leader: it
  recovers the registry, which changes its version. When the first master deactivates the agent after that, its
  store does not succeed, the operation fails, and its registrar accepts no more operations.
\<close>

definition example_conversion :: info_conversion where
  "example_conversion = \<lparr>ic_upgrade = (\<lambda>i. i), ic_downgrade = Some, ic_equal = (=)\<rparr>"

definition example_agent :: SlaveInfo where
  "example_agent = \<lparr>si_id = ''S1'', si_content = ''cpus:24''\<rparr>"

definition example_registry :: "string option \<Rightarrow> Slave list \<Rightarrow> string list \<Rightarrow> Registry" where
  "example_registry master slaves cs = \<lparr>rg_master = master, rg_slaves = slaves, rg_unreachable = [], rg_gone = [], rg_machines = [],
     rg_schedules = [], rg_minimum_capabilities = cs, rg_other = []\<rparr>"

definition example_slave :: "bool option \<Rightarrow> Slave" where
  "example_slave d = \<lparr>sv_info = example_agent, sv_drain_info = None, sv_deactivated = d\<rparr>"

definition example_registries :: "(string \<times> Registry) list" where
  "example_registries =
     [([], example_registry None [] []),
      (''1'', example_registry (Some ''A'') [] []),
      (''2'', example_registry (Some ''A'') [example_slave None] []),
      (''3'', example_registry (Some ''B'') [example_slave None] []),
      (''4'', example_registry (Some ''A'') [example_slave (Some True)] [AGENT_DRAINING])]"

definition example_registry_codec :: registry_codec where
  "example_registry_codec =
     \<lparr>registry_serialize = (\<lambda>R. case find (\<lambda>(x, S). S = R) example_registries of Some (x, _) \<Rightarrow> Ok x | None \<Rightarrow> Error ''Failed to serialize''),
      registry_deserialize = (\<lambda>x. case map_of example_registries x of Some R \<Rightarrow> Ok R | None \<Rightarrow> Error ''Failed to deserialize'')\<rparr>"

definition example_entry_codec :: entry_codec where
  "example_entry_codec =
     \<lparr>entry_serialize = (\<lambda>e. if en_name e = REGISTRY \<and> length (en_uuid e) = 16 then Some (en_uuid e @ en_value e) else None),
      entry_parse = (\<lambda>v. Some \<lparr>en_name = REGISTRY, en_uuid = take 16 v, en_value = drop 16 v\<rparr>)\<rparr>"

abbreviation example_step :: "ldb_storage masters \<Rightarrow> ldb_storage masters \<Rightarrow> bool" where
  "example_step \<equiv> masters_step example_conversion example_registry_codec (\<lambda>_. True) (ld_get example_entry_codec example_status)
     (ld_set (\<lambda>_. True) example_entry_codec example_status) (ld_state example_entry_codec)"

abbreviation example_run :: "ldb_storage masters \<Rightarrow> bool" where
  "example_run \<equiv> masters_run example_conversion example_registry_codec (\<lambda>_. True) (ld_get example_entry_codec example_status)
     (ld_set (\<lambda>_. True) example_entry_codec example_status) (ld_state example_entry_codec) (ld_initialize example_status Map.empty)"

subsection \<open>Execution\<close>

datatype masters_event =
    ERecover nat string
  | EFetch nat string
  | EFetched nat
  | EStore nat string
  | EStored nat
  | ERecovered nat bool
  | EApply nat nat RegistryOperation
  | EEnqueue nat

definition step_registrar :: "nat \<Rightarrow> registrar outcome \<Rightarrow> 's masters \<Rightarrow> 's masters option" where
  "step_registrar i q m = (case q of Ok r \<Rightarrow> Some (m\<lparr>ms_registrar := (ms_registrar m)(i := r)\<rparr>) | _ \<Rightarrow> None)"

definition fresh_uuid :: "string \<Rightarrow> 's masters \<Rightarrow> bool" where
  "fresh_uuid u m \<longleftrightarrow> length u = 16 \<and> u \<notin> ms_used m"

fun masters_exec :: "masters_event \<Rightarrow> ldb_storage masters \<Rightarrow> ldb_storage masters option" where
  "masters_exec (ERecover i info) m = step_registrar i (Ok (registrar_recover info (ms_registrar m i))) m"
| "masters_exec (EFetch i u) m =
     (case (rr_request (ms_registrar m i), ms_answer m i) of
        (FetchRequest info, None) \<Rightarrow>
          (case state_fetch (ld_get example_entry_codec example_status) u REGISTRY (ms_storage m) of
             (q, s) \<Rightarrow>
               if fresh_uuid u m \<and> q \<noteq> Abort
               then Some (m\<lparr>ms_storage := s, ms_answer := (ms_answer m)(i \<mapsto> Fetched (future_of q)), ms_used := insert u (ms_used m)\<rparr>)
               else None)
      | _ \<Rightarrow> None)"
| "masters_exec (EFetched i) m =
     (case (rr_request (ms_registrar m i), ms_answer m i) of
        (FetchRequest info, Some (Fetched f)) \<Rightarrow>
          map_option (\<lambda>m'. m'\<lparr>ms_answer := (ms_answer m)(i := None)\<rparr>)
            (step_registrar i (registrar_fetched example_conversion example_registry_codec info f (ms_registrar m i)) m)
      | _ \<Rightarrow> None)"
| "masters_exec (EStore i u) m =
     (case (rr_request (ms_registrar m i), ms_answer m i) of
        (StoreRequest v R ops, None) \<Rightarrow>
          (case state_store (\<lambda>_. True) (ld_set (\<lambda>_. True) example_entry_codec example_status) u v (ms_storage m) of
             (q, s) \<Rightarrow>
               if fresh_uuid u m \<and> q \<noteq> Abort
               then Some (m\<lparr>ms_storage := s, ms_answer := (ms_answer m)(i \<mapsto> Stored (future_of q)),
                 ms_committed := record_commit (ld_state example_entry_codec s) u ops (ms_committed m), ms_used := insert u (ms_used m)\<rparr>)
               else None)
      | _ \<Rightarrow> None)"
| "masters_exec (EStored i) m =
     (case (rr_request (ms_registrar m i), ms_answer m i) of
        (StoreRequest v R ops, Some (Stored f)) \<Rightarrow>
          map_option (\<lambda>m'. m'\<lparr>ms_answer := (ms_answer m)(i := None)\<rparr>)
            (step_registrar i (updated_registry example_conversion example_registry_codec f R ops (ms_registrar m i)) m)
      | _ \<Rightarrow> None)"
| "masters_exec (ERecovered i b) m =
     (if (None, Ok b) \<in> set (rr_results (ms_registrar m i)) \<and> rr_recovered (ms_registrar m i) = Some Pending
      then step_registrar i (registrar_recovered (Ok b) (ms_registrar m i)) m
      else None)"
| "masters_exec (EApply i k x) m = step_registrar i (Ok (registrar_apply k x (ms_registrar m i))) m"
| "masters_exec (EEnqueue i) m =
     (case (rr_gated (ms_registrar m i), rr_recovered (ms_registrar m i)) of
        ((k, x) # ops, Some (Ready R)) \<Rightarrow>
          step_registrar i (registrar_enqueue example_conversion example_registry_codec k x ((ms_registrar m i)\<lparr>rr_gated := ops\<rparr>)) m
      | _ \<Rightarrow> None)"

fun masters_exec_all :: "masters_event list \<Rightarrow> ldb_storage masters \<Rightarrow> ldb_storage masters option" where
  "masters_exec_all [] m = Some m"
| "masters_exec_all (e # es) m = (case masters_exec e m of Some m' \<Rightarrow> masters_exec_all es m' | None \<Rightarrow> None)"

lemma fresh_uuid_valid: "fresh_uuid u m \<Longrightarrow> valid_uuid (\<lambda>_. True) u \<and> u \<notin> ms_used m"
  by (simp add: fresh_uuid_def valid_uuid_def uuid_get_Ok)

lemma masters_exec_step: "masters_exec e m = Some m' \<Longrightarrow> example_step m m'"
  by (induction e m rule: masters_exec.induct)
    (auto simp: step_registrar_def dest!: fresh_uuid_valid split: request.splits option.splits outcome.splits answer.splits prod.splits
      if_splits list.splits future.splits intro: masters_step.intros)

lemma masters_exec_all_run: "masters_exec_all es m = Some m' \<Longrightarrow> example_run m \<Longrightarrow> example_run m'"
  by (induction es arbitrary: m) (auto intro: masters_run.run_step dest: masters_exec_step split: option.splits)

subsection \<open>The run\<close>

definition example_uuid :: "char \<Rightarrow> string" where
  "example_uuid c = replicate 16 c"

definition example_events :: "masters_event list" where
  "example_events =
     [ERecover 0 ''A'', EFetch 0 (example_uuid (CHR ''a'')), EFetched 0, EStore 0 (example_uuid (CHR ''b'')), EStored 0, ERecovered 0 True,
      EApply 0 7 (AdmitSlave example_agent), EEnqueue 0, EStore 0 (example_uuid (CHR ''c'')), EStored 0,
      ERecover 1 ''B'', EFetch 1 (example_uuid (CHR ''d'')), EFetched 1, EStore 1 (example_uuid (CHR ''e'')), EStored 1,
      EApply 0 8 (DeactivateAgent ''S1''), EEnqueue 0, EStore 0 (example_uuid (CHR ''f'')), EStored 0]"

definition example_masters :: "ldb_storage masters" where
  "example_masters = the (masters_exec_all example_events (masters_init (ld_state example_entry_codec) (ld_initialize example_status Map.empty)))"

lemma example_ld_inv: "ld_inv (\<lambda>_. True) example_entry_codec (ld_initialize example_status Map.empty)"
  by (auto simp: ld_inv_def ld_initialize_def ld_state_def entries_ok_def example_entry_codec_def)

lemma example_codec_ok: "codec_ok example_registry_codec"
  by (auto simp: codec_ok_def example_registry_codec_def example_registries_def example_registry_def split: if_splits)

lemma example_stored_init: "stored_registry example_registry_codec (ld_state example_entry_codec (ld_initialize example_status Map.empty)) =
    Ok (example_registry None [] [])"
  by (simp add: stored_registry_def ld_state_def ld_initialize_def example_registry_codec_def example_registries_def)

lemmas example_eval = example_uuid_def masters_init_def registrar_init_def step_registrar_def fresh_uuid_def
  state_fetch_def ld_get_def ld_read_def ld_initialize_def example_status_def state_store_def uuid_get_def fromBytes_def mutate_def
  ld_set_def ld_write_def ld_state_def example_entry_codec_def example_registry_codec_def example_registries_def
  example_registry_def example_slave_def example_agent_def example_conversion_def
  registrar_recover_def registrar_fetched_def update_registry_def updated_registry_def registrar_recovered_def registrar_apply_def
  registrar_enqueue_def registry_ids_def variable_value_def record_commit_def registry_version_def recovery_failed_def
  registrar_abort_def fail_operations_def AdmitSlave_perform_def DeactivateAgent_perform_def addMinimumCapability_def Let_def

lemma example_execution:
  "\<exists>m. masters_exec_all example_events (masters_init (ld_state example_entry_codec) (ld_initialize example_status Map.empty)) = Some m \<and>
     ms_committed m = [[(None, Recover ''A'', True)], [(Some 7, AdmitSlave example_agent, True)], [(None, Recover ''B'', True)]] \<and>
     rr_results (ms_registrar m 0) =
       [(None, Ok True), (Some 7, Ok True), (Some 8, Error ''Failed to update registry: version mismatch'')] \<and>
     rr_error (ms_registrar m 0) = Some ''Failed to update registry: version mismatch''"
  by (simp add: example_events_def example_eval)

lemma example_masters:
  "example_run example_masters"
  "ms_committed example_masters = [[(None, Recover ''A'', True)], [(Some 7, AdmitSlave example_agent, True)], [(None, Recover ''B'', True)]]"
  "rr_results (ms_registrar example_masters 0) =
     [(None, Ok True), (Some 7, Ok True), (Some 8, Error ''Failed to update registry: version mismatch'')]"
proof -
  obtain m where m: "masters_exec_all example_events (masters_init (ld_state example_entry_codec) (ld_initialize example_status Map.empty)) = Some m"
      "ms_committed m = [[(None, Recover ''A'', True)], [(Some 7, AdmitSlave example_agent, True)], [(None, Recover ''B'', True)]]"
      "rr_results (ms_registrar m 0) =
        [(None, Ok True), (Some 7, Ok True), (Some 8, Error ''Failed to update registry: version mismatch'')]"
    using example_execution by blast
  then have e: "example_masters = m"
    by (simp add: example_masters_def)
  show "example_run example_masters"
    unfolding e by (rule masters_exec_all_run [OF m(1) masters_run.run_start])
  show "ms_committed example_masters = [[(None, Recover ''A'', True)], [(Some 7, AdmitSlave example_agent, True)], [(None, Recover ''B'', True)]]"
    "rr_results (ms_registrar example_masters 0) =
     [(None, Ok True), (Some 7, Ok True), (Some 8, Error ''Failed to update registry: version mismatch'')]"
    unfolding e using m(2,3) by blast+
qed

end
