(* ===== verification/Registrar_Scenario.thy ===== *)
theory Registrar_Scenario
  imports Registrar_Example
begin

section \<open>Properties of the registry and of its registrars\<close>

text \<open>
  What the operations on the registry do, and what registrars that share a LevelDB storage guarantee; runs
  of two masters are the concrete inputs.
\<close>

subsection \<open>Batches keep the invariant\<close>

definition registry_inv :: "Registry \<Rightarrow> bool" where
  "registry_inv R \<longleftrightarrow> agents_ok R (registry_ids R) \<and> drain_ok R \<and> machines_ok R"

fun proper_operations :: "info_conversion \<Rightarrow> queued list \<Rightarrow> Registry \<Rightarrow> SlaveID set \<Rightarrow> bool" where
  "proper_operations E [] R ids \<longleftrightarrow> True"
| "proper_operations E ((k, x, b) # ops) R ids \<longleftrightarrow>
     proper_operation R x \<and> (case perform_operation E x R ids of (r, R', ids') \<Rightarrow> proper_operations E ops R' ids')"

fun proper_batches :: "info_conversion \<Rightarrow> queued list list \<Rightarrow> Registry \<Rightarrow> bool" where
  "proper_batches E [] R \<longleftrightarrow> True"
| "proper_batches E (ops # batches) R \<longleftrightarrow> proper_operations E ops R (registry_ids R) \<and>
     (case apply_operations E ops R (registry_ids R) of Some (_, R') \<Rightarrow> proper_batches E batches R' | None \<Rightarrow> True)"

lemma agents_ok_ids: "agents_ok R ids \<Longrightarrow> ids = registry_ids R"
  using agents_okD(1) by (fastforce simp: registry_ids_def)

lemma registry_inv_perform:
  assumes "conversion_ok E" "registry_inv R" "proper_operation R x" "perform_operation E x R (registry_ids R) = (r, R', ids')" "r \<noteq> Abort"
  shows "registry_inv R'" "ids' = registry_ids R'"
proof -
  have "agents_ok R' ids'"
    using agents_perform [OF assms(1) _ assms(3-5)] assms(2) by (simp add: registry_inv_def)
  moreover from agents_ok_ids [OF this] show "ids' = registry_ids R'" .
  moreover have "drain_ok R'" "machines_ok R'"
    using drain_perform [OF _ assms(4)] machines_perform [OF _ assms(3,4)] assms(2) by (simp_all add: registry_inv_def)
  ultimately show "registry_inv R'"
    by (simp add: registry_inv_def)
qed

lemma registry_inv_batch:
  assumes "conversion_ok E" "registry_inv R" "proper_operations E ops R (registry_ids R)"
    "apply_operations E ops R (registry_ids R) = Some (ops', R')"
  shows "registry_inv R'"
  using assms
proof (induction ops arbitrary: R ops')
  case (Cons q ops)
  obtain k x b where q: "q = (k, x, b)"
    by (cases q)
  obtain r R1 ids where p: "perform_operation E x R (registry_ids R) = (r, R1, ids)"
    by (cases "perform_operation E x R (registry_ids R)")
  have r: "r \<noteq> Abort" and a: "\<exists>ops1. apply_operations E ops R1 ids = Some (ops1, R')"
    using Cons.prems(4) q p by (auto split: outcome.splits)
  have R1: "registry_inv R1" "ids = registry_ids R1"
    using registry_inv_perform [OF Cons.prems(1,2) _ p r] Cons.prems(3) q by simp_all
  then show ?case
    using Cons.IH [OF Cons.prems(1) R1(1)] a Cons.prems(3) q p by auto
qed simp

lemma registry_inv_replay:
  assumes "conversion_ok E" "registry_inv R" "proper_batches E bs R" "replay_batches E bs R = Some R'"
  shows "registry_inv R'"
  using assms
proof (induction bs arbitrary: R)
  case (Cons ops bs)
  obtain R1 where R1: "apply_operations E ops R (registry_ids R) = Some (ops, R1)" "replay_batches E bs R1 = Some R'"
    using Cons.prems(4) by (auto split: option.splits if_splits)
  then have "registry_inv R1" "proper_batches E bs R1"
    using registry_inv_batch [OF Cons.prems(1,2)] Cons.prems(3) by auto
  then show ?case
    using Cons.IH Cons.prems(1) R1(2) by blast
qed simp

subsection \<open>Pruning\<close>

lemma prune_loop_step:
  "prune_loop P i m xs = (if i < length xs then if P (xs ! i) then
     if i + (i + 1) \<le> length xs then prune_loop P i True (take i xs @ drop (i + (i + 1)) xs) else Abort
     else prune_loop P (i + 1) m xs else Ok (m, xs))"
  by (subst prune_loop.simps) (simp add: delete_subrange_def)

lemma prune_loop_no_error: "prune_loop P i m xs \<noteq> Error e"
proof (induction P i m xs rule: prune_loop.induct)
  case (1 P i m xs)
  then show ?case
    by (subst prune_loop.simps) (auto simp: delete_subrange_def split: outcome.splits)
qed

lemma prune_loop_skip:
  assumes "\<forall>j. i \<le> j \<and> j < k \<longrightarrow> \<not> P (xs ! j)" "i \<le> k" "k \<le> length xs"
  shows "prune_loop P i m xs = prune_loop P k m xs"
  using assms(2,3,1)
proof (induction k arbitrary: i rule: less_induct)
  case (less k)
  then show ?case
  proof (cases "i = k")
    case False
    then have "prune_loop P i m xs = prune_loop P (k - 1) m xs"
      using less.prems by (intro less.IH) auto
    also have "\<dots> = prune_loop P k m xs"
      using False less.prems by (subst prune_loop_step) auto
    finally show ?thesis .
  qed simp
qed

lemma prune_loop_none: "\<forall>x\<in>set xs. \<not> P x \<Longrightarrow> prune_loop P 0 m xs = Ok (m, xs)"
  using prune_loop_skip [of 0 "length xs" P xs m] prune_loop_step [of P "length xs" m xs] by simp

lemma prune_loop_prefix:
  "\<forall>x\<in>set ys. P x \<Longrightarrow> \<forall>x\<in>set zs. \<not> P x \<Longrightarrow> prune_loop P 0 m (ys @ zs) = Ok (m \<or> ys \<noteq> [], zs)"
proof (induction ys arbitrary: m)
  case Nil
  then show ?case
    using prune_loop_none by simp
next
  case (Cons y ys)
  have "prune_loop P 0 m ((y # ys) @ zs) = prune_loop P 0 True (ys @ zs)"
    using Cons.prems by (subst prune_loop_step) simp
  then show ?case
    using Cons by simp
qed

lemma prune_loop_inside:
  assumes "\<forall>x\<in>set ys. \<not> P x" "P x" "length ys \<le> length zs"
  shows "prune_loop P 0 m (ys @ x # zs) = prune_loop P (length ys) True (ys @ drop (length ys) zs)"
proof -
  have "prune_loop P 0 m (ys @ x # zs) = prune_loop P (length ys) m (ys @ x # zs)"
    by (rule prune_loop_skip) (use assms(1) in \<open>auto simp: nth_append\<close>)
  also have "\<dots> = prune_loop P (length ys) True (ys @ drop (length ys) zs)"
    using assms(2,3) by (subst prune_loop_step) simp
  finally show ?thesis .
qed

subsection \<open>Operations that are not permitted\<close>

lemma agent_operation_error:
  assumes "perform_operation E x R ids = (Error e, R', ids')" "\<forall>u g. x \<noteq> Prune u g" "\<forall>i. x \<noteq> ReactivateAgent i"
  shows "R' = R \<and> ids' = ids"
  using assms
  by (cases x)
    (simp_all add: AdmitSlave_perform_def UpdateSlave_perform_def MarkSlaveUnreachable_perform_def MarkSlaveReachable_perform_def
      RemoveSlave_perform_def MarkSlaveGone_perform_def DrainAgent_perform_def MarkAgentDrained_perform_def
      DeactivateAgent_perform_def UpdateSchedule_perform_def StartMaintenance_perform_def StopMaintenance_perform_def Let_def
      split: if_splits option.splits outcome.splits)

text \<open>
  An agent that is marked reachable is stored as it registered: the downgrade of its resources is computed after
  the information was copied, and is only used for the identifier.
\<close>

lemma reachable_not_downgraded:
  assumes "si_id info \<notin> ids" "ic_downgrade E info = Some j"
  shows "\<exists>R' s. perform_operation E (MarkSlaveReachable info) R ids = (Ok True, R', insert (si_id j) ids) \<and>
    rg_slaves R' = rg_slaves R @ [s] \<and> sv_info s = info"
  using assms by (auto simp: MarkSlaveReachable_perform_def Let_def split: option.splits)

subsection \<open>Properties\<close>

text \<open>
  Property C27. An operation on the registry that is not permitted has no effect: whenever an operation reports an
  error, the registry and the accumulated set of agents are as before.
\<close>

theorem operation_error_no_effect:
  assumes "perform_operation E x R ids = (Error e, R', ids')"
  shows "R' = R \<and> ids' = ids"
proof (cases x)
  case (Prune u g)
  then show ?thesis
    using assms by (auto simp: prune_loop_no_error Prune_perform_def Let_def split: outcome.splits prod.splits)
next
  case (ReactivateAgent i)
  then show ?thesis
    using assms by (auto simp: ReactivateAgent_perform_def split: prod.splits)
qed (use assms agent_operation_error [OF assms] in simp_all)

theorem operation_error_no_effect_witness:
  "perform_operation example_conversion (AdmitSlave example_agent) (example_registry None [example_slave None] []) {''S1''} =
     (Error ''Agent already admitted'', example_registry None [example_slave None] [], {''S1''})"
proof -
  obtain R ids where p: "perform_operation example_conversion (AdmitSlave example_agent) (example_registry None [example_slave None] []) {''S1''} =
      (Error ''Agent already admitted'', R, ids)"
    by (simp add: AdmitSlave_perform_def example_agent_def)
  from operation_error_no_effect [OF p] show ?thesis
    using p by simp
qed

text \<open>
  Property C28. When the agents to prune are the first ones of the lists of unreachable and of gone agents,
  pruning removes exactly these.
\<close>

theorem prune_first_exact:
  assumes "rg_unreachable R = us @ vs" "\<forall>s\<in>set us. un_id s \<in> U" "\<forall>s\<in>set vs. un_id s \<notin> U"
    and "rg_gone R = gs @ hs" "\<forall>s\<in>set gs. go_id s \<in> G" "\<forall>s\<in>set hs. go_id s \<notin> G"
  shows "perform_operation E (Prune U G) R ids = (Ok (us \<noteq> [] \<or> gs \<noteq> []), R\<lparr>rg_unreachable := vs, rg_gone := hs\<rparr>, ids)"
  using prune_loop_prefix [of us "\<lambda>s. un_id s \<in> U" vs False] prune_loop_prefix [of gs "\<lambda>s. go_id s \<in> G" hs] assms
  by (simp add: Prune_perform_def Let_def)

definition pruned_registry :: "SlaveID list \<Rightarrow> Registry" where
  "pruned_registry is = (example_registry None [] [])\<lparr>rg_unreachable :=
     map (\<lambda>i. \<lparr>un_id = i, un_timestamp = 0, un_drain_info = None, un_deactivated = None\<rparr>) is\<rparr>"

theorem prune_first_exact_witness:
  "perform_operation example_conversion (Prune {''S1'', ''S2''} {}) (pruned_registry [''S1'', ''S2'', ''S3'']) {} =
     (Ok True, pruned_registry [''S3''], {})"
  using prune_first_exact [of "pruned_registry [''S1'', ''S2'', ''S3'']" "rg_unreachable (pruned_registry [''S1'', ''S2''])"
      "rg_unreachable (pruned_registry [''S3''])" "{''S1'', ''S2''}" "[]" "[]" "{}" example_conversion "{}"]
  by (simp add: pruned_registry_def example_registry_def)

text \<open>
  Property C36. Pruning an unreachable agent at a later position also removes as many agents after it as there
  are before it, which were not to be pruned.
\<close>

theorem prune_removes_others:
  assumes "rg_unreachable R = us @ s # vs @ ws" "un_id s \<in> U" "length vs = length us"
    and "\<forall>t\<in>set us \<union> set vs \<union> set ws. un_id t \<notin> U"
  shows "perform_operation E (Prune U {}) R ids = (Ok True, R\<lparr>rg_unreachable := us @ ws\<rparr>, ids)"
proof -
  have "prune_loop (\<lambda>s. un_id s \<in> U) 0 False (rg_unreachable R) = prune_loop (\<lambda>s. un_id s \<in> U) (length us) True (us @ ws)"
    using assms prune_loop_inside [of us "\<lambda>s. un_id s \<in> U" s "vs @ ws" False] by simp
  also have "\<dots> = prune_loop (\<lambda>s. un_id s \<in> U) 0 True (us @ ws)"
    by (rule prune_loop_skip [symmetric]) (use assms in \<open>auto simp: nth_append\<close>)
  also have "\<dots> = Ok (True, us @ ws)"
    by (rule prune_loop_none) (use assms in auto)
  finally show ?thesis
    using prune_loop_none [of "rg_gone R" "\<lambda>s. go_id s \<in> {}" True] by (cases R) (simp add: Prune_perform_def Let_def)
qed

theorem prune_removes_others_witness:
  "perform_operation example_conversion (Prune {''S2''} {}) (pruned_registry [''S1'', ''S2'', ''S3'', ''S4'']) {} =
     (Ok True, pruned_registry [''S1'', ''S4''], {})"
  using prune_removes_others [of "pruned_registry [''S1'', ''S2'', ''S3'', ''S4'']" "rg_unreachable (pruned_registry [''S1''])"
      "hd (rg_unreachable (pruned_registry [''S2'']))" "rg_unreachable (pruned_registry [''S3''])"
      "rg_unreachable (pruned_registry [''S4''])" "{''S2''}" example_conversion "{}"]
  by (simp add: pruned_registry_def example_registry_def)

text \<open>
  Property C4. Masters that share a LevelDB storage update the registry one after the other: in every run the
  stored registry is what the batches that were written, in this order, make of the initial one, with the
  results that the operations got.
\<close>

theorem registrars_serializable:
  assumes "ld_inv version K s" "codec_ok C" "stored_registry C (ld_state K s) = Ok R0"
    and "masters_run E C version (ld_get K st) (ld_set version K st) (ld_state K) s m"
  shows "\<exists>R. stored_registry C (ld_state K (ms_storage m)) = Ok R \<and> replay_batches E (ms_committed m) R0 = Some R"
  using ld.masters_run_ok [OF assms(4,1,2,3)] by (simp add: masters_ok_def)

theorem registrars_serializable_witness:
  "\<exists>R. stored_registry example_registry_codec (ld_state example_entry_codec (ms_storage example_masters)) = Ok R \<and>
     replay_batches example_conversion (ms_committed example_masters) (example_registry None [] []) = Some R \<and>
     length (ms_committed example_masters) = 3"
  using registrars_serializable [OF example_ld_inv example_codec_ok example_stored_init example_masters(1)] example_masters(2) by simp

text \<open>
  Property C8. An operation that a registrar reports as done is durable: it is in a batch that was written to
  the storage, and there it has the result that was reported.
\<close>

theorem reported_operation_committed:
  assumes "ld_inv version K s" "codec_ok C" "stored_registry C (ld_state K s) = Ok R0"
    and "masters_run E C version (ld_get K st) (ld_set version K st) (ld_state K) s m"
    and "(k, Ok b) \<in> set (rr_results (ms_registrar m i))"
  shows "\<exists>ops\<in>set (ms_committed m). \<exists>x. (k, x, b) \<in> set ops"
  using ld.masters_run_ok [OF assms(4,1,2,3)] assms(5) by (auto simp: masters_ok_def registrar_ok_def results_ok_def)

theorem reported_operation_committed_witness:
  "(Some 7, Ok True) \<in> set (rr_results (ms_registrar example_masters 0)) \<and>
   (\<exists>ops x. ops \<in> set (ms_committed example_masters) \<and> (Some 7, x, True) \<in> set ops)"
proof -
  have r: "(Some 7, Ok True) \<in> set (rr_results (ms_registrar example_masters 0))"
    by (simp add: example_masters(3))
  from reported_operation_committed [OF example_ld_inv example_codec_ok example_stored_init example_masters(1) r] show ?thesis
    using r by blast
qed

text \<open>
  Property C9. The stored registry is always consistent: when the master submits proper operations, no agent
  is in two lists or twice in one, agents with a drain configuration are deactivated, deactivated agents require the
  capability of the master, and the machines are those of the schedules.
\<close>

theorem stored_registry_consistent:
  assumes "ld_inv version K s" "codec_ok C" "stored_registry C (ld_state K s) = Ok R0"
    and "masters_run E C version (ld_get K st) (ld_set version K st) (ld_state K) s m"
    and "registry_inv R0" "conversion_ok E" "proper_batches E (ms_committed m) R0"
  shows "\<exists>R. stored_registry C (ld_state K (ms_storage m)) = Ok R \<and> registry_inv R"
proof -
  obtain R where "stored_registry C (ld_state K (ms_storage m)) = Ok R" "replay_batches E (ms_committed m) R0 = Some R"
    using ld.masters_run_ok [OF assms(4,1,2,3)] by (auto simp: masters_ok_def)
  then show ?thesis
    using registry_inv_replay [OF assms(6,5,7)] by blast
qed

theorem stored_registry_consistent_witness:
  "\<exists>R. stored_registry example_registry_codec (ld_state example_entry_codec (ms_storage example_masters)) = Ok R \<and> registry_inv R"
proof -
  have "registry_inv (example_registry None [] [])" "conversion_ok example_conversion"
    by (simp_all add: registry_inv_def example_registry_def agents_ok_def registry_ids_def drain_ok_def machines_ok_def scheduled_def
        conversion_ok_def example_conversion_def)
  moreover have "proper_batches example_conversion (ms_committed example_masters) (example_registry None [] [])"
    by (simp add: example_masters(2) example_registry_def registry_ids_def AdmitSlave_perform_def example_conversion_def)
  ultimately show ?thesis
    by (rule stored_registry_consistent [OF example_ld_inv example_codec_ok example_stored_init example_masters(1)])
qed

end
