(* ===== verification/Spec2Isabelle.thy ===== *)
theory Spec2Isabelle
  imports Values_Ranges Values_Set Log_Coordinator Log_Catchup Log_Recover Log_Scenario Log_Reader Status_Scenario State_Scenario
    Registrar_Scenario
begin

section \<open>Verification of parts of clusterd\<close>

text \<open>
  \<open>clusterd\<close> is a fork of Apache Mesos: a master that allocates the resources of agents to frameworks,
  agents that run their tasks, and libraries both are built on. This development models six parts of
  it whose correctness does not depend on the operating system: the arithmetic of resource values, the
  replicated log, the versioned state that is kept in that log or in a database, the registry of the agents
  that the master keeps in such a state, the files of protobuf messages in which agents checkpoint state,
  and the manager that delivers operation status updates reliably. Paths are relative to \<open>src/\<close>.

  \<^bold>\<open>Common ground.\<close> \<open>Mesos_Prelude\<close> has 64-bit words, and the type \<open>outcome\<close> of a call: \<open>Ok\<close>, \<open>Error\<close> for a
  \<open>Try\<close>, \<open>Result\<close> or future that failed, and \<open>Abort\<close> for a failed \<open>CHECK\<close>, which stops the process. Every
  check of the code is a branch of the model, so that "does not abort" is a theorem. \<open>Stout_Uuid\<close> has the
  parsing of UUIDs.

  \<^bold>\<open>Resource values\<close> (\<open>src/common/values.cpp\<close>).
  \<^item> \<open>Values_Ranges\<close>: coalescing, subtraction, comparison and arithmetic of \<open>Value::Ranges\<close> as lists of
    64-bit intervals, with the sweep of \<open>coalesce\<close> step by step. The operations are those of the sets the
    lists stand for, and \<open>coalesce\<close> yields the canonical list, except at the largest 64-bit number.
  \<^item> \<open>Values_Set\<close>: the same for \<open>Value::Set\<close>; \<open>operator==\<close> compares by position.

  \<^bold>\<open>The replicated log\<close> (\<open>src/log/\<close>). Replicas keep a promise and one action per position; a coordinator
  gets itself elected and appends; positions that are not known are filled by a round of Paxos.
  \<^item> \<open>Log_Messages\<close> and \<open>Log_Encoding\<close>: the messages of \<open>messages/log.proto\<close> and the keys of the database.
  \<^item> \<open>Log_Storage\<close>: the locale \<open>log_storage\<close> says what a replica expects of its storage; it is interpreted
    on the model of \<open>LevelDBStorage\<close>, with the database as a sorted list of entries and its failures as
    arguments. What is persisted is read back, truncation removes what it should, restoring gives the state.
  \<^item> \<open>Log_Replica\<close>: every handler of \<open>ReplicaProcess\<close>, with the coalesced set of holes. The handlers keep
    the invariant that relates memory and storage, never lower a promise and respect learned positions.
  \<^item> \<open>Log_Consensus\<close>: the four phases of \<open>consensus.cpp\<close> as machines that consume responses; the locale
    \<open>quorum_collector\<close> states what the three phases that count responses share.
  \<^item> \<open>Log_Coordinator\<close>, \<open>Log_Catchup\<close>, \<open>Log_Recover\<close>: the coordinator, the catch-up of missing positions and
    the recovery of a replica that lost its state, each with the step relation of its process.
  \<^item> \<open>Paxos_Spec\<close> is Paxos as a textbook has it, with votes and promises; \<open>Log_Paxos\<close> lets replicas and
    proposers run together at one position, in any order and with messages lost or repeated, and proves
    that every step is a step of Paxos; \<open>Log_Scenario\<close> concludes that replicas agree. The condition is that
    a replica handles a write only when the promise that governs the position is not below its proposal;
    without it the last theorem there exhibits a run in which two replicas learn different values.
  \<^item> \<open>Log_Reader\<close>: what a client of the log reads from its replica, a complete range or an error, except that
    missing positions at the end of the range go unnoticed.

  \<^bold>\<open>Versioned state\<close> (\<open>include/mesos/state/\<close>, \<open>src/state/\<close>). Variables that are stored only if nobody else has
  stored them since they were fetched.
  \<^item> \<open>State_Storage\<close>: variables and the storages in memory and in LevelDB. The locale \<open>swap_storage\<close> says that
    a storage swaps entries by version, its extension \<open>versioned_storage\<close> that it reads the present state; both
    storages are instances.
  \<^item> \<open>State_Log\<close>: the functions of \<open>LogStorageProcess\<close>, which keeps the state as operations in the replicated log, and
    what a list of operations means, in particular when its beginning is truncated.
  \<^item> \<open>State_Cluster\<close>: several processes over one log, of which each may believe that it is the writer. The log is
    specified by its entries, its beginning and end, and the last position that each writer knows: an action is
    chosen only if the next position is free, and a writer that is demoted or fails does not learn whether it was.
  \<^item> \<open>State_Run\<close>: the invariants that every operation keeps; \<open>State_Scenario\<close>: all executions with restarts implement
    one map with atomic operations, an instance of \<open>swap_storage\<close>. This holds when differences are disabled, as by
    default, or there is one variable; otherwise truncation can leave a difference without its snapshot.

  \<^bold>\<open>The registry\<close> (\<open>src/master/\<close>). The master admits agents, marks them unreachable or gone, drains them and
  schedules maintenance by operations on a registry, which a registrar applies in batches and stores.
  \<^item> \<open>Registry_Operations\<close>: the registry and every operation of \<open>registry_operations.cpp\<close> and \<open>maintenance.cpp\<close>.
  \<^item> \<open>Registry_Invariant\<close>, \<open>Registry_Draining\<close>, \<open>Registry_Maintenance\<close>: the operations keep that an agent is in one
    list only, that agents which are drained are deactivated and require a capability of the master, and that
    the machines are those of the schedules.
  \<^item> \<open>Registrar\<close>: the handlers of \<open>RegistrarProcess\<close>; \<open>Registrar_System\<close>: registrars of several masters over any
    \<open>versioned_storage\<close>, with answers that arrive late or never.
  \<^item> \<open>Registrar_Safety\<close>: the invariant of their runs, proved in the context of that locale; \<open>Registrar_Example\<close> is a run
    in which a second master takes over; \<open>Registrar_Scenario\<close> concludes for LevelDB that batches are serialized,
    that reported operations are stored, and that the stored registry is consistent. It also shows what
    pruning does to agents that are not at the front of their list.

  \<^bold>\<open>Checkpointed status updates\<close> (\<open>src/status_update_manager/\<close>, \<open>3rdparty/stout/include/stout/protobuf.hpp\<close>).
  \<^item> \<open>Protobuf_File\<close>: messages in a file as frames of size and bytes; a write can stop after any byte.
  \<^item> \<open>Status_Stream\<close>: a stream of updates, its file and its recovery. The invariant relates the stream, the
    history of accepted and acknowledged updates and the bytes in the file, also after a write that failed.
  \<^item> \<open>Status_Manager\<close>: all operations of \<open>StatusUpdateManagerProcess\<close>, with its clock and timers.
  \<^item> \<open>Status_Run\<close>: executions with restarts; \<open>Status_Scenario\<close>: what they guarantee, exercised on an
    environment with a concrete serialization.

  \<^bold>\<open>Parameters.\<close> Code that is not part of the repository is an argument: the database, protobuf
  serialization, Subversion's differences, boost's UUIDs, the results of system calls, and the order in which a
  hash map is visited.
  What the theorems need of it are hypotheses with a name (\<open>env_ok\<close>, \<open>io_ok\<close>, \<open>order_ok\<close>, \<open>sl_ok\<close>, \<open>codec_ok\<close>, and the failures
  passed to storage), and each theorem that has one is also applied to a concrete instance.

  \<^bold>\<open>Bounds.\<close> Positions, proposals and ranges are 64-bit words, and wrap-around is part of the model. Loops
  are recursive functions that terminate; there is no fuel. Times are natural numbers of nanoseconds,
  saturating as \<open>Timeout::in\<close> does. Positions as the state storage sees them are natural numbers: it
  only compares them.

  \<^bold>\<open>Not modelled.\<close> The master apart from its registry, agent, allocator, containerizers, isolators, fetcher, HTTP endpoints, the
  scheduler and executor libraries, authentication and the command line tools: they consist of calls into
  libprocess, the operating system and generated protobuf code, and their state is spread over thousands of
  lines of handlers that only make sense together. \<open>libprocess\<close> itself (actors, sockets, HTTP) appears only
  as the order of messages, futures and timers that the modelled code observes. Of \<open>log.cpp\<close> the dispatching
  wrappers and \<open>LogProcess\<close> are left out, and \<open>network.hpp\<close> and the metrics, which move bytes and count.
  \<open>src/state/zookeeper.cpp\<close> is a sequence of calls of a ZooKeeper session. That the replicas and coordinators
  implement the log as \<open>State_Cluster\<close> specifies it is not proved: agreement is shown for each position alone. Restarts of a replica are
  treated by \<open>Log_Storage\<close> and \<open>Log_Replica\<close>, not within the runs of \<open>Log_Paxos\<close>. Scalars are doubles.
  Operations on quotas, weights and resource providers, which are not in the files above, are not modelled. That
  the master submits only proper operations (\<open>proper_batches\<close>) is a hypothesis of one theorem.
\<close>

end
